(* ===== verification/AC_Prelude.thy ===== *)
theory AC_Prelude
  imports Main "HOL-Library.Word"
begin

text \<open>
  Shared vocabulary of the development: machine integers, kernel error codes, C strings and
  the printf conversions the sources use, and the generic list lemmas of the components.

  A C string is modelled by its characters before the terminating NUL, as a \<^typ>\<open>string\<close>.
  A destination buffer of \<open>n\<close> bytes written by \<open>strscpy\<close> or \<open>snprintf\<close> holds at most
  \<open>n - 1\<close> of them; this truncation is always written out.
\<close>

type_synonym u8 = "8 word"
type_synonym u32 = "32 word"
type_synonym u64 = "64 word"

named_theorems ac_consts \<open>the numeric constants of the sources\<close>
named_theorems ac_inv \<open>an operation keeps its component's invariant\<close>

subsection \<open>Error codes\<close>

datatype errno = EPERM | ESRCH | ENOMEM | EFAULT | EBUSY | ENODEV | EINVAL | ENOTTY | ENOSPC

text \<open>The value of a kernel function that returns 0 or a negative error code.\<close>

datatype kret = RetOK | RetErr errno

subsection \<open>C strings\<close>

definition NUL :: char where
  "NUL = CHR 0x00"

definition cstr :: "string \<Rightarrow> string" where
  "cstr s = takeWhile (\<lambda>c. c \<noteq> NUL) s"

definition strscpy :: "nat \<Rightarrow> string \<Rightarrow> string" where
  "strscpy n s = take (n - 1) (cstr s)"

definition snprintf :: "nat \<Rightarrow> string \<Rightarrow> string" where
  "snprintf n s = take (n - 1) s"

lemma length_strscpy: "0 < n \<Longrightarrow> length (strscpy n s) < n"
  by (simp add: strscpy_def)

lemma length_snprintf: "0 < n \<Longrightarrow> length (snprintf n s) < n"
  by (simp add: snprintf_def)

lemma NUL_notin_cstr: "NUL \<notin> set (cstr s)"
  by (auto simp: cstr_def dest: set_takeWhileD)

lemma NUL_notin_strscpy: "NUL \<notin> set (strscpy n s)"
  using NUL_notin_cstr by (auto simp: strscpy_def dest: in_set_takeD)

lemma cstr_id: "NUL \<notin> set s \<Longrightarrow> cstr s = s"
  by (auto simp: cstr_def takeWhile_eq_all_conv)

lemma strscpy_id: "NUL \<notin> set s \<Longrightarrow> length s < n \<Longrightarrow> strscpy n s = s"
  by (simp add: strscpy_def cstr_id)

lemma strscpy_strscpy: "strscpy n (strscpy n s) = strscpy n s"
  using NUL_notin_strscpy [of n s] by (simp add: strscpy_def cstr_id)

subsection \<open>printf conversions\<close>

definition digit_char :: "nat \<Rightarrow> char" where
  "digit_char d = (if d < 10 then char_of (48 + d) else char_of (87 + d))"

fun digits_in :: "nat \<Rightarrow> nat \<Rightarrow> string" where
  "digits_in b n =
     (if b < 2 \<or> n < b then [digit_char n] else digits_in b (n div b) @ [digit_char (n mod b)])"

declare digits_in.simps [simp del]

definition show_nat :: "nat \<Rightarrow> string" where
  "show_nat n = digits_in 10 n"

definition show_hex :: "nat \<Rightarrow> string" where
  "show_hex n = digits_in 16 n"

definition show_int :: "int \<Rightarrow> string" where
  "show_int i = (if i < 0 then CHR ''-'' # show_nat (nat (- i)) else show_nat (nat i))"

subsection \<open>Conversions between integer widths\<close>

text \<open>\<open>(pid_t)x\<close> and \<open>(int)x\<close> of a 64-bit register: the low 32 bits, read as two's complement.\<close>

definition to_int32 :: "u64 \<Rightarrow> int" where
  "to_int32 x = sint (ucast x :: u32)"

lemma to_int32_of_nat:
  assumes "n < 2 ^ 31"
  shows "to_int32 (of_nat n) = int n"
proof -
  have "sint (ucast (of_nat n :: u64) :: u32) = sint (of_nat n :: u32)"
    using assms by (simp add: unsigned_of_nat take_bit_nat_eq_self)
  also have "\<dots> = int n"
    using assms by (simp add: signed_of_nat signed_take_bit_int_eq_self)
  finally show ?thesis by (simp add: to_int32_def)
qed

subsection \<open>Lists\<close>

lemma in_set_nth_iff: "x \<in> set xs \<longleftrightarrow> (\<exists>i < length xs. xs ! i = x)"
  by (auto simp: in_set_conv_nth)

lemma take_min_length: "take (min n (length xs)) xs = take n xs"
  by (simp add: min_def)

lemma count_filter_update_gain:
  assumes "i < length xs" "\<not> P (xs ! i)" "P x"
  shows "length (filter P (xs[i := x])) = Suc (length (filter P xs))"
proof -
  have xs: "xs = take i xs @ xs ! i # drop (Suc i) xs"
    using assms(1) by (simp add: id_take_nth_drop)
  have "xs[i := x] = take i xs @ x # drop (Suc i) xs"
    using assms(1) by (simp add: upd_conv_take_nth_drop)
  moreover have "filter P xs = filter P (take i xs) @ filter P (drop (Suc i) xs)"
    using assms(2) by (subst xs) simp
  ultimately show ?thesis using assms(3) by simp
qed

lemma count_filter_update_same:
  assumes "i < length xs" "P (xs ! i) = P x"
  shows "length (filter P (xs[i := x])) = length (filter P xs)"
proof -
  have xs: "xs = take i xs @ xs ! i # drop (Suc i) xs"
    using assms(1) by (simp add: id_take_nth_drop)
  have "xs[i := x] = take i xs @ x # drop (Suc i) xs"
    using assms(1) by (simp add: upd_conv_take_nth_drop)
  moreover have "length (filter P xs)
      = length (filter P (take i xs @ xs ! i # drop (Suc i) xs))"
    by (subst xs) simp
  ultimately show ?thesis using assms(2) by simp
qed

lemma count_filter_update_loss:
  assumes "i < length xs" "P (xs ! i)" "\<not> P x"
  shows "Suc (length (filter P (xs[i := x]))) = length (filter P xs)"
  using count_filter_update_gain [of i "xs[i := x]" P "xs ! i"] assms by simp

subsection \<open>Options\<close>

lemma bind_NoneE:
  assumes "Option.bind a f = None"
  obtains "a = None" | x where "a = Some x" "f x = None"
  using assms by (cases a) simp_all

end
