(* ===== verification/Slot_Table.thy ===== *)
theory Slot_Table
  imports AC_Prelude
begin

text \<open>
  Fixed arrays of slots used as finite maps. The sources keep five of them: the kernel module's
  registry \<open>ac_prots\<close> and the daemon's \<open>g_anon_baseline\<close>, \<open>g_preload_warned\<close>,
  \<open>g_vklayer_warned\<close> and \<open>g_implicit_layer_baseline\<close>. All of them are searched by the same loop,
  which stops at a slot that already holds the key and remembers the first free slot on the way.

  This theory holds that loop, the lemmas about arrays of slots, and the contract every such table
  meets (the locales \<open>slot_map\<close>, \<open>slot_map_delete\<close> and \<open>slot_map_retain\<close>).
\<close>

subsection \<open>The search loop\<close>

datatype slot_hit = Hit nat | Miss "nat option"

fun slot_scan :: "('e \<Rightarrow> bool) \<Rightarrow> ('e \<Rightarrow> bool) \<Rightarrow> nat \<Rightarrow> nat option \<Rightarrow> 'e list \<Rightarrow> slot_hit" where
  "slot_scan m f i s [] = Miss s"
| "slot_scan m f i s (e # es) =
     (if m e then Hit i
      else slot_scan m f (Suc i) (if s = None \<and> f e then Some i else s) es)"

lemma slot_scan_replicate:
  "\<not> hit x \<Longrightarrow> slot_scan hit free i (Some j) (replicate n x) = Miss (Some j)"
  by (induction n arbitrary: i) simp_all

lemma slot_scan_Hit_gen:
  "slot_scan m f i s es = Hit j \<Longrightarrow> \<exists>k < length es. j = i + k \<and> m (es ! k)"
proof (induction es arbitrary: i s)
  case (Cons e es)
  show ?case
  proof (cases "m e")
    case True
    with Cons.prems show ?thesis by (intro exI [of _ 0]) simp
  next
    case False
    with Cons.prems Cons.IH obtain k where "k < length es" "j = Suc i + k" "m (es ! k)"
      by fastforce
    then show ?thesis by (intro exI [of _ "Suc k"]) simp
  qed
qed simp

lemma slot_scan_Miss_gen:
  "slot_scan m f i s es = Miss t \<Longrightarrow>
     (\<forall>e \<in> set es. \<not> m e) \<and>
     (s \<noteq> None \<and> t = s \<or>
      s = None \<and> t = None \<and> (\<forall>e \<in> set es. \<not> f e) \<or>
      s = None \<and> (\<exists>k < length es. t = Some (i + k) \<and> f (es ! k)))"
proof (induction es arbitrary: i s)
  case Nil
  then show ?case by (cases s) auto
next
  case (Cons e es)
  then have step: "\<not> m e"
      "slot_scan m f (Suc i) (if s = None \<and> f e then Some i else s) es = Miss t"
    by (auto split: if_splits)
  note IH = Cons.IH [OF step(2)]
  consider "s \<noteq> None" | "s = None" "f e" | "s = None" "\<not> f e" by blast
  then show ?case
  proof cases
    case 1
    with IH step(1) show ?thesis by auto
  next
    case 2
    with IH have "t = Some (i + 0)" "\<forall>e \<in> set (e # es). \<not> m e"
      using step(1) by simp_all
    moreover have "0 < length (e # es)" "f ((e # es) ! 0)" using 2 by simp_all
    ultimately show ?thesis using 2(1) by blast
  next
    case 3
    with IH consider "t = None" "\<forall>e \<in> set es. \<not> f e"
      | k where "k < length es" "t = Some (Suc i + k)" "f (es ! k)" by auto
    then show ?thesis
    proof cases
      case 1
      with IH step(1) 3 show ?thesis by auto
    next
      case 2
      then have "Suc k < length (e # es)" "t = Some (i + Suc k)" "f ((e # es) ! Suc k)" by simp_all
      moreover have "\<forall>e \<in> set (e # es). \<not> m e" using IH step(1) by simp
      ultimately show ?thesis using 3(1) by blast
    qed
  qed
qed

lemma slot_scan_Hit:
  "slot_scan m f 0 None es = Hit j \<Longrightarrow> j < length es \<and> m (es ! j)"
  using slot_scan_Hit_gen [of m f 0 None es j] by auto

lemma slot_scan_Miss:
  assumes "slot_scan m f 0 None es = Miss t"
  shows "\<forall>e \<in> set es. \<not> m e"
    and "t = None \<Longrightarrow> \<forall>e \<in> set es. \<not> f e"
    and "t = Some j \<Longrightarrow> j < length es \<and> f (es ! j)"
  using slot_scan_Miss_gen [OF assms] by auto

lemma slot_scan_known: "\<exists>e \<in> set es. m e \<Longrightarrow> \<exists>j. slot_scan m f i s es = Hit j"
  by (induction es arbitrary: i s) auto

subsection \<open>Slots as a map\<close>

definition slots_wf :: "('e \<Rightarrow> bool) \<Rightarrow> ('e \<Rightarrow> 'k) \<Rightarrow> 'e list \<Rightarrow> bool" where
  "slots_wf used key es \<longleftrightarrow>
     (\<forall>i < length es. \<forall>j < length es.
        used (es ! i) \<longrightarrow> used (es ! j) \<longrightarrow> key (es ! i) = key (es ! j) \<longrightarrow> i = j)"

definition slot_lookup ::
  "('e \<Rightarrow> bool) \<Rightarrow> ('e \<Rightarrow> 'k) \<Rightarrow> ('e \<Rightarrow> 'v) \<Rightarrow> 'e list \<Rightarrow> 'k \<Rightarrow> 'v option"
where
  "slot_lookup used key val es k = map_option val (find (\<lambda>e. used e \<and> key e = k) es)"

definition slots_free :: "('e \<Rightarrow> bool) \<Rightarrow> 'e list \<Rightarrow> nat" where
  "slots_free used es = length (filter (\<lambda>e. \<not> used e) es)"

lemma slots_wfD:
  assumes "slots_wf used key es" "used (es ! i)" "used (es ! j)" "key (es ! i) = key (es ! j)"
    "i < length es" "j < length es"
  shows "i = j"
  using assms unfolding slots_wf_def by blast

lemma slot_lookup_None:
  "slot_lookup used key val es k = None \<longleftrightarrow> (\<forall>e \<in> set es. used e \<longrightarrow> key e \<noteq> k)"
  by (auto simp: slot_lookup_def find_None_iff)

lemma slot_lookup_Some:
  assumes "slots_wf used key es"
  shows "slot_lookup used key val es k = Some v \<longleftrightarrow>
           (\<exists>i < length es. used (es ! i) \<and> key (es ! i) = k \<and> val (es ! i) = v)"
proof
  assume "slot_lookup used key val es k = Some v"
  then show "\<exists>i < length es. used (es ! i) \<and> key (es ! i) = k \<and> val (es ! i) = v"
    by (auto simp: slot_lookup_def find_Some_iff)
next
  assume "\<exists>i < length es. used (es ! i) \<and> key (es ! i) = k \<and> val (es ! i) = v"
  then obtain i where i: "i < length es" "used (es ! i)" "key (es ! i) = k" "val (es ! i) = v"
    by blast
  then have "find (\<lambda>e. used e \<and> key e = k) es \<noteq> None" by (auto simp: find_None_iff)
  then obtain e where e: "find (\<lambda>e. used e \<and> key e = k) es = Some e" by blast
  then obtain j where "j < length es" "used (es ! j)" "key (es ! j) = k" "e = es ! j"
    by (auto simp: find_Some_iff)
  with i slots_wfD [OF assms, of j i] have "e = es ! i" by simp
  with e i show "slot_lookup used key val es k = Some v" by (simp add: slot_lookup_def)
qed

lemma map_ext_Some:
  assumes "\<And>k v. f k = Some v \<longleftrightarrow> g k = Some v"
  shows "f = g"
proof
  fix k
  show "f k = g k"
  proof (cases "f k")
    case None
    then have "\<nexists>v. g k = Some v" using assms [of k] by simp
    then show ?thesis using None by simp
  next
    case (Some v)
    then show ?thesis using assms [of k v] by simp
  qed
qed

lemma slot_update_used:
  assumes wf: "slots_wf used key es" and i: "i < length es" and e: "used e"
    and own: "\<And>j. j < length es \<Longrightarrow> j \<noteq> i \<Longrightarrow> used (es ! j) \<Longrightarrow> key (es ! j) \<noteq> key e"
    and old: "used (es ! i) \<Longrightarrow> key (es ! i) = key e"
  shows "slots_wf used key (es[i := e])"
    and "slot_lookup used key val (es[i := e]) = (slot_lookup used key val es)(key e \<mapsto> val e)"
proof -
  show wf': "slots_wf used key (es[i := e])"
    unfolding slots_wf_def
  proof (intro allI impI)
    fix a b
    assume ab: "a < length (es[i := e])" "b < length (es[i := e])"
      "used (es[i := e] ! a)" "used (es[i := e] ! b)" "key (es[i := e] ! a) = key (es[i := e] ! b)"
    show "a = b"
    proof (cases "a = i \<or> b = i")
      case True
      with ab own [of a] own [of b] i show ?thesis by (auto simp: nth_list_update split: if_splits)
    next
      case False
      with ab slots_wfD [OF wf, of a b] show ?thesis by simp
    qed
  qed
  show "slot_lookup used key val (es[i := e]) = (slot_lookup used key val es)(key e \<mapsto> val e)"
  proof (rule map_ext_Some)
    fix k v
    have "(\<exists>j < length es. used (es[i := e] ! j) \<and> key (es[i := e] ! j) = k \<and> val (es[i := e] ! j) = v)
      \<longleftrightarrow> (if k = key e then v = val e
           else (\<exists>j < length es. used (es ! j) \<and> key (es ! j) = k \<and> val (es ! j) = v))"
    proof (cases "k = key e")
      case True
      with i e own show ?thesis by (auto simp: nth_list_update)
    next
      case False
      have "used (es[i := e] ! j) \<and> key (es[i := e] ! j) = k \<and> val (es[i := e] ! j) = v \<longleftrightarrow>
            used (es ! j) \<and> key (es ! j) = k \<and> val (es ! j) = v" if "j < length es" for j
        using that i False old by (cases "j = i") auto
      with False show ?thesis by auto
    qed
    then show "slot_lookup used key val (es[i := e]) k = Some v \<longleftrightarrow>
        ((slot_lookup used key val es)(key e \<mapsto> val e)) k = Some v"
      using wf wf' by (auto simp: slot_lookup_Some)
  qed
qed

lemma slot_update_unused:
  assumes wf: "slots_wf used key es" and i: "i < length es" "used (es ! i)" and e: "\<not> used e"
  shows "slots_wf used key (es[i := e])"
    and "slot_lookup used key val (es[i := e]) = (slot_lookup used key val es)(key (es ! i) := None)"
proof -
  show wf': "slots_wf used key (es[i := e])"
    unfolding slots_wf_def length_list_update
  proof (intro allI impI)
    fix a b
    assume ab: "a < length es" "b < length es" "used (es[i := e] ! a)" "used (es[i := e] ! b)"
      "key (es[i := e] ! a) = key (es[i := e] ! b)"
    then have "a \<noteq> i" "b \<noteq> i" using e by auto
    with ab slots_wfD [OF wf, of a b] show "a = b" by simp
  qed
  show "slot_lookup used key val (es[i := e]) = (slot_lookup used key val es)(key (es ! i) := None)"
  proof (rule map_ext_Some)
    fix k v
    have "(\<exists>j < length es. used (es[i := e] ! j) \<and> key (es[i := e] ! j) = k \<and> val (es[i := e] ! j) = v)
      \<longleftrightarrow> k \<noteq> key (es ! i) \<and> (\<exists>j < length es. used (es ! j) \<and> key (es ! j) = k \<and> val (es ! j) = v)"
    proof -
      have "used (es[i := e] ! j) \<and> key (es[i := e] ! j) = k \<and> val (es[i := e] ! j) = v \<longleftrightarrow>
            k \<noteq> key (es ! i) \<and> used (es ! j) \<and> key (es ! j) = k \<and> val (es ! j) = v"
        if "j < length es" for j
      proof (cases "j = i")
        case False
        with that i slots_wfD [OF wf, of i j] show ?thesis by auto
      qed (use i e in auto)
      then show ?thesis by blast
    qed
    then show "slot_lookup used key val (es[i := e]) k = Some v \<longleftrightarrow>
        ((slot_lookup used key val es)(key (es ! i) := None)) k = Some v"
      using wf wf' by (auto simp: slot_lookup_Some)
  qed
qed

lemma slot_map_filter:
  assumes wf: "slots_wf used key es"
    and g: "\<And>e. used e \<Longrightarrow> used (g e) = P (key e) \<and> key (g e) = key e \<and> val (g e) = val e"
    and unused: "\<And>e. \<not> used e \<Longrightarrow> \<not> used (g e)"
  shows "slots_wf used key (map g es)"
    and "slot_lookup used key val (map g es) = slot_lookup used key val es |` {k. P k}"
proof -
  have used: "used (g e) \<longleftrightarrow> used e \<and> P (key e)" for e using g unused by blast
  show wf': "slots_wf used key (map g es)"
    unfolding slots_wf_def
  proof (intro allI impI)
    fix a b
    assume ab: "a < length (map g es)" "b < length (map g es)" "used (map g es ! a)"
      "used (map g es ! b)" "key (map g es ! a) = key (map g es ! b)"
    then have "used (es ! a)" "used (es ! b)" "key (es ! a) = key (es ! b)"
      using used g by simp_all
    with ab slots_wfD [OF wf, of a b] show "a = b" by simp
  qed
  show "slot_lookup used key val (map g es) = slot_lookup used key val es |` {k. P k}"
  proof (rule map_ext_Some)
    fix k v
    have "(\<exists>j < length es. used (g (es ! j)) \<and> key (g (es ! j)) = k \<and> val (g (es ! j)) = v)
      \<longleftrightarrow> P k \<and> (\<exists>j < length es. used (es ! j) \<and> key (es ! j) = k \<and> val (es ! j) = v)"
    proof -
      have "used (g e) \<and> key (g e) = k \<and> val (g e) = v \<longleftrightarrow>
            P k \<and> used e \<and> key e = k \<and> val e = v" for e
        using used [of e] g [of e] by auto
      then show ?thesis by blast
    qed
    then show "slot_lookup used key val (map g es) k = Some v \<longleftrightarrow>
        (slot_lookup used key val es |` {k. P k}) k = Some v"
      using wf wf' by (auto simp: slot_lookup_Some restrict_map_def)
  qed
qed

lemma slot_lookup_dom:
  "dom (slot_lookup used key val es) = key ` {e \<in> set es. used e}"
proof (intro set_eqI)
  fix k
  have "k \<in> dom (slot_lookup used key val es) \<longleftrightarrow> slot_lookup used key val es k \<noteq> None"
    by (rule domIff)
  then show "k \<in> dom (slot_lookup used key val es) \<longleftrightarrow> k \<in> key ` {e \<in> set es. used e}"
    unfolding slot_lookup_None by auto
qed

lemma slots_wf_card:
  assumes "slots_wf used key es"
  shows "card (dom (slot_lookup used key val es)) + slots_free used es = length es"
proof -
  let ?I = "{i. i < length es \<and> used (es ! i)}"
  have dom: "dom (slot_lookup used key val es) = (\<lambda>i. key (es ! i)) ` ?I"
    by (auto simp: slot_lookup_dom in_set_conv_nth)
  have "inj_on (\<lambda>i. key (es ! i)) ?I"
    by (rule inj_onI) (use slots_wfD [OF assms] in auto)
  then have "card (dom (slot_lookup used key val es)) = length (filter used es)"
    by (simp add: dom card_image length_filter_conv_card)
  then show ?thesis
    using sum_length_filter_compl [of used es] by (simp add: slots_free_def)
qed

lemma slots_wf_count:
  assumes "slots_wf used key es"
  shows "length (filter (\<lambda>e. used e \<and> key e = k) es)
         = (if slot_lookup used key val es k = None then 0 else 1)"
proof (cases "slot_lookup used key val es k")
  case None
  then show ?thesis by (auto simp: slot_lookup_None filter_empty_conv)
next
  case (Some v)
  then obtain i where i: "i < length es" "used (es ! i)" "key (es ! i) = k"
    using slot_lookup_Some [OF assms, of val k v] by auto
  have "j = i" if "j < length es" "used (es ! j)" "key (es ! j) = k" for j
    by (rule slots_wfD [OF assms]) (use that i in simp_all)
  with i have "{j. j < length es \<and> used (es ! j) \<and> key (es ! j) = k} = {i}" by blast
  then show ?thesis using Some by (simp add: length_filter_conv_card)
qed

lemma slots_free_0: "slots_free used es = 0 \<longleftrightarrow> (\<forall>e \<in> set es. used e)"
  by (auto simp: slots_free_def filter_empty_conv)

lemma slots_free_replicate: "\<not> used e \<Longrightarrow> slots_free used (replicate n e) = n"
  by (simp add: slots_free_def)

lemma slots_wf_unused: "(\<And>e. e \<in> set es \<Longrightarrow> \<not> used e) \<Longrightarrow> slots_wf used key es"
  by (auto simp: slots_wf_def)

subsection \<open>Writing through the search loop\<close>

text \<open>The shape of the daemon's tables: a known key has its slot rewritten, a new one takes the first
  free slot, a full table is left alone.\<close>

definition slot_put ::
  "('e \<Rightarrow> bool) \<Rightarrow> ('e \<Rightarrow> 'k) \<Rightarrow> ('e \<Rightarrow> 'e) \<Rightarrow> ('e \<Rightarrow> 'e) \<Rightarrow> 'k \<Rightarrow> 'e list \<Rightarrow> 'e list"
where
  "slot_put used key upd fresh k es =
     (case slot_scan (\<lambda>e. used e \<and> key e = k) (\<lambda>e. \<not> used e) 0 None es of
        Hit i \<Rightarrow> es[i := upd (es ! i)]
      | Miss None \<Rightarrow> es
      | Miss (Some i) \<Rightarrow> es[i := fresh (es ! i)])"

lemma length_slot_put [simp]: "length (slot_put used key upd fresh k es) = length es"
  by (simp add: slot_put_def split: slot_hit.split option.split)

lemma slot_put_cases:
  assumes wf: "slots_wf used key es"
    and upd: "\<And>e. used e \<Longrightarrow> key e = k \<Longrightarrow> used (upd e) \<and> key (upd e) = k \<and> val (upd e) = v"
    and fresh: "\<And>e. \<not> used e \<Longrightarrow> used (fresh e) \<and> key (fresh e) = k \<and> val (fresh e) = v"
  shows "slots_wf used key (slot_put used key upd fresh k es)"
    and "slot_lookup used key val es k \<noteq> None \<or> 0 < slots_free used es \<Longrightarrow>
           slot_lookup used key val (slot_put used key upd fresh k es) = (slot_lookup used key val es)(k \<mapsto> v)"
    and "slot_lookup used key val es k = None \<Longrightarrow> slots_free used es = 0 \<Longrightarrow>
           slot_put used key upd fresh k es = es"
proof -
  let ?scan = "slot_scan (\<lambda>e. used e \<and> key e = k) (\<lambda>e. \<not> used e) 0 None es"
  have "slots_wf used key (slot_put used key upd fresh k es) \<and>
    (slot_lookup used key val es k \<noteq> None \<or> 0 < slots_free used es \<longrightarrow>
       slot_lookup used key val (slot_put used key upd fresh k es) = (slot_lookup used key val es)(k \<mapsto> v)) \<and>
    (slot_lookup used key val es k = None \<longrightarrow> slots_free used es = 0 \<longrightarrow>
       slot_put used key upd fresh k es = es)"
  proof (cases ?scan)
    case (Hit i)
    then have i: "i < length es" "used (es ! i)" "key (es ! i) = k" by (auto dest: slot_scan_Hit)
    then have e: "used (upd (es ! i))" "key (upd (es ! i)) = k" "val (upd (es ! i)) = v" using upd by auto
    have own: "key (es ! j) \<noteq> key (upd (es ! i))" if "j < length es" "j \<noteq> i" "used (es ! j)" for j
      using slots_wfD [OF wf, of j i] that i e by auto
    have "slot_lookup used key val es k \<noteq> None"
      unfolding slot_lookup_None using i nth_mem [OF i(1)] by blast
    then obtain w where some: "slot_lookup used key val es k = Some w" by blast
    have put: "slot_put used key upd fresh k es = es[i := upd (es ! i)]" using Hit by (simp add: slot_put_def)
    show ?thesis
      unfolding put
      using slot_update_used(1) [OF wf i(1) e(1) own] slot_update_used(2) [OF wf i(1) e(1) own, where val = val]
        some i e by simp
  next
    case (Miss t)
    note miss = slot_scan_Miss [OF Miss]
    have none: "slot_lookup used key val es k = None" using miss(1) by (auto simp: slot_lookup_None)
    show ?thesis
    proof (cases t)
      case None
      then have "slots_free used es = 0" using miss(2) by (auto simp: slots_free_0)
      with none Miss None wf show ?thesis by (simp add: slot_put_def)
    next
      case (Some i)
      then have i: "i < length es" "\<not> used (es ! i)" using miss(3) by auto
      then have e: "used (fresh (es ! i))" "key (fresh (es ! i)) = k" "val (fresh (es ! i)) = v" using fresh by auto
      have own: "key (es ! j) \<noteq> key (fresh (es ! i))" if "j < length es" "j \<noteq> i" "used (es ! j)" for j
        using miss(1) that e by auto
      have free: "slots_free used es \<noteq> 0"
        unfolding slots_free_0 using i nth_mem [OF i(1)] by blast
      have put: "slot_put used key upd fresh k es = es[i := fresh (es ! i)]"
        using Miss Some by (simp add: slot_put_def)
      show ?thesis
        unfolding put
        using slot_update_used(1) [OF wf i(1) e(1) own] slot_update_used(2) [OF wf i(1) e(1) own, where val = val]
          free i e none by simp
    qed
  qed
  then show "slots_wf used key (slot_put used key upd fresh k es)"
    "slot_lookup used key val es k \<noteq> None \<or> 0 < slots_free used es \<Longrightarrow>
       slot_lookup used key val (slot_put used key upd fresh k es) = (slot_lookup used key val es)(k \<mapsto> v)"
    "slot_lookup used key val es k = None \<Longrightarrow> slots_free used es = 0 \<Longrightarrow>
       slot_put used key upd fresh k es = es" by blast+
qed

subsection \<open>The contract of a slot table\<close>

text \<open>\<open>put\<close> records a value for a key: it overwrites the value of a key that is present, takes a
  free slot for a new key, and does nothing when the table is full.\<close>

locale slot_map =
  fixes lookup :: "'s \<Rightarrow> 'k \<Rightarrow> 'v option"
    and put :: "'k \<Rightarrow> 'v \<Rightarrow> 's \<Rightarrow> 's"
    and free :: "'s \<Rightarrow> nat"
    and valid :: "'k \<Rightarrow> bool"
    and invar :: "'s \<Rightarrow> bool"
    and cap :: nat
  assumes invar_put: "invar s \<Longrightarrow> valid k \<Longrightarrow> invar (put k v s)"
    and lookup_put: "invar s \<Longrightarrow> valid k \<Longrightarrow> lookup s k \<noteq> None \<or> free s > 0 \<Longrightarrow>
          lookup (put k v s) = (lookup s)(k \<mapsto> v)"
    and put_full: "invar s \<Longrightarrow> valid k \<Longrightarrow> lookup s k = None \<Longrightarrow> free s = 0 \<Longrightarrow> put k v s = s"
    and card_free: "invar s \<Longrightarrow> finite (dom (lookup s)) \<and> card (dom (lookup s)) + free s = cap"
begin

lemma card_le_cap: "invar s \<Longrightarrow> card (dom (lookup s)) \<le> cap"
  using card_free [of s] by linarith

lemma lookup_put_other:
  assumes "invar s" "valid k" "j \<noteq> k"
  shows "lookup (put k v s) j = lookup s j"
  using assms lookup_put [of s k v] put_full [of s k v] by (cases "lookup s k \<noteq> None \<or> free s > 0") auto

lemma room_for_new:
  assumes "invar s" "card (insert k (dom (lookup s))) \<le> cap"
  shows "lookup s k \<noteq> None \<or> free s > 0"
proof (rule ccontr)
  assume "\<not> ?thesis"
  then have "k \<notin> dom (lookup s)" "free s = 0" by auto
  with assms card_free [of s] show False by simp
qed

text \<open>As long as the keys fit, a sequence of writes records every one of them, the last write to a
  key winning.\<close>

lemma fold_put:
  assumes "invar s" "\<forall>(k, v) \<in> set kvs. valid k"
    "card (dom (lookup s) \<union> fst ` set kvs) \<le> cap"
  shows "invar (fold (\<lambda>(k, v). put k v) kvs s) \<and>
         lookup (fold (\<lambda>(k, v). put k v) kvs s) = lookup s ++ map_of (rev kvs)"
  using assms
proof (induction kvs arbitrary: s)
  case Nil
  then show ?case by simp
next
  case (Cons kv kvs)
  obtain k v where kv: "kv = (k, v)" by fastforce
  have fin: "finite (dom (lookup s))" using card_free [OF Cons.prems(1)] by blast
  have "card (insert k (dom (lookup s))) \<le> card (dom (lookup s) \<union> fst ` set (kv # kvs))"
    by (rule card_mono) (use fin kv in auto)
  then have room: "lookup s k \<noteq> None \<or> free s > 0"
    using room_for_new [OF Cons.prems(1), of k] Cons.prems(3) by linarith
  have "valid k" using Cons.prems(2) kv by simp
  note upd = lookup_put [OF Cons.prems(1) this room, of v] invar_put [OF Cons.prems(1) this, of v]
  have "dom (lookup (put k v s)) \<union> fst ` set kvs = dom (lookup s) \<union> fst ` set (kv # kvs)"
    using upd(1) kv by auto
  then have "invar (fold (\<lambda>(k, v). put k v) kvs (put k v s)) \<and>
      lookup (fold (\<lambda>(k, v). put k v) kvs (put k v s)) = lookup (put k v s) ++ map_of (rev kvs)"
    using Cons.prems by (intro Cons.IH upd(2)) auto
  then show ?case using kv upd(1) by simp
qed

end

locale slot_map_delete = slot_map +
  fixes del :: "'b \<Rightarrow> 'a \<Rightarrow> 'a"
  assumes invar_del: "invar s \<Longrightarrow> valid k \<Longrightarrow> invar (del k s)"
    and lookup_del: "invar s \<Longrightarrow> valid k \<Longrightarrow> lookup (del k s) = (lookup s)(k := None)"
begin

lemma free_del:
  assumes "invar s" "valid k" "lookup s k \<noteq> None"
  shows "free (del k s) = Suc (free s)"
proof -
  have "dom (lookup (del k s)) = dom (lookup s) - {k}"
    using lookup_del [OF assms(1,2)] by (simp add: dom_fun_upd)
  moreover have "k \<in> dom (lookup s)" using assms(3) by blast
  ultimately have "Suc (card (dom (lookup (del k s)))) = card (dom (lookup s))"
    using card_free [OF assms(1)] by (metis card_Suc_Diff1)
  then show ?thesis
    using card_free [OF assms(1)] card_free [OF invar_del [OF assms(1,2)]] by linarith
qed

lemma put_after_del:
  assumes "invar s" "valid k" "valid j" "lookup s k \<noteq> None"
  shows "lookup (put j v (del k s)) = (lookup s)(k := None, j \<mapsto> v)"
  using assms free_del [OF assms(1,2,4)] lookup_put [of "del k s" j v]
  by (simp add: invar_del lookup_del)

end

text \<open>The daemon's tables forget the keys that are not in the current list of protected
  processes at the start of every cycle.\<close>

locale slot_map_retain = slot_map +
  fixes retain :: "'r \<Rightarrow> 'a \<Rightarrow> 'a"
    and keys :: "'r \<Rightarrow> 'b list"
  assumes invar_retain: "invar s \<Longrightarrow> invar (retain r s)"
    and lookup_retain: "invar s \<Longrightarrow> lookup (retain r s) = lookup s |` set (keys r)"
begin

text \<open>One cycle over a list of keys that fits the table: what was tracked of the listed keys is
  kept unless it is written again, every written key is tracked, everything else is gone.\<close>

lemma cycle:
  assumes "invar s" "\<forall>k \<in> set (keys r). valid k" "length (keys r) \<le> cap" "fst ` set kvs \<subseteq> set (keys r)"
  shows "invar (fold (\<lambda>(k, v). put k v) kvs (retain r s)) \<and>
         lookup (fold (\<lambda>(k, v). put k v) kvs (retain r s))
           = (lookup s |` set (keys r)) ++ map_of (rev kvs)"
proof -
  have "card (dom (lookup (retain r s)) \<union> fst ` set kvs) \<le> card (set (keys r))"
    by (rule card_mono) (use assms(4) lookup_retain [OF assms(1), of r] in auto)
  also have "\<dots> \<le> cap" using card_length [of "keys r"] assms(3) by linarith
  finally show ?thesis
    using fold_put [OF invar_retain [OF assms(1)], of kvs r] assms(2,4)
    by (force simp: lookup_retain [OF assms(1)])
qed

end

end
