(* ===== verification/Event_Queue_Spec.thy ===== *)
theory Event_Queue_Spec
  imports AC_Prelude "HOL-Library.Sublist"
begin

text \<open>
  The contract of a bounded event queue that overwrites its oldest entry when it is full and
  counts what it lost. The kernel module's ring buffer implements it (theory Event_Ring); the
  facts about whole runs are proved here once, from the contract alone.
\<close>

datatype 'e qop = Emit 'e | Drain | Flush

fun qrun ::
  "('e \<Rightarrow> 's \<Rightarrow> 's) \<Rightarrow> ('s \<Rightarrow> 'e list \<times> 's) \<Rightarrow> ('s \<Rightarrow> 's) \<Rightarrow> 'e qop list \<Rightarrow> 's \<Rightarrow> 'e list \<times> 's"
where
  "qrun em dr fl [] s = ([], s)"
| "qrun em dr fl (Emit e # ops) s = qrun em dr fl ops (em e s)"
| "qrun em dr fl (Drain # ops) s =
     (let (out, s1) = dr s; (outs, s2) = qrun em dr fl ops s1 in (out @ outs, s2))"
| "qrun em dr fl (Flush # ops) s = qrun em dr fl ops (fl s)"

fun emitted :: "'e qop list \<Rightarrow> 'e list" where
  "emitted [] = []"
| "emitted (Emit e # ops) = e # emitted ops"
| "emitted (_ # ops) = emitted ops"

lemma emitted_map_Emit [simp]: "emitted (map Emit es) = es"
  by (induction es) auto

locale lossy_queue =
  fixes pending :: "'s \<Rightarrow> 'e list"
    and dropped :: "'s \<Rightarrow> u32"
    and emit :: "'e \<Rightarrow> 's \<Rightarrow> 's"
    and drain :: "'s \<Rightarrow> 'e list \<times> 's"
    and flush :: "'s \<Rightarrow> 's"
    and invar :: "'s \<Rightarrow> bool"
    and cap :: nat
    and batch :: nat
  assumes cap_pos: "0 < cap"
    and invar_emit: "invar s \<Longrightarrow> invar (emit e s)"
    and invar_drain: "invar s \<Longrightarrow> invar (snd (drain s))"
    and invar_flush: "invar s \<Longrightarrow> invar (flush s)"
    and pending_bound: "invar s \<Longrightarrow> length (pending s) \<le> cap"
    and pending_emit: "invar s \<Longrightarrow>
          pending (emit e s) =
            (if length (pending s) < cap then pending s else tl (pending s)) @ [e]"
    and dropped_emit: "invar s \<Longrightarrow>
          dropped (emit e s) = (if length (pending s) < cap then dropped s else dropped s + 1)"
    and drain_out: "invar s \<Longrightarrow> fst (drain s) = take batch (pending s)"
    and pending_drain: "invar s \<Longrightarrow> pending (snd (drain s)) = drop batch (pending s)"
    and dropped_drain: "invar s \<Longrightarrow> dropped (snd (drain s)) = dropped s"
    and pending_flush: "invar s \<Longrightarrow> pending (flush s) = []"
    and dropped_flush: "invar s \<Longrightarrow> dropped (flush s) = dropped s"
begin

lemma qrun_invar:
  "invar s \<Longrightarrow> invar (snd (qrun emit drain flush ops s))"
proof (induction ops arbitrary: s)
  case (Cons a ops)
  then show ?case
    using invar_drain [of s]
    by (cases a) (auto simp: invar_emit invar_flush split: prod.splits, metis snd_conv)
qed simp

lemma drain_split:
  assumes "invar s" "qrun emit drain flush (Drain # ops) s = (outs, s')"
  obtains outs1 s1 where "qrun emit drain flush ops s1 = (outs1, s')" "invar s1"
    "outs = take batch (pending s) @ outs1" "pending s1 = drop batch (pending s)"
    "dropped s1 = dropped s"
proof -
  obtain out s1 where d: "drain s = (out, s1)" by fastforce
  obtain outs1 where "qrun emit drain flush ops s1 = (outs1, s')" "outs = out @ outs1"
    using assms(2) d by (auto split: prod.splits)
  then show ?thesis
    using d assms(1) drain_out [of s] pending_drain [of s] invar_drain [of s] dropped_drain [of s]
    by (intro that [of s1 outs1]) auto
qed

lemma subseq_emit:
  assumes "invar s"
  shows "subseq (pending (emit e s)) (pending s @ [e])"
  using assms by (cases "pending s") (auto simp: pending_emit intro: list_emb_append_mono)

text \<open>What consumers see, in order, followed by what is still queued, is a subsequence of what
  was queued and emitted: no event is duplicated, invented or reordered.\<close>

lemma qrun_order:
  assumes "invar s" "qrun emit drain flush ops s = (outs, s')"
  shows "subseq (outs @ pending s') (pending s @ emitted ops)"
  using assms
proof (induction ops arbitrary: s outs)
  case Nil
  then show ?case by simp
next
  case (Cons a ops)
  show ?case
  proof (cases a)
    case (Emit e)
    with Cons have "subseq (outs @ pending s') (pending (emit e s) @ emitted ops)"
      by (simp add: invar_emit)
    moreover have "subseq (pending (emit e s) @ emitted ops) ((pending s @ [e]) @ emitted ops)"
      by (rule list_emb_append_mono) (use Cons subseq_emit in auto)
    ultimately have "subseq (outs @ pending s') ((pending s @ [e]) @ emitted ops)"
      by (rule subseq_order.trans)
    with Emit show ?thesis by simp
  next
    case Drain
    with Cons.prems obtain outs1 s1 where r: "qrun emit drain flush ops s1 = (outs1, s')"
        "invar s1" "outs = take batch (pending s) @ outs1" "pending s1 = drop batch (pending s)"
      by (blast elim: drain_split)
    have "subseq (outs1 @ pending s') (drop batch (pending s) @ emitted ops)"
      using Cons.IH [OF r(2,1)] r(4) by simp
    then have "subseq (take batch (pending s) @ outs1 @ pending s')
        (take batch (pending s) @ drop batch (pending s) @ emitted ops)"
      by (rule list_emb_append_mono [OF subseq_order.order_refl])
    with Drain r(3) show ?thesis by (simp flip: append_assoc)
  next
    case Flush
    with Cons have "subseq (outs @ pending s') (emitted ops)"
      by (metis append_Nil invar_flush pending_flush qrun.simps(4))
    with Flush show ?thesis by (simp add: list_emb_append2)
  qed
qed

text \<open>Without a flush, every event is delivered, still queued, or counted as dropped.\<close>

lemma qrun_conservation:
  assumes "invar s" "qrun emit drain flush ops s = (outs, s')" "Flush \<notin> set ops"
  shows "\<exists>lost. length (pending s) + length (emitted ops)
                  = length outs + length (pending s') + lost
              \<and> dropped s' = dropped s + of_nat lost"
  using assms
proof (induction ops arbitrary: s outs)
  case Nil
  then show ?case by simp
next
  case (Cons a ops)
  show ?case
  proof (cases a)
    case (Emit e)
    obtain lost where IH:
        "length (pending (emit e s)) + length (emitted ops)
           = length outs + length (pending s') + lost"
        "dropped s' = dropped (emit e s) + of_nat lost"
      using Cons.IH [of "emit e s" outs] Cons.prems Emit by (auto simp: invar_emit)
    show ?thesis
    proof (cases "length (pending s) < cap")
      case True
      with IH Cons.prems Emit show ?thesis
        by (intro exI [of _ lost]) (simp add: pending_emit dropped_emit)
    next
      case False
      then have "pending s \<noteq> []" using cap_pos by auto
      with False IH Cons.prems Emit show ?thesis
        by (intro exI [of _ "Suc lost"]) (cases "pending s"; simp add: pending_emit dropped_emit)
    qed
  next
    case Drain
    with Cons.prems obtain outs1 s1 where r: "qrun emit drain flush ops s1 = (outs1, s')"
        "invar s1" "outs = take batch (pending s) @ outs1" "pending s1 = drop batch (pending s)"
        "dropped s1 = dropped s"
      by (blast elim: drain_split)
    obtain lost where "length (pending s1) + length (emitted ops)
          = length outs1 + length (pending s') + lost" "dropped s' = dropped s1 + of_nat lost"
      using Cons.IH [OF r(2,1)] Cons.prems(3) by auto
    with Drain r show ?thesis by (intro exI [of _ lost]) auto
  next
    case Flush
    with Cons.prems show ?thesis by simp
  qed
qed

text \<open>Emitting without a consumer keeps exactly the most recent \<open>cap\<close> events.\<close>

lemma qrun_keeps_latest:
  assumes "invar s"
  shows "pending (snd (qrun emit drain flush (map Emit es) s))
         = drop (length (pending s) + length es - cap) (pending s @ es)"
  using assms
proof (induction es arbitrary: s)
  case Nil
  then show ?case using pending_bound [of s] by simp
next
  case (Cons e es)
  have IH: "pending (snd (qrun emit drain flush (map Emit es) (emit e s)))
      = drop (length (pending (emit e s)) + length es - cap) (pending (emit e s) @ es)"
    using Cons by (simp add: invar_emit)
  show ?case
  proof (cases "length (pending s) < cap")
    case True
    with IH Cons.prems show ?thesis by (simp add: pending_emit)
  next
    case False
    then have len: "length (pending s) = cap"
      using pending_bound [OF Cons.prems] by simp
    then obtain x xs where p: "pending s = x # xs" using cap_pos by (cases "pending s") auto
    have "pending (emit e s) @ es = xs @ e # es" "length (pending (emit e s)) = cap"
      using False len p Cons.prems by (simp_all add: pending_emit)
    with IH len p show ?thesis by simp
  qed
qed

end

end
