(* ===== verification/Event_Ring.thy ===== *)
theory Event_Ring
  imports Event_Queue_Spec
begin

text \<open>
  The event ring buffer of the kernel module (\<open>ac_ring\<close>, \<open>ac_emit\<close>, \<open>ac_drain_events\<close> in
  src/src/anticheat_module.c) and its refinement of the bounded queue contract.

  Each operation of the source runs under \<open>ac_ring_lock\<close>, so one operation is one step here. The
  clock (\<open>ktime_get_real_fast_ns\<close>) is an argument. The formatted message of an event is passed
  as the text the format string produces; \<open>vsnprintf\<close> truncates it to \<open>ev->data\<close>.
\<close>

subsection \<open>Events\<close>

definition AC_MAX_COMM :: nat where [ac_consts]: "AC_MAX_COMM = 16"
definition AC_EVENT_DATA :: nat where [ac_consts]: "AC_EVENT_DATA = 128"
definition AC_MAX_EVENTS :: nat where [ac_consts]: "AC_MAX_EVENTS = 64"
definition AC_RING_SIZE :: nat where [ac_consts]: "AC_RING_SIZE = 256"

datatype ac_ev_type =
  AC_EV_FORK | AC_EV_EXEC | AC_EV_EXIT | AC_EV_PTRACE | AC_EV_SYSCALL_HOOK | AC_EV_RWX
| AC_EV_ANON_EXEC | AC_EV_INFO

fun ev_type_num :: "ac_ev_type \<Rightarrow> u32" where
  "ev_type_num AC_EV_FORK = 1"
| "ev_type_num AC_EV_EXEC = 2"
| "ev_type_num AC_EV_EXIT = 3"
| "ev_type_num AC_EV_PTRACE = 4"
| "ev_type_num AC_EV_SYSCALL_HOOK = 5"
| "ev_type_num AC_EV_RWX = 6"
| "ev_type_num AC_EV_ANON_EXEC = 7"
| "ev_type_num AC_EV_INFO = 8"

record ac_event =
  ev_ts :: u64
  ev_pid :: int
  ev_comm :: string
  ev_type :: u32
  ev_data :: string

definition zero_event :: ac_event where
  "zero_event = \<lparr>ev_ts = 0, ev_pid = 0, ev_comm = [], ev_type = 0, ev_data = []\<rparr>"

text \<open>The event one call of \<open>ac_emit\<close> writes; a NULL \<open>comm\<close> is \<^term>\<open>None\<close>.\<close>

definition make_event :: "u64 \<Rightarrow> ac_ev_type \<Rightarrow> int \<Rightarrow> string option \<Rightarrow> string \<Rightarrow> ac_event" where
  "make_event now type pid comm data =
     \<lparr>ev_ts = now, ev_pid = pid,
      ev_comm = strscpy AC_MAX_COMM (case comm of Some c \<Rightarrow> c | None \<Rightarrow> ''?''),
      ev_type = ev_type_num type,
      ev_data = snprintf AC_EVENT_DATA data\<rparr>"

subsection \<open>The ring\<close>

record ac_ring_state =
  ac_ring :: "ac_event list"
  ac_ring_head :: nat
  ac_ring_tail :: nat
  ac_ring_count :: nat
  ac_dropped :: u32

definition ring_init :: ac_ring_state where
  "ring_init = \<lparr>ac_ring = replicate AC_RING_SIZE zero_event, ac_ring_head = 0, ac_ring_tail = 0,
                ac_ring_count = 0, ac_dropped = 0\<rparr>"

definition ring_push :: "ac_event \<Rightarrow> ac_ring_state \<Rightarrow> ac_ring_state" where
  "ring_push ev r =
     (let r1 = (if ac_ring_count r \<ge> AC_RING_SIZE
                then r\<lparr>ac_ring_tail := (ac_ring_tail r + 1) mod AC_RING_SIZE,
                       ac_ring_count := ac_ring_count r - 1,
                       ac_dropped := ac_dropped r + 1\<rparr>
                else r)
      in r1\<lparr>ac_ring := (ac_ring r1)[ac_ring_head r1 := ev],
            ac_ring_head := (ac_ring_head r1 + 1) mod AC_RING_SIZE,
            ac_ring_count := ac_ring_count r1 + 1\<rparr>)"

definition ac_emit ::
  "u64 \<Rightarrow> ac_ev_type \<Rightarrow> int \<Rightarrow> string option \<Rightarrow> string \<Rightarrow> ac_ring_state \<Rightarrow> ac_ring_state"
where
  "ac_emit now type pid comm data r = ring_push (make_event now type pid comm data) r"

text \<open>The reply buffer of \<open>AC_IOCTL_GET_EVENTS\<close>: the whole array of 64 events is copied out, not
  only the first \<open>count\<close>.\<close>

record ac_event_list =
  el_count :: nat
  el_dropped :: u32
  el_events :: "ac_event list"

definition kzalloc_event_list :: ac_event_list where
  "kzalloc_event_list =
     \<lparr>el_count = 0, el_dropped = 0, el_events = replicate AC_MAX_EVENTS zero_event\<rparr>"

text \<open>The loop of \<open>ac_drain_events\<close>; the output pointer is \<^term>\<open>None\<close> when it is NULL.\<close>

function drain_loop ::
  "ac_event_list option \<Rightarrow> ac_ring_state \<Rightarrow> ac_event_list option \<times> ac_ring_state"
where
  "drain_loop out r =
     (if ac_ring_count r > 0 \<and> (case out of None \<Rightarrow> True | Some el \<Rightarrow> el_count el < AC_MAX_EVENTS)
      then drain_loop
             (map_option (\<lambda>el. el\<lparr>el_events := (el_events el)[el_count el := ac_ring r ! ac_ring_tail r],
                                  el_count := el_count el + 1\<rparr>) out)
             (r\<lparr>ac_ring_tail := (ac_ring_tail r + 1) mod AC_RING_SIZE,
                ac_ring_count := ac_ring_count r - 1\<rparr>)
      else (out, r))"
  by pat_completeness auto
termination
  by (relation "measure (\<lambda>(out, r). ac_ring_count r)") auto

declare drain_loop.simps [simp del]

definition ac_drain_events ::
  "ac_event_list option \<Rightarrow> ac_ring_state \<Rightarrow> ac_event_list option \<times> ac_ring_state"
where
  "ac_drain_events out r =
     drain_loop (map_option (\<lambda>el. el\<lparr>el_dropped := ac_dropped r, el_count := 0\<rparr>) out) r"

subsection \<open>Invariant and abstraction\<close>

definition ring_ok :: "ac_ring_state \<Rightarrow> bool" where
  "ring_ok r \<longleftrightarrow>
     length (ac_ring r) = AC_RING_SIZE \<and> ac_ring_tail r < AC_RING_SIZE \<and>
     ac_ring_count r \<le> AC_RING_SIZE \<and>
     ac_ring_head r = (ac_ring_tail r + ac_ring_count r) mod AC_RING_SIZE"

definition ring_pending :: "ac_ring_state \<Rightarrow> ac_event list" where
  "ring_pending r =
     map (\<lambda>i. ac_ring r ! ((ac_ring_tail r + i) mod AC_RING_SIZE)) [0..<ac_ring_count r]"

lemma ring_init_ok [simp]: "ring_ok ring_init"
  by (simp add: ring_ok_def ring_init_def AC_RING_SIZE_def)

lemma ring_init_pending [simp]: "ring_pending ring_init = []"
  by (simp add: ring_pending_def ring_init_def)

lemma length_ring_pending [simp]: "length (ring_pending r) = ac_ring_count r"
  by (simp add: ring_pending_def)

lemma AC_RING_SIZE_pos [simp]: "0 < AC_RING_SIZE"
  by (simp add: AC_RING_SIZE_def)

lemma ring_push_ok [ac_inv]:
  assumes "ring_ok r"
  shows "ring_ok (ring_push ev r)"
proof (cases "ac_ring_count r < AC_RING_SIZE")
  case True
  with assms show ?thesis by (simp add: ring_ok_def ring_push_def Let_def mod_Suc_eq)
next
  case False
  with assms have "ac_ring_count r = AC_RING_SIZE" by (simp add: ring_ok_def)
  with assms show ?thesis by (simp add: ring_ok_def ring_push_def Let_def mod_Suc_eq)
qed

lemma ac_emit_ok [ac_inv]: "ring_ok r \<Longrightarrow> ring_ok (ac_emit now ty pid comm data r)"
  by (simp add: ac_emit_def ring_push_ok)

lemma ring_slot_distinct:
  assumes "i < c" "c - i < (n::nat)"
  shows "(t + i) mod n \<noteq> (t + c) mod n"
proof
  assume "(t + i) mod n = (t + c) mod n"
  then have "n dvd (t + c) - (t + i)"
    using assms(1) mod_eq_dvd_iff_nat [of "t + i" "t + c" n] by simp
  then show False using assms by (auto dest: dvd_imp_le)
qed

lemma ring_pending_unfold:
  "ring_pending (r\<lparr>ac_ring_tail := t, ac_ring_count := c\<rparr>)
   = map (\<lambda>i. ac_ring r ! ((t + i) mod AC_RING_SIZE)) [0..<c]"
  by (simp add: ring_pending_def)

lemma ring_pending_pop:
  assumes "0 < ac_ring_count r" "ring_ok r"
  shows "ring_pending r =
           ac_ring r ! ac_ring_tail r #
           ring_pending (r\<lparr>ac_ring_tail := (ac_ring_tail r + 1) mod AC_RING_SIZE,
                           ac_ring_count := ac_ring_count r - 1\<rparr>)"
proof -
  obtain c where c: "ac_ring_count r = Suc c" using assms by (cases "ac_ring_count r") auto
  have "[0..<Suc c] = 0 # map Suc [0..<c]" by (simp add: upt_conv_Cons map_Suc_upt)
  then show ?thesis
    using assms(2)
    by (simp add: ring_pending_unfold) (simp add: ring_pending_def c ring_ok_def mod_simps comp_def)
qed

lemma ring_pending_append:
  assumes "ring_ok r" "ac_ring_count r < AC_RING_SIZE"
  shows "ring_pending (r\<lparr>ac_ring := (ac_ring r)[ac_ring_head r := ev], ac_ring_head := h,
                         ac_ring_count := Suc (ac_ring_count r)\<rparr>) = ring_pending r @ [ev]"
proof -
  have "(ac_ring r)[ac_ring_head r := ev] ! ((ac_ring_tail r + i) mod AC_RING_SIZE)
        = ac_ring r ! ((ac_ring_tail r + i) mod AC_RING_SIZE)"
    if "i < ac_ring_count r" for i
  proof -
    have "(ac_ring_tail r + i) mod AC_RING_SIZE \<noteq> ac_ring_head r"
      using ring_slot_distinct [OF that, of AC_RING_SIZE "ac_ring_tail r"] assms
      by (simp add: ring_ok_def)
    then show ?thesis by simp
  qed
  with assms show ?thesis by (simp add: ring_pending_def ring_ok_def)
qed

lemma ring_drop_oldest_ok:
  assumes "ring_ok r" "0 < ac_ring_count r"
  shows "ring_ok (r\<lparr>ac_ring_tail := (ac_ring_tail r + 1) mod AC_RING_SIZE,
                    ac_ring_count := ac_ring_count r - 1\<rparr>)"
  using assms by (cases "ac_ring_count r") (auto simp: ring_ok_def mod_simps)

lemma ring_push_pending:
  assumes "ring_ok r"
  shows "ring_pending (ring_push ev r) =
           (if ac_ring_count r < AC_RING_SIZE then ring_pending r else tl (ring_pending r)) @ [ev]"
proof (cases "ac_ring_count r < AC_RING_SIZE")
  case True
  with assms show ?thesis by (simp add: ring_push_def ring_pending_append)
next
  case False
  then have c: "0 < ac_ring_count r" using AC_RING_SIZE_pos by linarith
  let ?r = "r\<lparr>ac_ring_tail := (ac_ring_tail r + 1) mod AC_RING_SIZE,
              ac_ring_count := ac_ring_count r - 1\<rparr>"
  let ?d = "?r\<lparr>ac_dropped := ac_dropped r + 1\<rparr>"
  have "ring_ok ?d" using ring_drop_oldest_ok [OF assms c] by (simp add: ring_ok_def)
  moreover have "ac_ring_count ?d < AC_RING_SIZE" using assms c unfolding ring_ok_def by simp linarith
  ultimately have "ring_pending (?d\<lparr>ac_ring := (ac_ring ?d)[ac_ring_head ?d := ev],
       ac_ring_head := (ac_ring_head ?d + 1) mod AC_RING_SIZE,
       ac_ring_count := Suc (ac_ring_count ?d)\<rparr>) = ring_pending ?d @ [ev]"
    by (rule ring_pending_append)
  moreover have "ring_pending ?d = tl (ring_pending r)"
    using ring_pending_pop [OF c assms] by (simp add: ring_pending_def)
  ultimately show ?thesis using False by (simp add: ring_push_def Let_def)
qed

lemma ring_push_dropped:
  "ac_dropped (ring_push ev r) =
     (if ac_ring_count r < AC_RING_SIZE then ac_dropped r else ac_dropped r + 1)"
  by (simp add: ring_push_def Let_def)

subsection \<open>Draining\<close>

lemma drain_loop_stop:
  assumes "ac_ring_count r = 0 \<or> (\<exists>el. out = Some el \<and> AC_MAX_EVENTS \<le> el_count el)"
  shows "drain_loop out r = (out, r)"
  by (subst drain_loop.simps, rule if_not_P) (use assms in auto)

lemma drain_loop_step:
  assumes "0 < ac_ring_count r" "\<And>el. out = Some el \<Longrightarrow> el_count el < AC_MAX_EVENTS"
  shows "drain_loop out r =
           drain_loop
             (map_option (\<lambda>el. el\<lparr>el_events := (el_events el)[el_count el := ac_ring r ! ac_ring_tail r],
                                  el_count := el_count el + 1\<rparr>) out)
             (r\<lparr>ac_ring_tail := (ac_ring_tail r + 1) mod AC_RING_SIZE,
                ac_ring_count := ac_ring_count r - 1\<rparr>)"
  by (subst drain_loop.simps, rule if_P) (use assms in \<open>auto split: option.split\<close>)

lemma drain_loop_None:
  assumes "ring_ok r"
  shows "\<exists>r'. drain_loop None r = (None, r') \<and> ring_ok r' \<and> ac_ring_count r' = 0 \<and>
              ac_dropped r' = ac_dropped r"
  using assms
proof (induction "None :: ac_event_list option" r rule: drain_loop.induct)
  case (1 r)
  show ?case
  proof (cases "ac_ring_count r")
    case 0
    with 1(2) show ?thesis by (simp add: drain_loop_stop)
  next
    case (Suc c)
    with 1 ring_drop_oldest_ok [OF 1(2)] drain_loop_step [of r None] show ?thesis by simp
  qed
qed

definition el_ok :: "ac_event_list \<Rightarrow> bool" where
  "el_ok el \<longleftrightarrow> length (el_events el) = AC_MAX_EVENTS \<and> el_count el \<le> AC_MAX_EVENTS"

definition el_filled :: "ac_event list \<Rightarrow> ac_event_list \<Rightarrow> ac_event_list" where
  "el_filled evs el =
     el\<lparr>el_events := take (el_count el) (el_events el) @ evs @
                     drop (el_count el + length evs) (el_events el),
        el_count := el_count el + length evs\<rparr>"

lemma el_filled_Nil [simp]: "el_filled [] el = el"
  by (simp add: el_filled_def)

lemma el_filled_Cons:
  assumes "el_ok el" "el_count el < AC_MAX_EVENTS"
  shows "el_filled evs (el\<lparr>el_events := (el_events el)[el_count el := e],
                           el_count := el_count el + 1\<rparr>)
         = el_filled (e # evs) el"
  using assms
  by (simp add: el_filled_def el_ok_def take_Suc_conv_app_nth drop_update_cancel)

lemma drain_loop_Some:
  assumes "ring_ok r" "el_ok el"
  shows "\<exists>r'. drain_loop (Some el) r
                = (Some (el_filled (take (AC_MAX_EVENTS - el_count el) (ring_pending r)) el), r') \<and>
              ring_ok r' \<and> ac_dropped r' = ac_dropped r \<and>
              ring_pending r' = drop (AC_MAX_EVENTS - el_count el) (ring_pending r)"
  using assms
proof (induction "Some el" r arbitrary: el rule: drain_loop.induct)
  case (1 r)
  let ?el = "el\<lparr>el_events := (el_events el)[el_count el := ac_ring r ! ac_ring_tail r],
                el_count := el_count el + 1\<rparr>"
  let ?r = "r\<lparr>ac_ring_tail := (ac_ring_tail r + 1) mod AC_RING_SIZE,
              ac_ring_count := ac_ring_count r - 1\<rparr>"
  show ?case
  proof (cases "0 < ac_ring_count r \<and> el_count el < AC_MAX_EVENTS")
    case False
    then have "drain_loop (Some el) r = (Some el, r)" by (intro drain_loop_stop) auto
    moreover have "take (AC_MAX_EVENTS - el_count el) (ring_pending r) = []"
        "drop (AC_MAX_EVENTS - el_count el) (ring_pending r) = ring_pending r"
      using False by (auto simp: ring_pending_def)
    ultimately show ?thesis
      using 1(2) by (intro exI [of _ r]) (simp del: take_eq_Nil take_eq_Nil2)
  next
    case True
    have ok: "ring_ok ?r" "el_ok ?el"
      using True 1(2,3) ring_drop_oldest_ok [of r] by (simp_all add: el_ok_def)
    have cond: "0 < ac_ring_count r \<and>
        (case Some el of None \<Rightarrow> True | Some el \<Rightarrow> el_count el < AC_MAX_EVENTS)"
      using True by simp
    have eq: "Some ?el = map_option (\<lambda>el. el\<lparr>el_events := (el_events el)[el_count el :=
        ac_ring r ! ac_ring_tail r], el_count := el_count el + 1\<rparr>) (Some el)"
      by simp
    obtain r' where IH: "drain_loop (Some ?el) ?r
          = (Some (el_filled (take (AC_MAX_EVENTS - el_count ?el) (ring_pending ?r)) ?el), r')"
        "ring_ok r'" "ac_dropped r' = ac_dropped ?r"
        "ring_pending r' = drop (AC_MAX_EVENTS - el_count ?el) (ring_pending ?r)"
      using 1(1) [OF cond eq [symmetric] ok] by blast
    have step: "drain_loop (Some el) r = drain_loop (Some ?el) ?r"
      using True drain_loop_step [of r "Some el"] by simp
    obtain m where m: "AC_MAX_EVENTS - el_count el = Suc m" "AC_MAX_EVENTS - el_count ?el = m"
      using True by (cases "AC_MAX_EVENTS - el_count el") auto
    have pop: "ring_pending r = ac_ring r ! ac_ring_tail r # ring_pending ?r"
      by (rule ring_pending_pop) (use True 1(2) in auto)
    have "el_filled (take m (ring_pending ?r)) ?el
        = el_filled (take (Suc m) (ring_pending r)) el"
      unfolding pop take_Suc_Cons by (rule el_filled_Cons) (use True 1(3) in auto)
    moreover have "drop m (ring_pending ?r) = drop (Suc m) (ring_pending r)"
      unfolding pop by (rule drop_Suc_Cons [symmetric])
    ultimately show ?thesis
      using IH unfolding step m by (intro exI [of _ r']) simp
  qed
qed

lemma kzalloc_event_list_ok [simp]: "el_ok (kzalloc_event_list\<lparr>el_dropped := d, el_count := 0\<rparr>)"
  by (simp add: el_ok_def kzalloc_event_list_def)

lemma ac_drain_events_kzalloc:
  assumes "ring_ok r"
  obtains el r' where "ac_drain_events (Some kzalloc_event_list) r = (Some el, r')"
    "ring_ok r'" "ac_dropped r' = ac_dropped r"
    "ring_pending r' = drop AC_MAX_EVENTS (ring_pending r)"
    "el_count el = min AC_MAX_EVENTS (ac_ring_count r)" "el_dropped el = ac_dropped r"
    "el_events el = take AC_MAX_EVENTS (ring_pending r)
       @ replicate (AC_MAX_EVENTS - ac_ring_count r) zero_event"
proof -
  let ?z = "kzalloc_event_list\<lparr>el_dropped := ac_dropped r, el_count := 0\<rparr>"
  let ?el = "el_filled (take AC_MAX_EVENTS (ring_pending r)) ?z"
  obtain r' where "drain_loop (Some ?z) r = (Some ?el, r')" "ring_ok r'"
      "ac_dropped r' = ac_dropped r" "ring_pending r' = drop AC_MAX_EVENTS (ring_pending r)"
    using drain_loop_Some [OF assms kzalloc_event_list_ok] by auto
  moreover have "el_count ?el = min AC_MAX_EVENTS (ac_ring_count r)" "el_dropped ?el = ac_dropped r"
    by (simp_all add: el_filled_def min.commute)
  moreover have "el_events ?el = take AC_MAX_EVENTS (ring_pending r)
       @ replicate (AC_MAX_EVENTS - ac_ring_count r) zero_event"
    by (simp add: el_filled_def kzalloc_event_list_def)
  ultimately show ?thesis by (intro that [of ?el r']) (simp_all add: ac_drain_events_def)
qed

lemma ac_drain_events_NULL:
  assumes "ring_ok r"
  obtains r' where "ac_drain_events None r = (None, r')" "ring_ok r'" "ring_pending r' = []"
    "ac_dropped r' = ac_dropped r"
  using drain_loop_None [OF assms] by (auto simp: ac_drain_events_def ring_pending_def)

text \<open>The two uses of \<open>ac_drain_events\<close>: \<open>AC_IOCTL_GET_EVENTS\<close> reads the first \<open>count\<close> entries
  of a zeroed reply, \<open>AC_IOCTL_FLUSH_EVENTS\<close> passes NULL.\<close>

definition ring_drain :: "ac_ring_state \<Rightarrow> ac_event list \<times> ac_ring_state" where
  "ring_drain r =
     (case ac_drain_events (Some kzalloc_event_list) r of
        (Some el, r') \<Rightarrow> (take (el_count el) (el_events el), r')
      | (None, r') \<Rightarrow> ([], r'))"

definition ring_flush :: "ac_ring_state \<Rightarrow> ac_ring_state" where
  "ring_flush r = snd (ac_drain_events None r)"

lemma ring_drain_spec:
  assumes "ring_ok r"
  shows "fst (ring_drain r) = take AC_MAX_EVENTS (ring_pending r)"
    and "ring_pending (snd (ring_drain r)) = drop AC_MAX_EVENTS (ring_pending r)"
    and "ac_dropped (snd (ring_drain r)) = ac_dropped r"
    and "ring_ok (snd (ring_drain r))"
proof -
  obtain el r' where d: "ac_drain_events (Some kzalloc_event_list) r = (Some el, r')"
    "ring_ok r'" "ac_dropped r' = ac_dropped r"
    "ring_pending r' = drop AC_MAX_EVENTS (ring_pending r)"
    "el_count el = min AC_MAX_EVENTS (ac_ring_count r)"
    "el_events el = take AC_MAX_EVENTS (ring_pending r)
       @ replicate (AC_MAX_EVENTS - ac_ring_count r) zero_event"
    by (rule ac_drain_events_kzalloc [OF assms])
  show "fst (ring_drain r) = take AC_MAX_EVENTS (ring_pending r)"
    using take_min_length [of AC_MAX_EVENTS "ring_pending r"] by (simp add: ring_drain_def d)
  show "ring_pending (snd (ring_drain r)) = drop AC_MAX_EVENTS (ring_pending r)"
    "ac_dropped (snd (ring_drain r)) = ac_dropped r" "ring_ok (snd (ring_drain r))"
    by (simp_all add: ring_drain_def d)
qed

lemma ring_flush_spec:
  assumes "ring_ok r"
  shows "ring_pending (ring_flush r) = []" "ac_dropped (ring_flush r) = ac_dropped r"
    and "ring_ok (ring_flush r)"
proof -
  obtain r' where "ac_drain_events None r = (None, r')" "ring_ok r'" "ring_pending r' = []"
    "ac_dropped r' = ac_dropped r"
    by (rule ac_drain_events_NULL [OF assms])
  then show "ring_pending (ring_flush r) = []" "ac_dropped (ring_flush r) = ac_dropped r"
    "ring_ok (ring_flush r)"
    by (simp_all add: ring_flush_def)
qed

lemmas [ac_inv] = ring_drain_spec(4) ring_flush_spec(3)

interpretation ring: lossy_queue ring_pending ac_dropped ring_push ring_drain ring_flush ring_ok
    AC_RING_SIZE AC_MAX_EVENTS
  by unfold_locales
    (simp_all add: ring_push_ok ring_push_pending ring_push_dropped ring_drain_spec
      ring_flush_spec, simp add: ring_ok_def)

subsection \<open>Properties\<close>

text \<open>C7. Emitting refines appending to a bounded queue: the ring keeps its representation
  invariant, the new event becomes the newest pending one, and exactly when the ring already held
  256 events the oldest one is overwritten and the drop counter grows by one.\<close>

theorem ring_emit_refines:
  assumes "ring_ok r"
  shows "ring_ok (ac_emit now ty pid comm data r) \<and>
         ring_pending (ac_emit now ty pid comm data r) =
           (if ac_ring_count r < 256 then ring_pending r else tl (ring_pending r))
             @ [make_event now ty pid comm data] \<and>
         ac_dropped (ac_emit now ty pid comm data r) =
           (if ac_ring_count r < 256 then ac_dropped r else ac_dropped r + 1)"
  using assms ring_push_pending [of r] ring_push_dropped [of _ r]
  by (simp add: ac_emit_def ring_push_ok AC_RING_SIZE_def)

theorem ring_emit_refines_witness:
  "ring_ok ring_init \<and>
   ring_pending (ac_emit 7 AC_EV_INFO 42 None ''hello'' ring_init)
     = [make_event 7 AC_EV_INFO 42 None ''hello'']"
  using ring_emit_refines [OF ring_init_ok, of 7 AC_EV_INFO 42 None "''hello''"]
  by (simp add: ring_init_def [THEN arg_cong, of ac_ring_count])

text \<open>C15. Draining into a zeroed reply returns the 64 oldest events in order, with their count and
  the cumulative drop counter, removes exactly those from the ring, and leaves every reply slot
  after the count zero, so that no stale memory is copied to userspace.\<close>

theorem ring_drain_reply:
  assumes "ring_ok r"
  shows "\<exists>el r'. ac_drain_events (Some kzalloc_event_list) r = (Some el, r') \<and> ring_ok r' \<and>
           el_count el = min 64 (ac_ring_count r) \<and> el_dropped el = ac_dropped r \<and>
           take (el_count el) (el_events el) = take 64 (ring_pending r) \<and>
           drop (el_count el) (el_events el) = replicate (64 - el_count el) zero_event \<and>
           ring_pending r' = drop 64 (ring_pending r)"
proof -
  obtain el r' where d: "ac_drain_events (Some kzalloc_event_list) r = (Some el, r')"
    "ring_ok r'" "ring_pending r' = drop 64 (ring_pending r)"
    "el_count el = min 64 (ac_ring_count r)" "el_dropped el = ac_dropped r"
    "el_events el = take 64 (ring_pending r) @ replicate (64 - ac_ring_count r) zero_event"
    using ac_drain_events_kzalloc [OF assms] unfolding AC_MAX_EVENTS_def by blast
  moreover have "64 - ac_ring_count r = 64 - el_count el" using d(4) by simp
  moreover have "take (el_count el) (take 64 (ring_pending r)) = take 64 (ring_pending r)"
    using take_min_length [of 64 "ring_pending r"] d(4) by simp
  ultimately show ?thesis by (intro exI [of _ el] exI [of _ r']) simp
qed

theorem ring_drain_reply_witness:
  "\<exists>el r'. ac_drain_events (Some kzalloc_event_list) (ac_emit 7 AC_EV_INFO 42 None ''x'' ring_init)
             = (Some el, r') \<and> el_count el = 1 \<and> ring_pending r' = []"
proof -
  let ?r = "ac_emit 7 AC_EV_INFO 42 None ''x'' ring_init"
  have "ac_ring_count ?r = 1"
    by (simp add: ac_emit_def ring_push_def ring_init_def AC_RING_SIZE_def)
  moreover from this have "length (ring_pending ?r) = 1" by simp
  ultimately show ?thesis
    using ring_drain_reply [of ?r] ac_emit_ok [OF ring_init_ok, of 7 AC_EV_INFO 42 None "''x''"]
    by auto
qed



text \<open>Without a flush, every emitted event is delivered, still queued, or counted by the drop
  counter (modulo its 32-bit width): no event is lost silently.\<close>

theorem ring_run_conservation:
  assumes "qrun ring_push ring_drain ring_flush ops ring_init = (outs, r)" "Flush \<notin> set ops"
  shows "\<exists>lost. length (emitted ops) = length outs + length (ring_pending r) + lost \<and>
                ac_dropped r = of_nat lost"
  using ring.qrun_conservation [OF ring_init_ok assms] by (simp add: ring_init_def)

theorem ring_run_conservation_witness:
  "\<exists>outs r lost. qrun ring_push ring_drain ring_flush [Emit zero_event, Drain] ring_init = (outs, r)
     \<and> 1 = length outs + length (ring_pending r) + lost \<and> ac_dropped r = of_nat lost"
proof -
  let ?q = "qrun ring_push ring_drain ring_flush [Emit zero_event, Drain] ring_init"
  have "\<exists>lost. length (emitted [Emit zero_event, Drain])
          = length (fst ?q) + length (ring_pending (snd ?q)) + lost \<and>
        ac_dropped (snd ?q) = of_nat lost"
    by (rule ring_run_conservation [of _ "fst ?q"]) auto
  then obtain lost where "1 = length (fst ?q) + length (ring_pending (snd ?q)) + lost"
      "ac_dropped (snd ?q) = of_nat lost"
    by auto
  then show ?thesis by (intro exI [of _ "fst ?q"] exI [of _ "snd ?q"] exI [of _ lost]) (simp only: prod.collapse simp_thms)
qed

end
