(* ===== verification/Task_Registry.thy ===== *)
theory Task_Registry
  imports Slot_Table Event_Ring
begin

text \<open>
  The registry of protected processes of the kernel module (\<open>ac_prots\<close> and the functions on it in
  src/src/anticheat_module.c) as a refinement of a finite map from tasks to their JIT flag.

  Kernel objects are named by addresses, natural numbers with 0 for NULL. The kernel's own lookup
  functions are not part of the sources: they are the fields of \<open>kenv\<close>. The references the module
  holds on kernel objects (\<open>get_task_struct\<close>, \<open>put_task_struct\<close>, \<open>get_pid\<close>, \<open>put_pid\<close>) are counted
  in the state, so that leaks and early releases are visible. Each function of the source runs its
  loop under \<open>ac_prot_lock\<close>.
\<close>

declare neq0_conv [simp del]

subsection \<open>The kernel's task lookups\<close>

record kenv =
  find_get_pid :: "int \<Rightarrow> nat"
  pid_task :: "nat \<Rightarrow> nat"
  task_active_pid_ns :: "nat \<Rightarrow> nat"
  find_pid_ns :: "int \<Rightarrow> nat \<Rightarrow> nat"
  task_pid :: "nat \<Rightarrow> int"
  task_thread_pid :: "nat \<Rightarrow> nat"
  task_comm :: "nat \<Rightarrow> string"

subsection \<open>State\<close>

definition AC_PROT_MAX :: nat where [ac_consts]: "AC_PROT_MAX = 64"
definition AC_MAX_PROTS :: nat where [ac_consts]: "AC_MAX_PROTS = 64"

record ac_prot_entry =
  pe_task :: nat
  pe_pid :: int
  pe_jit_allowed :: bool
  pe_comm :: string

definition zero_prot :: ac_prot_entry where
  "zero_prot = \<lparr>pe_task = 0, pe_pid = 0, pe_jit_allowed = False, pe_comm = []\<rparr>"

record ac_registry =
  ac_prots :: "ac_prot_entry list"
  ac_prot_count :: u32
  task_refs :: "nat \<Rightarrow> int"
  pid_refs :: "nat \<Rightarrow> int"

definition registry_init :: ac_registry where
  "registry_init = \<lparr>ac_prots = replicate AC_PROT_MAX zero_prot, ac_prot_count = 0,
                    task_refs = (\<lambda>_. 0), pid_refs = (\<lambda>_. 0)\<rparr>"

definition get_task_struct :: "nat \<Rightarrow> ac_registry \<Rightarrow> ac_registry" where
  "get_task_struct t s = s\<lparr>task_refs := (task_refs s)(t := task_refs s t + 1)\<rparr>"

definition put_task_struct :: "nat \<Rightarrow> ac_registry \<Rightarrow> ac_registry" where
  "put_task_struct t s = s\<lparr>task_refs := (task_refs s)(t := task_refs s t - 1)\<rparr>"

definition get_pid :: "nat \<Rightarrow> ac_registry \<Rightarrow> ac_registry" where
  "get_pid p s = s\<lparr>pid_refs := (pid_refs s)(p := pid_refs s p + 1)\<rparr>"

definition put_pid :: "nat \<Rightarrow> ac_registry \<Rightarrow> ac_registry" where
  "put_pid p s = s\<lparr>pid_refs := (pid_refs s)(p := pid_refs s p - 1)\<rparr>"

text \<open>\<open>get_pid_task\<close>: the task of a pid, with a reference taken on it when there is one.\<close>

definition get_pid_task :: "kenv \<Rightarrow> nat \<Rightarrow> ac_registry \<Rightarrow> nat \<times> ac_registry" where
  "get_pid_task env p s =
     (let t = pid_task env p in (t, if t \<noteq> 0 then get_task_struct t s else s))"

subsection \<open>Operations\<close>

definition ac_find_task :: "kenv \<Rightarrow> int \<Rightarrow> ac_registry \<Rightarrow> nat \<times> ac_registry" where
  "ac_find_task env pid s =
     (let pidp = find_get_pid env pid in
      if pidp = 0 then (0, s)
      else let s1 = get_pid pidp s;
               (task, s2) = get_pid_task env pidp s1
           in (task, put_pid pidp s2))"

definition ac_find_task_in_ns_of ::
  "kenv \<Rightarrow> int \<Rightarrow> int \<Rightarrow> ac_registry \<Rightarrow> nat \<times> ac_registry"
where
  "ac_find_task_in_ns_of env nr ref_pid s =
     (let (ref_task, s1) = ac_find_task env ref_pid s in
      if ref_task = 0 then (0, s1)
      else let ns = task_active_pid_ns env ref_task;
               pidp = (if ns \<noteq> 0 then find_pid_ns env nr ns else 0);
               s2 = (if pidp \<noteq> 0 then get_pid pidp s1 else s1);
               s3 = put_task_struct ref_task s2
           in if pidp = 0 then (0, s3)
              else let (target, s4) = get_pid_task env pidp s3
                   in (target, put_pid pidp s4))"

definition ac_add_prot_task ::
  "kenv \<Rightarrow> nat \<Rightarrow> bool \<Rightarrow> ac_registry \<Rightarrow> kret \<times> ac_registry"
where
  "ac_add_prot_task env t jit_allowed s =
     (case slot_scan (\<lambda>e. pe_task e = t) (\<lambda>e. pe_task e = 0) 0 None (ac_prots s) of
        Hit i \<Rightarrow>
          (RetOK, s\<lparr>ac_prots := (ac_prots s)[i := (ac_prots s ! i)\<lparr>pe_jit_allowed := jit_allowed\<rparr>]\<rparr>)
      | Miss None \<Rightarrow> (RetErr ENOSPC, s)
      | Miss (Some slot) \<Rightarrow>
          (RetOK,
           (get_task_struct t s)
             \<lparr>ac_prots := (ac_prots s)[slot :=
                 \<lparr>pe_task = t, pe_pid = task_pid env t, pe_jit_allowed = jit_allowed,
                  pe_comm = strscpy AC_MAX_COMM (task_comm env t)\<rparr>],
              ac_prot_count := ac_prot_count s + 1\<rparr>))"

text \<open>Returns also what it writes to \<open>comm_out\<close>.\<close>

definition ac_add_prot_pid ::
  "kenv \<Rightarrow> int \<Rightarrow> int \<Rightarrow> bool \<Rightarrow> ac_registry \<Rightarrow> (kret \<times> string option) \<times> ac_registry"
where
  "ac_add_prot_pid env pid ref_pid jit_allowed s =
     (let (t, s1) = (if ref_pid > 0 then ac_find_task_in_ns_of env pid ref_pid s
                     else ac_find_task env pid s) in
      if t = 0 then ((RetErr ESRCH, None), s1)
      else let (ret, s2) = ac_add_prot_task env t jit_allowed s1
           in ((ret, Some (strscpy AC_MAX_COMM (task_comm env t))), put_task_struct t s2))"

definition ac_del_prot_task :: "nat \<Rightarrow> ac_registry \<Rightarrow> ac_registry" where
  "ac_del_prot_task t s =
     (case slot_scan (\<lambda>e. pe_task e = t) (\<lambda>_. False) 0 None (ac_prots s) of
        Hit i \<Rightarrow> (put_task_struct t s)
                    \<lparr>ac_prots := (ac_prots s)[i := (ac_prots s ! i)\<lparr>pe_task := 0\<rparr>],
                     ac_prot_count := ac_prot_count s - 1\<rparr>
      | Miss _ \<Rightarrow> s)"

definition ac_task_jit_allowed :: "nat \<Rightarrow> ac_registry \<Rightarrow> bool" where
  "ac_task_jit_allowed t s =
     (case slot_scan (\<lambda>e. pe_task e = t) (\<lambda>_. False) 0 None (ac_prots s) of
        Hit i \<Rightarrow> pe_jit_allowed (ac_prots s ! i)
      | Miss _ \<Rightarrow> False)"

definition ac_is_protected_task :: "nat \<Rightarrow> ac_registry \<Rightarrow> bool" where
  "ac_is_protected_task t s =
     (case slot_scan (\<lambda>e. pe_task e = t) (\<lambda>_. False) 0 None (ac_prots s) of
        Hit i \<Rightarrow> True
      | Miss _ \<Rightarrow> False)"

text \<open>The result is the name written to \<open>comm_out\<close> when the pid is protected.\<close>

definition ac_is_protected_pid :: "kenv \<Rightarrow> int \<Rightarrow> ac_registry \<Rightarrow> string option \<times> ac_registry" where
  "ac_is_protected_pid env pid s =
     (let (t, s1) = ac_find_task env pid s in
      if t = 0 then (None, s1)
      else let prot = ac_is_protected_task t s1
           in (if prot then Some (strscpy AC_MAX_COMM (task_comm env t)) else None,
               put_task_struct t s1))"

definition ac_protected_count :: "ac_registry \<Rightarrow> u32" where
  "ac_protected_count s = ac_prot_count s"

record ac_prot_item =
  pi_pid :: int
  pi_jit_allowed :: int
  pi_comm :: string

definition zero_prot_item :: ac_prot_item where
  "zero_prot_item = \<lparr>pi_pid = 0, pi_jit_allowed = 0, pi_comm = []\<rparr>"

record ac_prot_list =
  pl_count :: nat
  pl_items :: "ac_prot_item list"

definition prot_item_of :: "ac_prot_entry \<Rightarrow> ac_prot_item" where
  "prot_item_of e =
     \<lparr>pi_pid = pe_pid e, pi_jit_allowed = (if pe_jit_allowed e then 1 else 0),
      pi_comm = strscpy AC_MAX_COMM (pe_comm e)\<rparr>"

fun list_protected_loop :: "ac_prot_entry list \<Rightarrow> ac_prot_item list \<Rightarrow> ac_prot_item list" where
  "list_protected_loop [] items = items"
| "list_protected_loop (e # es) items =
     (if length items < AC_MAX_PROTS
      then list_protected_loop es (if pe_task e = 0 then items else items @ [prot_item_of e])
      else items)"

text \<open>The reply starts as zeroed memory; the whole array is copied out.\<close>

definition ac_list_protected :: "ac_registry \<Rightarrow> ac_prot_list" where
  "ac_list_protected s =
     (let items = list_protected_loop (ac_prots s) []
      in \<lparr>pl_count = length items,
          pl_items = items @ replicate (AC_MAX_PROTS - length items) zero_prot_item\<rparr>)"

definition ac_clear_protected :: "ac_registry \<Rightarrow> ac_registry" where
  "ac_clear_protected s =
     (fold (\<lambda>e s. if pe_task e \<noteq> 0 then put_task_struct (pe_task e) s else s) (ac_prots s) s)
       \<lparr>ac_prots := map (\<lambda>e. if pe_task e \<noteq> 0 then e\<lparr>pe_task := 0\<rparr> else e) (ac_prots s),
        ac_prot_count := 0\<rparr>"

subsection \<open>Invariant and abstraction\<close>

abbreviation prot_used :: "ac_prot_entry \<Rightarrow> bool" where
  "prot_used e \<equiv> pe_task e \<noteq> 0"

definition protected_map :: "ac_registry \<Rightarrow> nat \<Rightarrow> bool option" where
  "protected_map s = slot_lookup prot_used pe_task pe_jit_allowed (ac_prots s)"

definition registry_free :: "ac_registry \<Rightarrow> nat" where
  "registry_free s = slots_free prot_used (ac_prots s)"

text \<open>\<open>held\<close> are the task references the running handler itself holds at the moment.\<close>

definition registry_inv :: "(nat \<Rightarrow> int) \<Rightarrow> ac_registry \<Rightarrow> bool" where
  "registry_inv held s \<longleftrightarrow>
     length (ac_prots s) = AC_PROT_MAX \<and>
     slots_wf prot_used pe_task (ac_prots s) \<and>
     unat (ac_prot_count s) = length (filter prot_used (ac_prots s)) \<and>
     (\<forall>t. task_refs s t = held t + (if protected_map s t = None then 0 else 1))"

definition registry_ok :: "ac_registry \<Rightarrow> bool" where
  "registry_ok s = registry_inv (\<lambda>_. 0) s"

lemma registry_invI:
  assumes "length (ac_prots s) = AC_PROT_MAX" "slots_wf prot_used pe_task (ac_prots s)"
    "unat (ac_prot_count s) = length (filter prot_used (ac_prots s))"
    "\<And>t. task_refs s t = held t + (if protected_map s t = None then 0 else 1)"
  shows "registry_inv held s"
  unfolding registry_inv_def using assms by blast

lemma registry_init_ok [simp]: "registry_ok registry_init"
  by (auto simp: registry_ok_def registry_inv_def registry_init_def zero_prot_def protected_map_def
      slot_lookup_None intro!: slots_wf_unused)

lemma registry_init_map [simp]: "protected_map registry_init = Map.empty"
  by (auto simp: protected_map_def slot_lookup_None registry_init_def zero_prot_def)

subsection \<open>Task lookups hold exactly one reference\<close>

definition resolve_pid :: "kenv \<Rightarrow> int \<Rightarrow> nat" where
  "resolve_pid env pid =
     (if find_get_pid env pid = 0 then 0 else pid_task env (find_get_pid env pid))"

definition resolve_pid_ns :: "kenv \<Rightarrow> int \<Rightarrow> int \<Rightarrow> nat" where
  "resolve_pid_ns env nr ref_pid =
     (let r = resolve_pid env ref_pid; ns = task_active_pid_ns env r; p = find_pid_ns env nr ns
      in if r = 0 \<or> ns = 0 \<or> p = 0 then 0 else pid_task env p)"

definition hold :: "nat \<Rightarrow> ac_registry \<Rightarrow> ac_registry" where
  "hold t s = (if t = 0 then s else get_task_struct t s)"

lemma put_get_task [simp]: "put_task_struct t (get_task_struct t s) = s"
  by (simp add: put_task_struct_def get_task_struct_def)

lemma put_get_pid [simp]: "put_pid p (get_pid p s) = s"
  by (simp add: put_pid_def get_pid_def)

lemma get_task_get_pid: "get_task_struct t (get_pid p s) = get_pid p (get_task_struct t s)"
  by (simp add: get_task_struct_def get_pid_def)

lemma put_task_get_pid: "put_task_struct t (get_pid p s) = get_pid p (put_task_struct t s)"
  by (simp add: put_task_struct_def get_pid_def)

lemma ac_find_task_eq:
  "ac_find_task env pid s = (resolve_pid env pid, hold (resolve_pid env pid) s)"
  by (simp add: ac_find_task_def resolve_pid_def hold_def get_pid_task_def Let_def get_task_get_pid)

lemma ac_find_task_in_ns_of_eq:
  "ac_find_task_in_ns_of env nr ref_pid s =
     (resolve_pid_ns env nr ref_pid, hold (resolve_pid_ns env nr ref_pid) s)"
  by (simp add: ac_find_task_in_ns_of_def resolve_pid_ns_def hold_def get_pid_task_def Let_def
      ac_find_task_eq get_task_get_pid put_task_get_pid)

lemma get_task_struct_sel [simp]:
  "ac_prots (get_task_struct t s) = ac_prots s"
  "ac_prot_count (get_task_struct t s) = ac_prot_count s"
  "pid_refs (get_task_struct t s) = pid_refs s"
  "task_refs (get_task_struct t s) = (task_refs s)(t := task_refs s t + 1)"
  by (simp_all add: get_task_struct_def)

lemma put_task_struct_sel [simp]:
  "ac_prots (put_task_struct t s) = ac_prots s"
  "ac_prot_count (put_task_struct t s) = ac_prot_count s"
  "pid_refs (put_task_struct t s) = pid_refs s"
  "task_refs (put_task_struct t s) = (task_refs s)(t := task_refs s t - 1)"
  by (simp_all add: put_task_struct_def)

lemma protected_map_cong: "ac_prots s = ac_prots s' \<Longrightarrow> protected_map s = protected_map s'"
  by (simp add: protected_map_def)

lemma protected_map_get_put [simp]:
  "protected_map (get_task_struct t s) = protected_map s"
  "protected_map (put_task_struct t s) = protected_map s"
  by (simp_all add: protected_map_def)

lemma registry_inv_get:
  "registry_inv held s \<Longrightarrow> registry_inv (held(t := held t + 1)) (get_task_struct t s)"
  by (auto simp: registry_inv_def)

lemma registry_inv_put:
  "registry_inv held s \<Longrightarrow> registry_inv (held(t := held t - 1)) (put_task_struct t s)"
  by (auto simp: registry_inv_def)

subsection \<open>The operations refine a finite map\<close>

lemma protected_iff:
  assumes "t \<noteq> 0"
  shows "ac_is_protected_task t s \<longleftrightarrow> protected_map s t \<noteq> None"
proof (cases "slot_scan (\<lambda>e. pe_task e = t) (\<lambda>_. False) 0 None (ac_prots s)")
  case (Hit i)
  with slot_scan_Hit [OF Hit] assms show ?thesis
    unfolding protected_map_def slot_lookup_None ac_is_protected_task_def by auto
next
  case (Miss m)
  with slot_scan_Miss(1) [OF Miss] show ?thesis
    unfolding protected_map_def slot_lookup_None ac_is_protected_task_def by simp
qed

lemma protected_map_hit:
  assumes "slots_wf prot_used pe_task (ac_prots s)" "i < length (ac_prots s)"
    "pe_task (ac_prots s ! i) \<noteq> 0"
  shows "protected_map s (pe_task (ac_prots s ! i)) = Some (pe_jit_allowed (ac_prots s ! i))"
  unfolding protected_map_def slot_lookup_Some [OF assms(1)] using assms(2,3) by blast

lemma jit_allowed_eq:
  assumes "registry_inv held s" "t \<noteq> 0"
  shows "ac_task_jit_allowed t s \<longleftrightarrow> protected_map s t = Some True"
proof (cases "slot_scan (\<lambda>e. pe_task e = t) (\<lambda>_. False) 0 None (ac_prots s)")
  case (Hit i)
  with slot_scan_Hit [OF Hit] assms protected_map_hit [of s i] show ?thesis
    by (auto simp: ac_task_jit_allowed_def registry_inv_def)
next
  case (Miss m)
  then have "protected_map s t = None"
    using slot_scan_Miss(1) [OF Miss] unfolding protected_map_def slot_lookup_None by simp
  with Miss show ?thesis by (simp add: ac_task_jit_allowed_def)
qed

lemma used_le: "registry_inv held s \<Longrightarrow> length (filter prot_used (ac_prots s)) \<le> 64"
  using length_filter_le [of prot_used "ac_prots s"] by (simp add: registry_inv_def AC_PROT_MAX_def)

lemma add_known:
  fixes env :: kenv and jit :: bool
  assumes inv: "registry_inv held s" and t: "t \<noteq> 0"
    and scan: "slot_scan (\<lambda>e. pe_task e = t) (\<lambda>e. pe_task e = 0) 0 None (ac_prots s) = Hit i"
  defines "s' \<equiv> s\<lparr>ac_prots := (ac_prots s)[i := (ac_prots s ! i)\<lparr>pe_jit_allowed := jit\<rparr>]\<rparr>"
  shows "ac_add_prot_task env t jit s = (RetOK, s')"
    and "protected_map s t \<noteq> None" and "protected_map s' = (protected_map s)(t \<mapsto> jit)"
    and "registry_inv held s'"
proof -
  let ?e = "(ac_prots s ! i)\<lparr>pe_jit_allowed := jit\<rparr>"
  have i: "i < length (ac_prots s)" "pe_task (ac_prots s ! i) = t"
    using slot_scan_Hit [OF scan] by auto
  have wf: "slots_wf prot_used pe_task (ac_prots s)" using inv by (simp add: registry_inv_def)
  show "ac_add_prot_task env t jit s = (RetOK, s')" by (simp add: ac_add_prot_task_def scan s'_def)
  show known: "protected_map s t \<noteq> None" using protected_map_hit [OF wf i(1)] i(2) t by simp
  have own: "pe_task (ac_prots s ! j) \<noteq> pe_task ?e"
    if "j < length (ac_prots s)" "j \<noteq> i" "prot_used (ac_prots s ! j)" for j
    using that slots_wfD [OF wf, of j i] i t by auto
  note upd = slot_update_used(1) [OF wf i(1), of ?e, OF _ own]
    slot_update_used(2) [OF wf i(1), of ?e, OF _ own, where val = pe_jit_allowed]
  show map: "protected_map s' = (protected_map s)(t \<mapsto> jit)"
    using upd(2) i t by (simp add: protected_map_def s'_def)
  have "slots_wf prot_used pe_task (ac_prots s')" using upd(1) i t by (simp add: s'_def)
  moreover have "unat (ac_prot_count s') = length (filter prot_used (ac_prots s'))"
    using count_filter_update_same [OF i(1), of prot_used ?e] i t inv
    by (simp add: s'_def registry_inv_def)
  moreover have "task_refs s' u = held u + (if protected_map s' u = None then 0 else 1)" for u
  proof -
    have "task_refs s' = task_refs s" by (simp add: s'_def)
    then show ?thesis unfolding map using inv known by (auto simp: registry_inv_def)
  qed
  moreover have "length (ac_prots s') = AC_PROT_MAX"
    using inv by (simp add: registry_inv_def s'_def)
  ultimately show "registry_inv held s'" by (intro registry_invI)
qed

lemma add_full:
  assumes "slot_scan (\<lambda>e. pe_task e = t) (\<lambda>e. pe_task e = 0) 0 None (ac_prots s) = Miss None"
  shows "ac_add_prot_task env t jit s = (RetErr ENOSPC, s)" "registry_free s = 0"
    "protected_map s t = None"
  using slot_scan_Miss(1,2) [OF assms]
  by (simp_all add: ac_add_prot_task_def assms registry_free_def slots_free_0 protected_map_def
      slot_lookup_None)

lemma add_new:
  fixes env :: kenv and jit :: bool
  assumes inv: "registry_inv held s" and t: "t \<noteq> 0"
    and scan: "slot_scan (\<lambda>e. pe_task e = t) (\<lambda>e. pe_task e = 0) 0 None (ac_prots s) = Miss (Some j)"
  defines "e \<equiv> \<lparr>pe_task = t, pe_pid = task_pid env t, pe_jit_allowed = jit,
                pe_comm = strscpy AC_MAX_COMM (task_comm env t)\<rparr>"
  defines "s' \<equiv> (get_task_struct t s)\<lparr>ac_prots := (ac_prots s)[j := e],
                                        ac_prot_count := ac_prot_count s + 1\<rparr>"
  shows "ac_add_prot_task env t jit s = (RetOK, s')"
    and "protected_map s t = None" and "registry_free s > 0"
    and "protected_map s' = (protected_map s)(t \<mapsto> jit)" and "registry_inv held s'"
proof -
  have wf: "slots_wf prot_used pe_task (ac_prots s)" using inv by (simp add: registry_inv_def)
  have j: "j < length (ac_prots s)" "pe_task (ac_prots s ! j) = 0"
    using slot_scan_Miss(3) [OF scan refl] by auto
  have fresh: "\<forall>e \<in> set (ac_prots s). pe_task e \<noteq> t" using slot_scan_Miss(1) [OF scan] by simp
  show "ac_add_prot_task env t jit s = (RetOK, s')"
    by (simp add: ac_add_prot_task_def scan s'_def e_def)
  show new: "protected_map s t = None" using fresh by (simp add: protected_map_def slot_lookup_None)
  show "registry_free s > 0"
  proof -
    have "\<not> (\<forall>e \<in> set (ac_prots s). prot_used e)" using nth_mem [OF j(1)] j(2) by blast
    then show ?thesis
      unfolding registry_free_def using slots_free_0 [of prot_used "ac_prots s"] by (metis neq0_conv)
  qed
  have e: "prot_used e" "pe_task e = t" "pe_jit_allowed e = jit" using t by (simp_all add: e_def)
  note upd = slot_update_used(1) [OF wf j(1) e(1)]
    slot_update_used(2) [OF wf j(1) e(1), where val = pe_jit_allowed]
  show map: "protected_map s' = (protected_map s)(t \<mapsto> jit)"
    using upd(2) j fresh e by (simp add: protected_map_def s'_def)
  have used: "length (filter prot_used (ac_prots s')) = Suc (length (filter prot_used (ac_prots s)))"
    using count_filter_update_gain [OF j(1), of prot_used e] j e by (simp add: s'_def)
  have le: "length (filter prot_used (ac_prots s')) \<le> 64"
    using length_filter_le [of prot_used "ac_prots s'"] inv
    by (simp add: registry_inv_def s'_def AC_PROT_MAX_def)
  have "unat (ac_prot_count s + 1) = unat (ac_prot_count s) + 1"
    using used le inv by (simp add: registry_inv_def unat_word_ariths)
  then have "unat (ac_prot_count s') = length (filter prot_used (ac_prots s'))"
    using used inv by (simp add: registry_inv_def s'_def)
  moreover have "slots_wf prot_used pe_task (ac_prots s')"
    using upd(1) j fresh e by (simp add: s'_def)
  moreover have "task_refs s' u = held u + (if protected_map s' u = None then 0 else 1)" for u
  proof -
    have "task_refs s' = (task_refs s)(t := task_refs s t + 1)" by (simp add: s'_def)
    then show ?thesis unfolding map using inv new by (auto simp: registry_inv_def)
  qed
  moreover have "length (ac_prots s') = AC_PROT_MAX"
    using inv by (simp add: registry_inv_def s'_def)
  ultimately show "registry_inv held s'" by (intro registry_invI)
qed

lemma add_prot_task_cases:
  assumes "registry_inv held s" "t \<noteq> 0"
  shows "registry_inv held (snd (ac_add_prot_task env t jit s)) \<and>
    (if protected_map s t = None \<and> registry_free s = 0
     then ac_add_prot_task env t jit s = (RetErr ENOSPC, s)
     else fst (ac_add_prot_task env t jit s) = RetOK \<and>
          protected_map (snd (ac_add_prot_task env t jit s)) = (protected_map s)(t \<mapsto> jit))"
proof (cases "slot_scan (\<lambda>e. pe_task e = t) (\<lambda>e. pe_task e = 0) 0 None (ac_prots s)")
  case (Hit i)
  from add_known(1) [OF assms Hit, of env jit] add_known(2) [OF assms Hit]
    add_known(3,4) [OF assms Hit, of jit]
  show ?thesis by simp
next
  case (Miss m)
  show ?thesis
  proof (cases m)
    case None
    note scan = Miss [unfolded None]
    from add_full(1) [OF scan, of env jit] add_full(2,3) [OF scan] assms show ?thesis by simp
  next
    case (Some j)
    note scan = Miss [unfolded Some]
    from add_new(1) [OF assms scan, where env = env and jit = jit]
      add_new(2,3) [OF assms scan] add_new(4) [OF assms scan, where env = env and jit = jit]
      add_new(5) [OF assms scan, where env = env and jit = jit]
    show ?thesis by simp
  qed
qed

lemmas add_prot_task_inv [ac_inv] = add_prot_task_cases [THEN conjunct1]

lemma del_known:
  assumes inv: "registry_inv held s" and t: "t \<noteq> 0"
    and scan: "slot_scan (\<lambda>e. pe_task e = t) (\<lambda>_. False) 0 None (ac_prots s) = Hit i"
  shows "registry_inv held (ac_del_prot_task t s)"
    and "protected_map (ac_del_prot_task t s) = (protected_map s)(t := None)"
proof -
  let ?e = "(ac_prots s ! i)\<lparr>pe_task := 0\<rparr>"
  let ?s = "(put_task_struct t s)\<lparr>ac_prots := (ac_prots s)[i := ?e],
                                   ac_prot_count := ac_prot_count s - 1\<rparr>"
  have eq: "ac_del_prot_task t s = ?s" by (simp add: ac_del_prot_task_def scan)
  have i: "i < length (ac_prots s)" "pe_task (ac_prots s ! i) = t"
    using slot_scan_Hit [OF scan] by auto
  have used: "prot_used (ac_prots s ! i)" "\<not> prot_used ?e" using i t by simp_all
  have wf: "slots_wf prot_used pe_task (ac_prots s)" using inv by (simp add: registry_inv_def)
  note upd = slot_update_unused(1) [OF wf i(1) used]
    slot_update_unused(2) [OF wf i(1) used, where val = pe_jit_allowed]
  have map: "protected_map ?s = (protected_map s)(t := None)"
    using upd(2) i(2) by (simp add: protected_map_def)
  then show "protected_map (ac_del_prot_task t s) = (protected_map s)(t := None)" by (simp add: eq)
  have known: "protected_map s t \<noteq> None" using protected_map_hit [OF wf i(1)] i(2) t by simp
  have len: "Suc (length (filter prot_used (ac_prots ?s))) = length (filter prot_used (ac_prots s))"
    using count_filter_update_loss [where P = prot_used, OF i(1) used] by simp
  then have "ac_prot_count s \<noteq> 0" using inv by (auto simp: registry_inv_def)
  then have "unat (ac_prot_count s - 1) = unat (ac_prot_count s) - 1" by (rule unat_minus_one)
  then have cnt: "unat (ac_prot_count ?s) = length (filter prot_used (ac_prots ?s))"
    using len inv by (simp add: registry_inv_def)
  have refs: "\<And>u. task_refs ?s u = held u + (if protected_map ?s u = None then 0 else 1)"
    unfolding map using inv known by (auto simp: registry_inv_def)
  have "length (ac_prots ?s) = AC_PROT_MAX" "slots_wf prot_used pe_task (ac_prots ?s)"
    using upd(1) inv by (simp_all add: registry_inv_def)
  then show "registry_inv held (ac_del_prot_task t s)"
    unfolding eq using cnt refs by (rule registry_invI)
qed

lemma del_prot_task_map:
  assumes "registry_inv held s" "t \<noteq> 0"
  shows "registry_inv held (ac_del_prot_task t s)"
    and "protected_map (ac_del_prot_task t s) = (protected_map s)(t := None)"
proof -
  have "registry_inv held (ac_del_prot_task t s) \<and>
        protected_map (ac_del_prot_task t s) = (protected_map s)(t := None)"
  proof (cases "slot_scan (\<lambda>e. pe_task e = t) (\<lambda>_. False) 0 None (ac_prots s)")
    case (Hit i)
    from del_known [OF assms Hit] show ?thesis by simp
  next
    case (Miss m)
    then have "ac_del_prot_task t s = s" by (simp add: ac_del_prot_task_def)
    moreover have "protected_map s t = None"
      using slot_scan_Miss(1) [OF Miss] unfolding protected_map_def slot_lookup_None by simp
    then have "(protected_map s)(t := None) = protected_map s" by (rule fun_upd_idem)
    ultimately show ?thesis using assms(1) by simp
  qed
  then show "registry_inv held (ac_del_prot_task t s)"
    and "protected_map (ac_del_prot_task t s) = (protected_map s)(t := None)" by simp_all
qed

lemmas [ac_inv] = del_prot_task_map(1)

interpretation reg: slot_map_delete protected_map "\<lambda>t j s. snd (ac_add_prot_task env t j s)"
    registry_free "\<lambda>t. t \<noteq> 0" "registry_inv held" AC_PROT_MAX ac_del_prot_task
  for env held
proof (unfold_locales, goal_cases)
  case (1 s k v)
  then show ?case by (rule add_prot_task_inv)
next
  case (2 s k v)
  then show ?case using add_prot_task_cases [of held s k env v] by auto
next
  case (3 s k v)
  then show ?case using add_prot_task_cases [of held s k env v] by auto
next
  case (4 s)
  then have "finite (dom (protected_map s))"
    by (auto simp: protected_map_def slot_lookup_dom)
  moreover have "card (dom (protected_map s)) + registry_free s = AC_PROT_MAX"
    unfolding protected_map_def registry_free_def
    using slots_wf_card [of prot_used pe_task "ac_prots s" pe_jit_allowed] 4
    by (simp add: registry_inv_def)
  ultimately show ?case by blast
next
  case (5 s k)
  then show ?case by (rule del_prot_task_map)
next
  case (6 s k)
  then show ?case by (rule del_prot_task_map)
qed

subsection \<open>Lookups by pid, listing and clearing\<close>

lemma registry_ok_hold_put:
  assumes "registry_ok s" "t \<noteq> 0" "registry_inv ((\<lambda>_. 0)(t := 1)) s'"
  shows "registry_ok (put_task_struct t s')"
  using registry_inv_put [OF assms(3), of t] by (simp add: registry_ok_def fun_upd_idem)

lemma registry_inv_hold:
  "registry_ok s \<Longrightarrow> t \<noteq> 0 \<Longrightarrow> registry_inv ((\<lambda>_. 0)(t := 1)) (hold t s)"
  using registry_inv_get [of "\<lambda>_. 0" s t] by (simp add: registry_ok_def hold_def)

lemma registry_free_hold [simp]: "registry_free (hold t s) = registry_free s"
  by (simp add: registry_free_def hold_def)

lemma protected_map_hold [simp]: "protected_map (hold t s) = protected_map s"
  by (simp add: hold_def)

lemma pid_refs_hold [simp]: "pid_refs (hold t s) = pid_refs s"
  by (simp add: hold_def)

lemma put_hold [simp]: "t \<noteq> 0 \<Longrightarrow> put_task_struct t (hold t s) = s"
  by (simp add: hold_def)

lemma pid_refs_add [simp]: "pid_refs (snd (ac_add_prot_task env t jit s)) = pid_refs s"
  by (simp add: ac_add_prot_task_def split: slot_hit.split option.split)

lemma pid_refs_del [simp]: "pid_refs (ac_del_prot_task t s) = pid_refs s"
  by (simp add: ac_del_prot_task_def split: slot_hit.split)

lemma ac_is_protected_task_hold [simp]: "ac_is_protected_task u (hold t s) = ac_is_protected_task u s"
  by (simp add: ac_is_protected_task_def hold_def)

lemma ac_is_protected_pid_eq:
  "ac_is_protected_pid env pid s =
     (if resolve_pid env pid \<noteq> 0 \<and> ac_is_protected_task (resolve_pid env pid) s
      then Some (strscpy AC_MAX_COMM (task_comm env (resolve_pid env pid))) else None, s)"
  by (simp add: ac_is_protected_pid_def ac_find_task_eq Let_def hold_def)
     (simp add: ac_is_protected_task_def)

definition add_target :: "kenv \<Rightarrow> int \<Rightarrow> int \<Rightarrow> nat" where
  "add_target env pid ref_pid =
     (if ref_pid > 0 then resolve_pid_ns env pid ref_pid else resolve_pid env pid)"

lemma ac_add_prot_pid_eq:
  "ac_add_prot_pid env pid ref_pid jit s =
     (let t = add_target env pid ref_pid in
      if t = 0 then ((RetErr ESRCH, None), s)
      else let (ret, s2) = ac_add_prot_task env t jit (hold t s)
           in ((ret, Some (strscpy AC_MAX_COMM (task_comm env t))), put_task_struct t s2))"
  by (simp add: ac_add_prot_pid_def add_target_def ac_find_task_eq ac_find_task_in_ns_of_eq Let_def
      hold_def)

lemma list_protected_loop_eq:
  "length items \<le> AC_MAX_PROTS \<Longrightarrow>
     list_protected_loop es items
       = take AC_MAX_PROTS (items @ map prot_item_of (filter prot_used es))"
  by (induction es arbitrary: items) (auto simp: not_less take_Cons')

lemma registry_list_eq:
  assumes "registry_inv held s"
  shows "list_protected_loop (ac_prots s) [] = map prot_item_of (filter prot_used (ac_prots s))"
  using used_le [OF assms] by (simp add: list_protected_loop_eq AC_MAX_PROTS_def)

lemma registry_card:
  assumes inv: "registry_inv held s"
  shows "card (dom (protected_map s)) = length (filter prot_used (ac_prots s))"
proof -
  have "card (dom (protected_map s)) + registry_free s = length (ac_prots s)"
    unfolding protected_map_def registry_free_def
    by (rule slots_wf_card) (use inv in \<open>simp add: registry_inv_def\<close>)
  moreover have "length (filter prot_used (ac_prots s)) + registry_free s = length (ac_prots s)"
    unfolding registry_free_def slots_free_def by (rule sum_length_filter_compl)
  ultimately show ?thesis by linarith
qed

lemma clear_fold:
  "fold (\<lambda>e s. if prot_used e then put_task_struct (pe_task e) s else s) es s
   = s\<lparr>task_refs := (\<lambda>u. task_refs s u - int (length (filter (\<lambda>e. prot_used e \<and> pe_task e = u) es)))\<rparr>"
  by (induction es arbitrary: s) (auto simp: put_task_struct_def fun_eq_iff)

lemma ac_clear_protected_sel:
  "ac_prots (ac_clear_protected s)
     = map (\<lambda>e. if prot_used e then e\<lparr>pe_task := 0\<rparr> else e) (ac_prots s)"
  "ac_prot_count (ac_clear_protected s) = 0"
  "pid_refs (ac_clear_protected s) = pid_refs s"
  "task_refs (ac_clear_protected s) u
     = task_refs s u - int (length (filter (\<lambda>e. prot_used e \<and> pe_task e = u) (ac_prots s)))"
  unfolding ac_clear_protected_def clear_fold by simp_all

lemma ac_clear_protected_unused: "\<forall>e \<in> set (ac_prots (ac_clear_protected s)). \<not> prot_used e"
  by (auto simp: ac_clear_protected_sel)

lemma ac_clear_protected_map: "protected_map (ac_clear_protected s) = Map.empty"
proof
  fix t show "protected_map (ac_clear_protected s) t = None"
    unfolding protected_map_def slot_lookup_None using ac_clear_protected_unused by blast
qed

lemma ac_clear_protected_inv [ac_inv]:
  assumes "registry_inv held s"
  shows "registry_inv held (ac_clear_protected s)"
proof (rule registry_invI)
  have wf: "slots_wf prot_used pe_task (ac_prots s)" using assms by (simp add: registry_inv_def)
  show "length (ac_prots (ac_clear_protected s)) = AC_PROT_MAX"
    using assms by (simp add: ac_clear_protected_sel registry_inv_def)
  show "slots_wf prot_used pe_task (ac_prots (ac_clear_protected s))"
    by (rule slots_wf_unused) (use ac_clear_protected_unused in blast)
  have "filter prot_used (ac_prots (ac_clear_protected s)) = []"
    using ac_clear_protected_unused unfolding filter_empty_conv by blast
  then show "unat (ac_prot_count (ac_clear_protected s))
      = length (filter prot_used (ac_prots (ac_clear_protected s)))"
    by (simp add: ac_clear_protected_sel(2))
  fix u
  have "length (filter (\<lambda>e. prot_used e \<and> pe_task e = u) (ac_prots s))
      = (if protected_map s u = None then 0 else 1)"
    unfolding protected_map_def by (rule slots_wf_count [OF wf])
  moreover have "task_refs s u = held u + (if protected_map s u = None then 0 else 1)"
    using assms unfolding registry_inv_def by blast
  ultimately show "task_refs (ac_clear_protected s) u
      = held u + (if protected_map (ac_clear_protected s) u = None then 0 else 1)"
    by (simp add: ac_clear_protected_sel(4) ac_clear_protected_map)
qed

lemma add_prot_pid_protects:
  assumes "registry_ok s" "fst (fst (ac_add_prot_pid env pid ref_pid jit s)) = RetOK"
  shows "add_target env pid ref_pid \<noteq> 0"
    "protected_map (snd (ac_add_prot_pid env pid ref_pid jit s)) = (protected_map s)(add_target env pid ref_pid \<mapsto> jit)"
proof -
  let ?t = "add_target env pid ref_pid"
  show t: "?t \<noteq> 0"
  proof
    assume "?t = 0"
    then show False using assms(2) by (simp add: ac_add_prot_pid_eq)
  qed
  then show "protected_map (snd (ac_add_prot_pid env pid ref_pid jit s)) = (protected_map s)(?t \<mapsto> jit)"
    using assms(2) add_prot_task_cases [OF registry_inv_hold [OF assms(1) t] t, of env jit]
    by (auto simp: ac_add_prot_pid_eq Let_def case_prod_beta split: if_splits)
qed

subsection \<open>Properties\<close>

text \<open>A machine in which every positive pid is a live task of one namespace; the witnesses are
  evaluated on it.\<close>

definition flat_env :: kenv where
  "flat_env = \<lparr>find_get_pid = nat, pid_task = id, task_active_pid_ns = (\<lambda>_. 1),
               find_pid_ns = (\<lambda>nr _. nat nr), task_pid = int,
               task_thread_pid = id, task_comm = (\<lambda>_. ''game'')\<rparr>"

lemma registry_init_free [simp]: "registry_free registry_init = 64"
  by (simp add: registry_free_def registry_init_def zero_prot_def slots_free_replicate
      AC_PROT_MAX_def)

lemma registry_init_add:
  assumes "t \<noteq> 0"
  shows "fst (ac_add_prot_task env t jit registry_init) = RetOK"
    "registry_ok (snd (ac_add_prot_task env t jit registry_init))"
    "protected_map (snd (ac_add_prot_task env t jit registry_init)) = [t \<mapsto> jit]"
  using add_prot_task_cases [of "\<lambda>_. 0" registry_init t env jit] registry_init_ok assms
  by (auto simp: registry_ok_def)

text \<open>C8. The registry refines a finite map from tasks to JIT flags: membership and JIT tests read
  the map, protecting a task updates it (also when the task is already protected) unless the table
  is full, in which case the call fails with ENOSPC and changes nothing, and unprotecting removes
  exactly that task. Every operation keeps the invariant, which includes that the module holds one
  reference on each protected task and none on any other.\<close>

theorem registry_refines_map:
  assumes "registry_ok s" "t \<noteq> 0"
  shows "(ac_is_protected_task t s \<longleftrightarrow> protected_map s t \<noteq> None) \<and>
    (ac_task_jit_allowed t s \<longleftrightarrow> protected_map s t = Some True) \<and>
    (if protected_map s t = None \<and> registry_free s = 0
     then ac_add_prot_task env t jit s = (RetErr ENOSPC, s)
     else fst (ac_add_prot_task env t jit s) = RetOK \<and>
          protected_map (snd (ac_add_prot_task env t jit s)) = (protected_map s)(t \<mapsto> jit)) \<and>
    registry_ok (snd (ac_add_prot_task env t jit s)) \<and>
    protected_map (ac_del_prot_task t s) = (protected_map s)(t := None) \<and>
    registry_ok (ac_del_prot_task t s)"
  using assms add_prot_task_cases [of "\<lambda>_. 0" s t env jit] del_prot_task_map [of "\<lambda>_. 0" s t]
    jit_allowed_eq [of "\<lambda>_. 0" s t] protected_iff [of t s]
  unfolding registry_ok_def by blast

theorem registry_refines_map_witness:
  "fst (ac_add_prot_task flat_env 7 True registry_init) = RetOK \<and>
   protected_map (snd (ac_add_prot_task flat_env 7 True registry_init)) = [7 \<mapsto> True]"
  using registry_refines_map [of registry_init 7 flat_env True] by simp

text \<open>C17. Protecting a process by pid, in the caller's namespace or in that of a reference process,
  fails with ESRCH exactly when the pid does not resolve to a task, otherwise behaves as protecting
  that task, and on every path releases each task and pid reference it took: no reference is leaked
  and none is dropped twice.\<close>

theorem add_prot_pid_balanced:
  assumes "registry_ok s"
  shows "registry_ok (snd (ac_add_prot_pid env pid ref_pid jit s)) \<and>
    pid_refs (snd (ac_add_prot_pid env pid ref_pid jit s)) = pid_refs s \<and>
    (let t = add_target env pid ref_pid in
     if t = 0 then ac_add_prot_pid env pid ref_pid jit s = ((RetErr ESRCH, None), s)
     else if protected_map s t = None \<and> registry_free s = 0
     then fst (fst (ac_add_prot_pid env pid ref_pid jit s)) = RetErr ENOSPC \<and>
          protected_map (snd (ac_add_prot_pid env pid ref_pid jit s)) = protected_map s
     else fst (fst (ac_add_prot_pid env pid ref_pid jit s)) = RetOK \<and>
          protected_map (snd (ac_add_prot_pid env pid ref_pid jit s)) = (protected_map s)(t \<mapsto> jit))"
proof (cases "add_target env pid ref_pid = 0")
  case True
  with assms show ?thesis by (simp add: ac_add_prot_pid_eq)
next
  case False
  let ?t = "add_target env pid ref_pid"
  obtain ret s2 where add: "ac_add_prot_task env ?t jit (hold ?t s) = (ret, s2)" by fastforce
  have eq: "ac_add_prot_pid env pid ref_pid jit s
      = ((ret, Some (strscpy AC_MAX_COMM (task_comm env ?t))), put_task_struct ?t s2)"
    using False add by (simp add: ac_add_prot_pid_eq Let_def)
  have inv: "registry_inv ((\<lambda>_. 0)(?t := 1)) s2"
    using add_prot_task_inv [OF registry_inv_hold [OF assms False] False, of env jit] add by simp
  have "pid_refs s2 = pid_refs s" using pid_refs_add [of env ?t jit "hold ?t s"] add by simp
  moreover have "registry_ok (put_task_struct ?t s2)"
    using registry_ok_hold_put [OF assms False inv] .
  ultimately show ?thesis
    using add_prot_task_cases [OF registry_inv_hold [OF assms False] False, of env jit] add False
    by (auto simp: eq Let_def)
qed

theorem add_prot_pid_balanced_witness:
  "fst (fst (ac_add_prot_pid flat_env 7 3 False registry_init)) = RetOK \<and>
   registry_ok (snd (ac_add_prot_pid flat_env 7 3 False registry_init)) \<and>
   fst (fst (ac_add_prot_pid flat_env 0 0 False registry_init)) = RetErr ESRCH"
proof -
  have "add_target flat_env 7 3 = 7" "add_target flat_env 0 0 = 0"
    by (simp_all add: add_target_def resolve_pid_ns_def resolve_pid_def flat_env_def Let_def)
  then show ?thesis
    using add_prot_pid_balanced [OF registry_init_ok, of flat_env 7 3 False]
      add_prot_pid_balanced [OF registry_init_ok, of flat_env 0 0 False]
    by simp
qed

text \<open>The protected count is the number of protected tasks, at most 64, and the list sent to
  userspace has exactly one item per protected task, in slot order, none of them cut off; the rest of
  the reply is zero.\<close>

theorem list_protected_complete:
  assumes "registry_ok s"
  shows "unat (ac_protected_count s) = card (dom (protected_map s)) \<and>
    card (dom (protected_map s)) \<le> 64 \<and>
    pl_count (ac_list_protected s) = unat (ac_protected_count s) \<and>
    take (pl_count (ac_list_protected s)) (pl_items (ac_list_protected s))
      = map prot_item_of (filter (\<lambda>e. pe_task e \<noteq> 0) (ac_prots s)) \<and>
    drop (pl_count (ac_list_protected s)) (pl_items (ac_list_protected s))
      = replicate (64 - pl_count (ac_list_protected s)) zero_prot_item"
proof -
  have inv: "registry_inv (\<lambda>_. 0) s" using assms by (simp add: registry_ok_def)
  have len: "unat (ac_prot_count s) = length (filter prot_used (ac_prots s))"
    using inv by (simp add: registry_inv_def)
  note card = registry_card [OF inv]
  show ?thesis
    using used_le [OF inv]
    by (simp add: card len ac_protected_count_def ac_list_protected_def Let_def AC_MAX_PROTS_def
        registry_list_eq [OF inv])
qed

theorem list_protected_complete_witness:
  "pl_count (ac_list_protected (snd (ac_add_prot_task flat_env 7 True registry_init))) = 1"
  using list_protected_complete [OF registry_init_add(2) [of 7 flat_env True]]
    registry_init_add(3) [of 7 flat_env True]
  by simp

end
