(* ===== verification/Syscall_Guard.thy ===== *)
theory Syscall_Guard
  imports Event_Ring
begin

unbundle bit_operations_syntax

text \<open>
  Syscall table discovery and integrity checking (src/src/anticheat_module.c, from \<open>ac_lookup\<close> to
  \<open>ac_check_syscalls\<close>, with \<open>ac_module_sane\<close>).

  Kernel memory, kprobe symbol resolution and the list of loaded modules are not part of the
  sources: they are the fields of \<open>kimage\<close>. \<open>kmods\<close> is the list as the walk from
  \<open>&THIS_MODULE->list\<close> visits it: every other entry of the circular list, and so not the module
  itself. Addresses are 64-bit words with C's wrap-around.
\<close>

subsection \<open>The kernel image\<close>

datatype module_state = MODULE_STATE_LIVE | MODULE_STATE_COMING | MODULE_STATE_GOING
  | MODULE_STATE_UNFORMED

record kmodule =
  km_name :: string
  km_state :: module_state
  km_text_base :: u64
  km_text_size :: u32
  km_core_sizes :: "u32 list"

record kimage =
  kprobe_resolve :: "string \<Rightarrow> u64 option"
  kread8 :: "u64 \<Rightarrow> u64 option"
  kread4 :: "u64 \<Rightarrow> u32 option"
  kmods :: "kmodule list"
  within_module_core :: "u64 \<Rightarrow> kmodule \<Rightarrow> bool"
  nr_syscalls :: nat

record ac_text =
  ac_stext :: u64
  ac_etext :: u64
  ac_text_end :: u64
  ac_anchor :: u64
  ac_syscall_table :: u64

definition text_init :: ac_text where
  "text_init = \<lparr>ac_stext = 0, ac_etext = 0, ac_text_end = 0, ac_anchor = 0, ac_syscall_table = 0\<rparr>"

subsection \<open>Symbol resolution\<close>

definition ac_lookup :: "kimage \<Rightarrow> string \<Rightarrow> u64" where
  "ac_lookup img name = (case kprobe_resolve img name of Some addr \<Rightarrow> addr | None \<Rightarrow> 0)"

definition ac_normalize_func :: "kimage \<Rightarrow> u64 \<Rightarrow> u64" where
  "ac_normalize_func img addr =
     (if addr = 0 then 0
      else case kread4 img (addr - 4) of
             Some insn \<Rightarrow> if insn = 0xfa1e0ff3 then addr - 4 else addr
           | None \<Rightarrow> addr)"

definition ac_resolve_text_bounds :: "kimage \<Rightarrow> ac_text \<Rightarrow> ac_text" where
  "ac_resolve_text_bounds img t =
     (let stext0 = ac_lookup img ''_stext'';
          stext = (if stext0 = 0 then ac_lookup img ''_text'' else stext0);
          etext0 = ac_lookup img ''_etext'';
          etext = (if etext0 = 0 then ac_lookup img ''_sinittext'' else etext0)
      in t\<lparr>ac_stext := stext, ac_etext := etext,
           ac_text_end := (if etext \<noteq> 0 then etext
                           else if stext \<noteq> 0 then stext + 0x20000000
                           else ac_text_end t)\<rparr>)"

subsection \<open>Classifying an address\<close>

definition ac_module_sane :: "kmodule \<Rightarrow> bool" where
  "ac_module_sane m =
     (if km_state m \<noteq> MODULE_STATE_LIVE then False
      else if km_text_base m = 0 \<or> km_text_size m = 0 then False
      else if km_text_size m > 0x40000000 then False
      else True)"

definition ac_addr_in_module :: "kimage \<Rightarrow> u64 \<Rightarrow> bool" where
  "ac_addr_in_module img addr =
     list_ex (\<lambda>m. ac_module_sane m \<and> within_module_core img addr m) (kmods img)"

definition ac_in_core_text :: "kimage \<Rightarrow> ac_text \<Rightarrow> u64 \<Rightarrow> bool" where
  "ac_in_core_text img t addr =
     (if ac_stext t = 0 \<or> ac_text_end t = 0 then False
      else if addr < ac_stext t \<or> addr \<ge> ac_text_end t then False
      else if ac_addr_in_module img addr then False
      else True)"

definition ac_plausible_handler :: "kimage \<Rightarrow> u64 \<Rightarrow> u64 \<Rightarrow> bool" where
  "ac_plausible_handler img e anchor =
     (if e = 0 then False
      else if ac_addr_in_module img e then False
      else e > anchor - 0x4000000 \<and> e < anchor + 0x4000000)"

definition ac_entry_bad :: "kimage \<Rightarrow> ac_text \<Rightarrow> u64 \<Rightarrow> bool" where
  "ac_entry_bad img t e =
     (if ac_stext t \<noteq> 0 \<and> ac_text_end t \<noteq> 0 then \<not> ac_in_core_text img t e
      else \<not> ac_plausible_handler img e (ac_anchor t))"

subsection \<open>Finding the table\<close>

definition NR_read :: nat where [ac_consts]: "NR_read = 0"
definition NR_write :: nat where [ac_consts]: "NR_write = 1"

definition entry_addr :: "u64 \<Rightarrow> nat \<Rightarrow> u64" where
  "entry_addr base i = base + of_nat i * 8"

fun table_plausible_loop :: "kimage \<Rightarrow> u64 \<Rightarrow> u64 \<Rightarrow> nat list \<Rightarrow> nat \<Rightarrow> bool" where
  "table_plausible_loop img base anchor [] valid = (valid \<ge> 400)"
| "table_plausible_loop img base anchor (i # is) valid =
     (case kread8 img (entry_addr base i) of
        None \<Rightarrow> table_plausible_loop img base anchor is valid
      | Some e \<Rightarrow>
          if e = 0 then table_plausible_loop img base anchor is valid
          else if ac_plausible_handler img e anchor
          then (if valid + 1 \<ge> 400 then True else table_plausible_loop img base anchor is (valid + 1))
          else table_plausible_loop img base anchor is valid)"

definition ac_table_plausible :: "kimage \<Rightarrow> u64 \<Rightarrow> u64 \<Rightarrow> bool" where
  "ac_table_plausible img base anchor =
     table_plausible_loop img base anchor [0..<nr_syscalls img] 0"

fun derive_bounds_loop :: "kimage \<Rightarrow> u64 \<Rightarrow> u64 \<Rightarrow> nat list \<Rightarrow> u64 \<times> u64 \<Rightarrow> u64 \<times> u64" where
  "derive_bounds_loop img base anchor [] lohi = lohi"
| "derive_bounds_loop img base anchor (i # is) (lo, hi) =
     derive_bounds_loop img base anchor is
       (case kread8 img (entry_addr base i) of
          None \<Rightarrow> (lo, hi)
        | Some e \<Rightarrow>
            if \<not> ac_plausible_handler img e anchor then (lo, hi)
            else (if lo = 0 \<or> e < lo then e else lo, if e > hi then e else hi))"

definition ac_derive_bounds :: "kimage \<Rightarrow> u64 \<Rightarrow> u64 \<Rightarrow> ac_text \<Rightarrow> ac_text" where
  "ac_derive_bounds img base anchor t =
     (let (lo, hi) = derive_bounds_loop img base anchor [0..<nr_syscalls img] (0, 0) in
      if lo \<noteq> 0 \<and> hi \<noteq> 0
      then t\<lparr>ac_stext := (if ac_stext t = 0 then lo AND NOT 0x1FFFFF else ac_stext t),
             ac_text_end := (if ac_text_end t = 0 then (hi + 0x1FFFFF) AND NOT 0x1FFFFF
                             else ac_text_end t)\<rparr>
      else t)"

text \<open>The body of both search loops: the table base when the slot at \<open>addr\<close> is accepted.\<close>

definition table_candidate :: "kimage \<Rightarrow> u64 \<Rightarrow> u64 \<Rightarrow> u64 \<Rightarrow> u64 option" where
  "table_candidate img rh wh addr =
     (case kread8 img addr of
        None \<Rightarrow> None
      | Some v1 \<Rightarrow>
          if v1 \<noteq> rh then None
          else let base = addr - of_nat NR_read * 8 in
               case kread8 img (entry_addr base NR_write) of
                 None \<Rightarrow> None
               | Some v2 \<Rightarrow> if v2 = wh \<and> ac_table_plausible img base rh then Some base else None)"

text \<open>The two loops count their iterations down from a fuel that is proved to be enough.\<close>

datatype scan_result = Found u64 | NotFound | OutOfFuel

fun scan_forward :: "kimage \<Rightarrow> u64 \<Rightarrow> u64 \<Rightarrow> nat \<Rightarrow> u64 \<Rightarrow> u64 \<Rightarrow> scan_result" where
  "scan_forward img rh wh 0 addr hi = OutOfFuel"
| "scan_forward img rh wh (Suc n) addr hi =
     (if addr < hi
      then (case table_candidate img rh wh addr of
              Some base \<Rightarrow> Found base
            | None \<Rightarrow> scan_forward img rh wh n (addr + 8) hi)
      else NotFound)"

fun scan_backward :: "kimage \<Rightarrow> u64 \<Rightarrow> u64 \<Rightarrow> nat \<Rightarrow> u64 \<Rightarrow> u64 \<Rightarrow> scan_result" where
  "scan_backward img rh wh 0 addr lo = OutOfFuel"
| "scan_backward img rh wh (Suc n) addr lo =
     (if addr > lo
      then (case table_candidate img rh wh addr of
              Some base \<Rightarrow> Found base
            | None \<Rightarrow> scan_backward img rh wh n (addr - 8) lo)
      else NotFound)"

definition scan_fuel :: nat where
  "scan_fuel = Suc (0x2000000 div 8)"

definition table_scan :: "kimage \<Rightarrow> ac_text \<Rightarrow> u64 \<Rightarrow> u64 \<Rightarrow> scan_result" where
  "table_scan img t rh wh =
     (let lo = (if ac_etext t \<noteq> 0 then ac_etext t else if ac_stext t \<noteq> 0 then ac_stext t else rh);
          hi = lo + 0x2000000
      in case scan_forward img rh wh scan_fuel lo hi of
           NotFound \<Rightarrow> scan_backward img rh wh scan_fuel rh (rh - 0x2000000)
         | r \<Rightarrow> r)"

text \<open>Returns the table address, 0 when it was not found, and the updated bounds.\<close>

definition ac_find_syscall_table :: "kimage \<Rightarrow> ac_text \<Rightarrow> u64 \<times> ac_text" where
  "ac_find_syscall_table img t =
     (let rh = ac_normalize_func img (ac_lookup img ''__x64_sys_read'');
          wh = ac_normalize_func img (ac_lookup img ''__x64_sys_write'')
      in if rh = 0 \<or> wh = 0 then (0, t)
         else case table_scan img t rh wh of
                Found base \<Rightarrow> (base, ac_derive_bounds img base rh (t\<lparr>ac_anchor := rh\<rparr>))
              | _ \<Rightarrow> (0, t))"

subsection \<open>Checking the table\<close>

record ac_syscall_check =
  sc_table_addr :: u64
  sc_nr_syscalls :: nat
  sc_total :: nat
  sc_non_text :: nat
  sc_hooked :: nat
  sc_ok :: bool

definition zero_syscall_check :: ac_syscall_check where
  "zero_syscall_check = \<lparr>sc_table_addr = 0, sc_nr_syscalls = 0, sc_total = 0, sc_non_text = 0,
                         sc_hooked = 0, sc_ok = False\<rparr>"

definition hook_message :: "nat \<Rightarrow> u64 \<Rightarrow> string" where
  "hook_message i e =
     ''syscall['' @ show_nat i @ ''] -> 0x'' @ show_hex (unat e) @ '' outside core kernel text''"

fun check_syscalls_loop ::
  "kimage \<Rightarrow> ac_text \<Rightarrow> (nat \<Rightarrow> u64) \<Rightarrow> u64 \<Rightarrow> nat list \<Rightarrow> ac_syscall_check \<times> ac_ring_state
     \<Rightarrow> ac_syscall_check \<times> ac_ring_state"
where
  "check_syscalls_loop img t clk base [] acc = acc"
| "check_syscalls_loop img t clk base (i # is) (out, r) =
     check_syscalls_loop img t clk base is
       (case kread8 img (entry_addr base i) of
          None \<Rightarrow> (out, r)
        | Some e \<Rightarrow>
            if e = 0 then (out, r)
            else let out1 = out\<lparr>sc_total := sc_total out + 1\<rparr> in
                 if ac_entry_bad img t e
                 then (out1\<lparr>sc_non_text := sc_non_text out1 + 1, sc_hooked := sc_hooked out1 + 1\<rparr>,
                       ac_emit (clk i) AC_EV_SYSCALL_HOOK 0 (Some ''?'') (hook_message i e) r)
                 else (out1, r))"

definition ac_check_syscalls ::
  "kimage \<Rightarrow> ac_text \<Rightarrow> (nat \<Rightarrow> u64) \<Rightarrow> ac_ring_state
     \<Rightarrow> (kret \<times> ac_syscall_check) \<times> ac_ring_state"
where
  "ac_check_syscalls img t clk r =
     (let base = ac_syscall_table t;
          out = zero_syscall_check\<lparr>sc_table_addr := base\<rparr>
      in if base = 0 then ((RetErr ENODEV, out), r)
         else let (out1, r1) = check_syscalls_loop img t clk base [0..<nr_syscalls img]
                                 (out\<lparr>sc_nr_syscalls := nr_syscalls img\<rparr>, r)
              in ((RetOK, out1\<lparr>sc_ok := (sc_hooked out1 = 0)\<rparr>), r1))"

subsection \<open>Rounding to 2 MB\<close>

lemma unat_round_down:
  "unat ((x::'a::len word) AND NOT (mask n)) = unat x div 2 ^ n * 2 ^ n"
proof -
  have "unat (x AND NOT (mask n)) = push_bit n (drop_bit n (unat x))"
    by (rule bit_eqI) (auto simp: bit_simps dest: bit_imp_le_length)
  then show ?thesis by (simp add: push_bit_eq_mult drop_bit_eq_div)
qed

lemma mask_2MB: "(0x1FFFFF :: u64) = mask 21"
  by (simp add: mask_eq_exp_minus_1)

lemma round_2MB_down: "unat ((x :: u64) AND NOT 0x1FFFFF) = unat x div 0x200000 * 0x200000"
  unfolding mask_2MB unat_round_down by simp

lemma round_2MB_up:
  assumes "unat (x :: u64) + 0x1FFFFF < 2 ^ 64"
  shows "unat ((x + 0x1FFFFF) AND NOT 0x1FFFFF) = (unat x + 0x1FFFFF) div 0x200000 * 0x200000"
proof -
  have "unat (x + 0x1FFFFF) = unat x + 0x1FFFFF"
    using assms by (subst unat_add_lem [THEN iffD1]) simp_all
  then show ?thesis by (simp only: round_2MB_down)
qed

lemma nat_round_up_le:
  assumes "0 < m"
  shows "(h :: nat) \<le> (h + (m - 1)) div m * m"
proof -
  have "(h + (m - 1)) mod m \<le> m - 1" using assms mod_less_divisor [of m "h + (m - 1)"] by linarith
  then show ?thesis by (simp add: div_mult_mod_eq minus_mod_eq_div_mult [symmetric])
qed

lemma nat_round_up_eq:
  assumes "0 < m"
  shows "(h + (m - 1)) div m * m \<le> (h :: nat) \<longleftrightarrow> m dvd h"
proof
  assume "(h + (m - 1)) div m * m \<le> h"
  with nat_round_up_le [OF assms, of h] have "(h + (m - 1)) div m * m = h" by simp
  then show "m dvd h" by (metis dvd_triv_right)
next
  assume "m dvd h"
  then obtain k where "h = m * k" by blast
  have "(m - 1 + k * m) div m = k"
    using assms by (subst div_mult_self1) (simp_all add: div_less del: One_nat_def)
  with \<open>h = m * k\<close> show "(h + (m - 1)) div m * m \<le> h"
    by (simp add: add.commute mult.commute del: One_nat_def)
qed

subsection \<open>The entries of a table\<close>

fun table_entries :: "kimage \<Rightarrow> u64 \<Rightarrow> nat list \<Rightarrow> (nat \<times> u64) list" where
  "table_entries img base [] = []"
| "table_entries img base (i # is) =
     (case kread8 img (entry_addr base i) of
        Some e \<Rightarrow> if e = 0 then [] else [(i, e)]
      | None \<Rightarrow> []) @ table_entries img base is"

lemma set_table_entries:
  "(i, e) \<in> set (table_entries img base is) \<longleftrightarrow>
     i \<in> set is \<and> kread8 img (entry_addr base i) = Some e \<and> e \<noteq> 0"
proof (induction "is")
  case (Cons j "is")
  then show ?case by (cases "kread8 img (entry_addr base j)") auto
qed simp

fun handlers_at :: "kimage \<Rightarrow> u64 \<Rightarrow> u64 \<Rightarrow> nat list \<Rightarrow> u64 list" where
  "handlers_at img base anchor [] = []"
| "handlers_at img base anchor (i # is) =
     (case kread8 img (entry_addr base i) of
        Some e \<Rightarrow> if ac_plausible_handler img e anchor then [e] else []
      | None \<Rightarrow> []) @ handlers_at img base anchor is"

abbreviation handlers :: "kimage \<Rightarrow> u64 \<Rightarrow> u64 \<Rightarrow> u64 list" where
  "handlers img base anchor \<equiv> handlers_at img base anchor [0..<nr_syscalls img]"

lemma ac_plausible_handler_0 [simp]: "\<not> ac_plausible_handler img 0 anchor"
  by (simp add: ac_plausible_handler_def)

lemma set_handlers_at:
  "e \<in> set (handlers_at img base anchor is) \<longleftrightarrow>
     (\<exists>i \<in> set is. kread8 img (entry_addr base i) = Some e) \<and> ac_plausible_handler img e anchor"
proof (induction "is")
  case (Cons j "is")
  then show ?case by (cases "kread8 img (entry_addr base j)") auto
qed simp

lemma table_plausible_loop_eq:
  "table_plausible_loop img base anchor is v \<longleftrightarrow>
     400 \<le> v + length (handlers_at img base anchor is)"
proof (induction "is" arbitrary: v)
  case (Cons j "is")
  then show ?case by (cases "kread8 img (entry_addr base j)") auto
qed simp

lemma ac_table_plausible_iff:
  "ac_table_plausible img base anchor \<longleftrightarrow> 400 \<le> length (handlers img base anchor)"
  by (simp add: ac_table_plausible_def table_plausible_loop_eq)

subsection \<open>Derived bounds\<close>

definition widen :: "u64 \<times> u64 \<Rightarrow> u64 \<Rightarrow> u64 \<times> u64" where
  "widen = (\<lambda>(lo, hi) e. (if lo = 0 \<or> e < lo then e else lo, if e > hi then e else hi))"

lemma derive_bounds_loop_foldl:
  "derive_bounds_loop img base anchor is lohi = foldl widen lohi (handlers_at img base anchor is)"
proof (induction "is" arbitrary: lohi)
  case (Cons j "is")
  then show ?case
    by (cases lohi; cases "kread8 img (entry_addr base j)") (simp_all add: widen_def)
qed simp

lemma foldl_widen:
  assumes "0 \<notin> set es" "lo \<noteq> 0"
  shows "foldl widen (lo, hi) es = (Min (insert lo (set es)), Max (insert hi (set es)))"
  using assms
proof (induction es arbitrary: lo hi)
  case (Cons e es)
  have w: "widen (lo, hi) e = (min lo e, max hi e)"
    using Cons.prems by (auto simp: widen_def min_def max_def)
  have "min lo e \<noteq> 0" using Cons.prems by (auto simp: min_def)
  with Cons.IH [of "min lo e" "max hi e"] Cons.prems
  have "foldl widen (lo, hi) (e # es)
      = (Min (insert (min lo e) (set es)), Max (insert (max hi e) (set es)))"
    by (simp add: w)
  then show ?case by (cases "es = []") (simp_all add: ac_simps)
qed simp

lemma derive_bounds_loop_eq:
  "derive_bounds_loop img base anchor is (0, 0) =
     (let T = set (handlers_at img base anchor is) in if T = {} then (0, 0) else (Min T, Max T))"
proof (cases "handlers_at img base anchor is")
  case Nil
  then show ?thesis by (simp add: derive_bounds_loop_foldl)
next
  case (Cons e es)
  then have "0 \<notin> set (e # es)" by (metis ac_plausible_handler_0 set_handlers_at)
  then show ?thesis
    using foldl_widen [of es e e]
    by (simp add: derive_bounds_loop_foldl Cons Let_def widen_def [THEN fun_cong, THEN fun_cong] word_gt_0)
qed

subsection \<open>The search loops end and find the first acceptable slot\<close>

lemma unat_step:
  assumes "unat (hi :: u64) = unat addr + 8 * Suc m"
  shows "addr < hi" "unat hi = unat (addr + 8) + 8 * m"
proof -
  have "unat addr + 8 < 2 ^ 64" using assms unsigned_less [of hi, where 'a = nat] by simp
  then have "unat (addr + 8) = unat addr + 8" by (subst unat_add_lem [THEN iffD1]) simp_all
  with assms show "addr < hi" "unat hi = unat (addr + 8) + 8 * m"
    by (simp_all add: word_less_nat_alt)
qed

lemma scan_forward_cases:
  assumes "unat hi = unat addr + 8 * m" "m < n"
  shows "scan_forward img rh wh n addr hi = NotFound \<and>
           (\<forall>k < m. table_candidate img rh wh (addr + of_nat (8 * k)) = None) \<or>
         (\<exists>k < m. \<exists>base. scan_forward img rh wh n addr hi = Found base \<and>
            table_candidate img rh wh (addr + of_nat (8 * k)) = Some base \<and>
            (\<forall>j < k. table_candidate img rh wh (addr + of_nat (8 * j)) = None))"
  using assms
proof (induction m arbitrary: n addr)
  case 0
  then obtain n' where "n = Suc n'" by (cases n) auto
  with 0 show ?case by (simp add: word_less_nat_alt)
next
  case (Suc m)
  then obtain n' where n: "n = Suc n'" "m < n'" by (cases n) auto
  note st = unat_step [OF Suc.prems(1)]
  have shift: "addr + of_nat (8 * Suc k) = (addr + 8) + of_nat (8 * k)" for k
    by (simp add: ac_simps)
  show ?case
  proof (cases "table_candidate img rh wh addr")
    case None
    then have eq: "scan_forward img rh wh n addr hi = scan_forward img rh wh n' (addr + 8) hi"
      using st(1) n(1) by simp
    have all: "(\<forall>k < Suc m'. table_candidate img rh wh (addr + of_nat (8 * k)) = None) \<longleftrightarrow>
               (\<forall>k < m'. table_candidate img rh wh ((addr + 8) + of_nat (8 * k)) = None)" for m'
      unfolding All_less_Suc2 shift using None by simp
    from Suc.IH [OF st(2) n(2)] show ?thesis
    proof (elim disjE exE conjE, goal_cases)
      case 1
      with all [of m] eq show ?case by simp
    next
      case (2 k base)
      with all [of k] eq shift [of k] show ?case
        by (intro disjI2 exI [of _ "Suc k"] exI [of _ base]) (simp add: add.assoc)
    qed
  next
    case (Some base)
    then show ?thesis using st(1) n(1) by (intro disjI2 exI [of _ 0]) simp
  qed
qed

lemma unat_step_back:
  assumes "unat (addr :: u64) = unat lo + 8 * Suc m"
  shows "lo < addr" "unat (addr - 8) = unat lo + 8 * m"
proof -
  have "(8 :: u64) \<le> addr" using assms by (simp add: word_le_nat_alt)
  then have "unat (addr - 8) = unat addr - 8" by (simp add: unat_sub)
  with assms show "lo < addr" "unat (addr - 8) = unat lo + 8 * m"
    by (simp_all add: word_less_nat_alt)
qed

lemma scan_backward_cases:
  assumes "unat addr = unat lo + 8 * m" "m < n"
  shows "scan_backward img rh wh n addr lo = NotFound \<and>
           (\<forall>k < m. table_candidate img rh wh (addr - of_nat (8 * k)) = None) \<or>
         (\<exists>k < m. \<exists>base. scan_backward img rh wh n addr lo = Found base \<and>
            table_candidate img rh wh (addr - of_nat (8 * k)) = Some base \<and>
            (\<forall>j < k. table_candidate img rh wh (addr - of_nat (8 * j)) = None))"
  using assms
proof (induction m arbitrary: n addr)
  case 0
  then obtain n' where "n = Suc n'" by (cases n) auto
  with 0 show ?case by (simp add: word_less_nat_alt)
next
  case (Suc m)
  then obtain n' where n: "n = Suc n'" "m < n'" by (cases n) auto
  note st = unat_step_back [OF Suc.prems(1)]
  have shift: "addr - of_nat (8 * Suc k) = (addr - 8) - of_nat (8 * k)" for k
    by (simp add: algebra_simps)
  show ?case
  proof (cases "table_candidate img rh wh addr")
    case None
    then have eq: "scan_backward img rh wh n addr lo = scan_backward img rh wh n' (addr - 8) lo"
      using st(1) n(1) by simp
    have all: "(\<forall>k < Suc m'. table_candidate img rh wh (addr - of_nat (8 * k)) = None) \<longleftrightarrow>
               (\<forall>k < m'. table_candidate img rh wh ((addr - 8) - of_nat (8 * k)) = None)" for m'
      unfolding All_less_Suc2 shift using None by simp
    from Suc.IH [OF st(2) n(2)] show ?thesis
    proof (elim disjE exE conjE, goal_cases)
      case 1
      with all [of m] eq show ?case by simp
    next
      case (2 k base)
      with all [of k] eq shift [of k] show ?case
        by (intro disjI2 exI [of _ "Suc k"] exI [of _ base]) (simp add: diff_diff_eq)
    qed
  next
    case (Some base)
    then show ?thesis using st(1) n(1) by (intro disjI2 exI [of _ 0]) simp
  qed
qed

lemma table_candidate_iff:
  "table_candidate img rh wh a = Some b \<longleftrightarrow>
     b = a \<and> kread8 img a = Some rh \<and> kread8 img (a + 8) = Some wh \<and>
     400 \<le> length (handlers img a rh)"
  by (cases "kread8 img a"; cases "kread8 img (a + 8)")
    (auto simp: table_candidate_def entry_addr_def NR_read_def NR_write_def ac_table_plausible_iff)

definition scan_start :: "ac_text \<Rightarrow> u64 \<Rightarrow> u64" where
  "scan_start t rh =
     (if ac_etext t \<noteq> 0 then ac_etext t else if ac_stext t \<noteq> 0 then ac_stext t else rh)"

lemma table_scan_eq:
  "table_scan img t rh wh =
     (case scan_forward img rh wh scan_fuel (scan_start t rh) (scan_start t rh + 0x2000000) of
        NotFound \<Rightarrow> scan_backward img rh wh scan_fuel rh (rh - 0x2000000)
      | r \<Rightarrow> r)"
  by (simp add: table_scan_def scan_start_def Let_def split: scan_result.split)

lemma scan_fuel_enough: "0x400000 < scan_fuel"
  by (simp add: scan_fuel_def)

lemma window_end:
  fixes lo :: u64
  shows "unat lo + 0x2000000 < 2 ^ 64 \<Longrightarrow> unat (lo + 0x2000000) = unat lo + 8 * 0x400000"
    and "\<not> unat lo + 0x2000000 < 2 ^ 64 \<Longrightarrow> \<not> lo < lo + 0x2000000"
proof -
  assume "unat lo + 0x2000000 < 2 ^ 64"
  then show "unat (lo + 0x2000000) = unat lo + 8 * 0x400000"
    by (subst unat_add_lem [THEN iffD1]) simp_all
next
  assume "\<not> unat lo + 0x2000000 < 2 ^ 64"
  moreover have "unat lo < 2 ^ 64" using unsigned_less [of lo, where 'a = nat] by simp
  ultimately show "\<not> lo < lo + 0x2000000"
    by (simp add: word_less_nat_alt unat_plus_if')
qed

lemma scan_forward_window:
  fixes lo :: u64
  shows "scan_forward img rh wh scan_fuel lo (lo + 0x2000000) \<noteq> OutOfFuel"
    and "scan_forward img rh wh scan_fuel lo (lo + 0x2000000) = Found base \<Longrightarrow>
           \<exists>a. table_candidate img rh wh a = Some base"
proof -
  have "scan_forward img rh wh scan_fuel lo (lo + 0x2000000) = NotFound \<or>
    (\<exists>b a. scan_forward img rh wh scan_fuel lo (lo + 0x2000000) = Found b \<and>
           table_candidate img rh wh a = Some b)"
  proof (cases "unat lo + 0x2000000 < 2 ^ 64")
    case True
    from scan_forward_cases [OF window_end(1) [OF True] scan_fuel_enough] show ?thesis by blast
  next
    case False
    then show ?thesis using window_end(2) [OF False] by (simp add: scan_fuel_def scan_forward.simps(2) del: Suc_numeral)
  qed
  then show "scan_forward img rh wh scan_fuel lo (lo + 0x2000000) \<noteq> OutOfFuel"
    "scan_forward img rh wh scan_fuel lo (lo + 0x2000000) = Found base \<Longrightarrow>
       \<exists>a. table_candidate img rh wh a = Some base"
    by auto
qed

lemma window_begin:
  fixes rh :: u64
  shows "0x2000000 \<le> unat rh \<Longrightarrow> unat rh = unat (rh - 0x2000000) + 8 * 0x400000"
    and "\<not> 0x2000000 \<le> unat rh \<Longrightarrow> \<not> rh - 0x2000000 < rh"
  by (simp_all add: unat_sub word_le_nat_alt word_less_nat_alt unat_sub_if')

lemma scan_backward_window:
  fixes rh :: u64
  shows "scan_backward img rh wh scan_fuel rh (rh - 0x2000000) \<noteq> OutOfFuel"
    and "scan_backward img rh wh scan_fuel rh (rh - 0x2000000) = Found base \<Longrightarrow>
           \<exists>a. table_candidate img rh wh a = Some base"
proof -
  have "scan_backward img rh wh scan_fuel rh (rh - 0x2000000) = NotFound \<or>
    (\<exists>b a. scan_backward img rh wh scan_fuel rh (rh - 0x2000000) = Found b \<and>
           table_candidate img rh wh a = Some b)"
  proof (cases "0x2000000 \<le> unat rh")
    case True
    from scan_backward_cases [OF window_begin(1) [OF True] scan_fuel_enough] show ?thesis by blast
  next
    case False
    then show ?thesis using window_begin(2) [OF False] by (simp add: scan_fuel_def scan_backward.simps(2) del: Suc_numeral)
  qed
  then show "scan_backward img rh wh scan_fuel rh (rh - 0x2000000) \<noteq> OutOfFuel"
    "scan_backward img rh wh scan_fuel rh (rh - 0x2000000) = Found base \<Longrightarrow>
       \<exists>a. table_candidate img rh wh a = Some base"
    by auto
qed

lemma table_scan_Found:
  "table_scan img t rh wh = Found base \<Longrightarrow> table_candidate img rh wh base = Some base"
  using scan_forward_window(2) [of img rh wh "scan_start t rh" base] scan_backward_window(2) [of img rh wh base]
  by (auto simp: table_scan_eq table_candidate_iff split: scan_result.splits)

lemma ac_anchor_derive [simp]: "ac_anchor (ac_derive_bounds img base anchor t) = ac_anchor t"
  by (simp add: ac_derive_bounds_def Let_def split: prod.split)

subsection \<open>The verdict\<close>

abbreviation report_hook :: "(nat \<Rightarrow> u64) \<Rightarrow> nat \<times> u64 \<Rightarrow> ac_ring_state \<Rightarrow> ac_ring_state" where
  "report_hook clk \<equiv>
     (\<lambda>(i, e). ac_emit (clk i) AC_EV_SYSCALL_HOOK 0 (Some ''?'') (hook_message i e))"

lemma check_syscalls_loop_eq:
  "check_syscalls_loop img t clk base is (out, r) =
     (let es = table_entries img base is; bad = filter (\<lambda>(i, e). ac_entry_bad img t e) es
      in (out\<lparr>sc_total := sc_total out + length es, sc_non_text := sc_non_text out + length bad,
              sc_hooked := sc_hooked out + length bad\<rparr>,
          fold (report_hook clk) bad r))"
proof (induction "is" arbitrary: out r)
  case (Cons j "is")
  then show ?case
    by (cases "kread8 img (entry_addr base j)") (simp_all add: Let_def)
qed simp

lemma ac_entry_bad_iff:
  "ac_entry_bad img t e \<longleftrightarrow>
     e = 0 \<and> \<not> (ac_stext t \<noteq> 0 \<and> ac_text_end t \<noteq> 0) \<or> ac_addr_in_module img e \<or>
     (if ac_stext t \<noteq> 0 \<and> ac_text_end t \<noteq> 0
      then e < ac_stext t \<or> ac_text_end t \<le> e
      else e \<le> ac_anchor t - 0x4000000 \<or> ac_anchor t + 0x4000000 \<le> e)"
  by (auto simp: ac_entry_bad_def ac_in_core_text_def ac_plausible_handler_def)

subsection \<open>Properties\<close>

text \<open>An image whose readable memory is one table of 450 handlers, used by the witnesses.\<close>

definition demo_image :: kimage where
  "demo_image = \<lparr>
     kprobe_resolve = (\<lambda>n. if n = ''__x64_sys_read'' then Some 0x81000010
                           else if n = ''__x64_sys_write'' then Some 0x81000020
                           else if n = ''_etext'' then Some 0x82000000 else None),
     kread8 = (\<lambda>a. if a = 0x82000008 then Some 0x81000020
                   else if a < 0x82000000 then None else Some 0x81000010),
     kread4 = (\<lambda>_. None), kmods = [], within_module_core = (\<lambda>_ _. False), nr_syscalls = 450\<rparr>"

definition demo_text :: ac_text where
  "demo_text = text_init\<lparr>ac_etext := 0x82000000\<rparr>"

lemma handlers_at_all:
  assumes "\<forall>i \<in> set is. \<exists>e. kread8 img (entry_addr base i) = Some e \<and> ac_plausible_handler img e anchor"
  shows "length (handlers_at img base anchor is) = length is"
  using assms by (induction "is") auto

lemma demo_handlers: "length (handlers demo_image 0x82000000 0x81000010) = 450"
proof -
  have "\<exists>e. kread8 demo_image (entry_addr 0x82000000 i) = Some e \<and>
            ac_plausible_handler demo_image e 0x81000010" if "i < 450" for i
  proof -
    have "unat (entry_addr 0x82000000 i) = 0x82000000 + 8 * i"
      using that by (simp add: entry_addr_def unat_word_ariths unsigned_of_nat take_bit_nat_eq_self)
    then have "\<not> entry_addr 0x82000000 i < 0x82000000" by (simp add: word_less_nat_alt)
    then show ?thesis
      by (auto simp: demo_image_def ac_plausible_handler_def ac_addr_in_module_def)
  qed
  then have "length (handlers demo_image 0x82000000 0x81000010) = length [0..<nr_syscalls demo_image]"
    by (intro handlers_at_all) (auto simp: demo_image_def)
  then show ?thesis by (simp add: demo_image_def)
qed

lemma demo_candidate:
  "table_candidate demo_image 0x81000010 0x81000020 0x82000000 = Some 0x82000000"
  unfolding table_candidate_iff demo_handlers by (simp add: demo_image_def)

lemma demo_lookups:
  "ac_normalize_func demo_image (ac_lookup demo_image ''__x64_sys_read'') = 0x81000010"
  "ac_normalize_func demo_image (ac_lookup demo_image ''__x64_sys_write'') = 0x81000020"
  by (simp_all add: ac_normalize_func_def ac_lookup_def demo_image_def)

text \<open>C18. The search for the syscall table ends: neither the forward scan of the 32 MB window nor
  the backward fallback ever runs out of its fuel, whatever the memory holds and wherever the window
  starts, including windows that wrap around the address space.\<close>

theorem table_search_terminates:
  "table_scan img t rh wh \<noteq> OutOfFuel"
  using scan_forward_window(1) scan_backward_window(1)
  by (auto simp: table_scan_eq split: scan_result.splits)

text \<open>A table that the search reports is one: its read and write slots hold the two resolved
  handlers and at least 400 of its entries are plausible handlers around the read handler, which
  becomes the anchor of later checks.\<close>

theorem find_syscall_table_sound:
  assumes "ac_find_syscall_table img t = (base, t')" "base \<noteq> 0"
  shows "\<exists>rh wh. rh = ac_normalize_func img (ac_lookup img ''__x64_sys_read'') \<and>
           wh = ac_normalize_func img (ac_lookup img ''__x64_sys_write'') \<and> rh \<noteq> 0 \<and> wh \<noteq> 0 \<and>
           kread8 img base = Some rh \<and> kread8 img (base + 8) = Some wh \<and>
           400 \<le> length (handlers img base rh) \<and> ac_anchor t' = rh"
proof -
  define rh where "rh = ac_normalize_func img (ac_lookup img ''__x64_sys_read'')"
  define wh where "wh = ac_normalize_func img (ac_lookup img ''__x64_sys_write'')"
  have "rh \<noteq> 0" "wh \<noteq> 0" "table_scan img t rh wh = Found base" "ac_anchor t' = rh"
    using assms unfolding ac_find_syscall_table_def Let_def rh_def [symmetric] wh_def [symmetric]
    by (auto split: if_splits scan_result.splits)
  with table_scan_Found [of img t rh wh base] show ?thesis
    unfolding rh_def [symmetric] wh_def [symmetric] by (auto simp: table_candidate_iff)
qed

text \<open>C19. The search is complete on its forward window: if the window does not wrap, the first
  8-byte slot of it that looks like the table is the address that is reported.\<close>

theorem find_syscall_table_complete:
  assumes "rh = ac_normalize_func img (ac_lookup img ''__x64_sys_read'')" "rh \<noteq> 0"
    and "wh = ac_normalize_func img (ac_lookup img ''__x64_sys_write'')" "wh \<noteq> 0"
    and "lo = scan_start t rh" "unat lo + 0x2000000 < 2 ^ 64" "k < 0x400000"
    and "table_candidate img rh wh (lo + of_nat (8 * k)) \<noteq> None"
    and "\<forall>j < k. table_candidate img rh wh (lo + of_nat (8 * j)) = None"
  shows "fst (ac_find_syscall_table img t) = lo + of_nat (8 * k)"
proof -
  from scan_forward_cases [OF window_end(1) [OF assms(6)] scan_fuel_enough, of img rh wh] assms(7,8)
  obtain m base where m: "scan_forward img rh wh scan_fuel lo (lo + 0x2000000) = Found base"
      "table_candidate img rh wh (lo + of_nat (8 * m)) = Some base"
      "\<forall>j < m. table_candidate img rh wh (lo + of_nat (8 * j)) = None"
    by (elim disjE conjE exE) (use assms(7,8) in \<open>simp, metis\<close>)
  then have "m = k" using assms(8,9) by (metis linorder_neqE_nat option.distinct(1))
  with m(2) have "base = lo + of_nat (8 * k)" by (simp add: table_candidate_iff)
  then show ?thesis
    using m(1) assms(2,4) unfolding assms(5)
    by (simp add: ac_find_syscall_table_def Let_def assms(1,3) [symmetric] table_scan_eq)
qed

theorem find_syscall_table_complete_witness:
  "fst (ac_find_syscall_table demo_image demo_text) = 0x82000000"
  using find_syscall_table_complete [of "0x81000010" demo_image "0x81000020" "0x82000000" demo_text 0]
    demo_lookups demo_candidate
  by (simp add: demo_text_def scan_start_def)

lemma demo_found: "fst (ac_find_syscall_table demo_image demo_text) = 0x82000000"
proof -
  have "scan_start demo_text 0x81000010 = 0x82000000" by (simp add: scan_start_def demo_text_def)
  moreover have "scan_forward demo_image 0x81000010 0x81000020 scan_fuel 0x82000000 0x84000000 = Found 0x82000000"
    by (simp add: scan_fuel_def demo_candidate scan_forward.simps(2) del: Suc_numeral)
  ultimately show ?thesis
    by (simp add: ac_find_syscall_table_def Let_def demo_lookups table_scan_eq)
qed

theorem find_syscall_table_sound_witness:
  "\<exists>rh. kread8 demo_image (fst (ac_find_syscall_table demo_image demo_text)) = Some rh \<and>
        400 \<le> length (handlers demo_image 0x82000000 rh)"
  using find_syscall_table_sound [of demo_image demo_text "0x82000000"
      "snd (ac_find_syscall_table demo_image demo_text)"] demo_found
  by (auto simp: prod_eq_iff)

text \<open>With the table located, one integrity check reports exactly: the number of readable
  non-NULL entries, the number of those classified as bad, the verdict that there are none, and one
  hook event per bad entry in table order.\<close>

theorem check_syscalls_exact:
  assumes "ac_syscall_table t \<noteq> 0"
  shows "let es = table_entries img (ac_syscall_table t) [0..<nr_syscalls img];
             bad = filter (\<lambda>(i, e). ac_entry_bad img t e) es
         in ac_check_syscalls img t clk r =
              ((RetOK, \<lparr>sc_table_addr = ac_syscall_table t, sc_nr_syscalls = nr_syscalls img,
                        sc_total = length es, sc_non_text = length bad, sc_hooked = length bad,
                        sc_ok = (bad = [])\<rparr>),
               fold (report_hook clk) bad r)"
  using assms
  by (simp add: ac_check_syscalls_def check_syscalls_loop_eq Let_def zero_syscall_check_def)

theorem check_syscalls_exact_witness:
  "sc_nr_syscalls (snd (fst (ac_check_syscalls demo_image
     (demo_text\<lparr>ac_syscall_table := 0x82000000\<rparr>) (\<lambda>_. 0) ring_init))) = 450"
  using check_syscalls_exact [of "demo_text\<lparr>ac_syscall_table := 0x82000000\<rparr>" demo_image "\<lambda>_. 0" ring_init]
  by (simp add: Let_def demo_image_def [THEN arg_cong, of nr_syscalls])

text \<open>C12. The verdict is \<open>ok\<close> exactly when every readable non-NULL entry lies outside every sane
  loaded module and inside the known kernel text (or, when the bounds are unknown, strictly inside
  the 64 MB window on either side of the anchor). In particular an entry that points into a loaded
  module is always reported.\<close>

theorem check_syscalls_verdict:
  assumes "ac_syscall_table t \<noteq> 0"
  shows "sc_ok (snd (fst (ac_check_syscalls img t clk r))) \<longleftrightarrow>
    (\<forall>i < nr_syscalls img. \<forall>e.
       kread8 img (entry_addr (ac_syscall_table t) i) = Some e \<and> e \<noteq> 0 \<longrightarrow>
       \<not> ac_addr_in_module img e \<and>
       (if ac_stext t \<noteq> 0 \<and> ac_text_end t \<noteq> 0
        then ac_stext t \<le> e \<and> e < ac_text_end t
        else ac_anchor t - 0x4000000 < e \<and> e < ac_anchor t + 0x4000000))"
proof -
  let ?es = "table_entries img (ac_syscall_table t) [0..<nr_syscalls img]"
  have "sc_ok (snd (fst (ac_check_syscalls img t clk r))) \<longleftrightarrow>
      (\<forall>p \<in> set ?es. \<not> (case p of (i, e) \<Rightarrow> ac_entry_bad img t e))"
    using assms
    by (simp add: ac_check_syscalls_def check_syscalls_loop_eq Let_def zero_syscall_check_def
        filter_empty_conv)
  also have "\<dots> \<longleftrightarrow> (\<forall>i e. (i, e) \<in> set ?es \<longrightarrow> \<not> ac_entry_bad img t e)" by fast
  finally show ?thesis
    unfolding set_table_entries ac_entry_bad_iff by (auto simp: not_le not_less)
qed

text \<open>A table of two entries, the second of which points into a loaded module.\<close>

definition hooked_image :: kimage where
  "hooked_image = demo_image\<lparr>
     nr_syscalls := 2,
     kmods := [\<lparr>km_name = ''rootkit'', km_state = MODULE_STATE_LIVE, km_text_base = 0xc0000000,
                km_text_size = 0x1000, km_core_sizes = [0x1000]\<rparr>],
     within_module_core := (\<lambda>a m. km_text_base m \<le> a \<and> a < km_text_base m + ucast (km_text_size m)),
     kread8 := (\<lambda>a. Some (if a = 8 + 0x82000000 then 0xc0000040 else 0x81000010))\<rparr>"

theorem check_syscalls_verdict_witness:
  "\<not> sc_ok (snd (fst (ac_check_syscalls hooked_image
       (demo_text\<lparr>ac_syscall_table := 0x82000000\<rparr>) (\<lambda>_. 0) ring_init)))"
proof -
  have "ac_addr_in_module hooked_image 0xc0000040"
    by (simp add: ac_addr_in_module_def ac_module_sane_def hooked_image_def)
  moreover have "kread8 hooked_image (entry_addr 0x82000000 1) = Some 0xc0000040"
      "nr_syscalls hooked_image = 2"
    by (simp_all add: hooked_image_def entry_addr_def)
  ultimately have "\<not> (\<forall>i < nr_syscalls hooked_image. \<forall>e.
      kread8 hooked_image (entry_addr 0x82000000 i) = Some e \<and> e \<noteq> 0 \<longrightarrow>
      \<not> ac_addr_in_module hooked_image e)"
    by (intro notI) (erule allE [of _ 1], simp)
  then show ?thesis
    using check_syscalls_verdict [of "demo_text\<lparr>ac_syscall_table := 0x82000000\<rparr>" hooked_image
        "\<lambda>_. 0" ring_init]
    by (simp del: imp_disjL) blast
qed

text \<open>C20. When neither end of the kernel text could be resolved, the bounds derived from the table
  accept every plausible handler of it, with one exception: the highest handler is rejected exactly
  when its address is a multiple of 2 MB, because rounding up leaves such an address in place and the
  upper bound is exclusive.\<close>

theorem derived_bounds_accept:
  assumes "ac_stext t = 0" "ac_text_end t = 0" "e \<in> set (handlers img base anchor)"
    and "hi = Max (set (handlers img base anchor))" "unat hi + 0x1FFFFF < 2 ^ 64"
    and "\<forall>x \<in> set (handlers img base anchor). 0x200000 \<le> x"
  shows "ac_entry_bad img (ac_derive_bounds img base anchor t) e \<longleftrightarrow>
         e = hi \<and> 0x200000 dvd unat hi"
proof -
  let ?T = "set (handlers img base anchor)"
  define lo where "lo = Min ?T"
  have T: "finite ?T" "?T \<noteq> {}" using assms(3) by auto
  have lo: "lo \<in> ?T" "lo \<le> e" and hi: "hi \<in> ?T" "e \<le> hi"
    using T assms(3,4) by (auto simp: lo_def)
  define st en where "st = lo AND NOT 0x1FFFFF" and "en = (hi + 0x1FFFFF) AND NOT 0x1FFFFF"
  have stext: "unat st = unat lo div 0x200000 * 0x200000"
    unfolding st_def by (rule round_2MB_down)
  have text_end: "unat en = (unat hi + 0x1FFFFF) div 0x200000 * 0x200000"
    unfolding en_def by (rule round_2MB_up [OF assms(5)])
  have big: "0x200000 \<le> unat lo" "0x200000 \<le> unat hi"
    using assms(6) lo(1) hi(1) by (auto simp: word_le_nat_alt)
  have up: "unat hi \<le> (unat hi + 0x1FFFFF) div 0x200000 * 0x200000"
    "(unat hi + 0x1FFFFF) div 0x200000 * 0x200000 \<le> unat hi \<longleftrightarrow> 0x200000 dvd unat hi"
    using nat_round_up_le [where m = "0x200000" and h = "unat hi"]
      nat_round_up_eq [where m = "0x200000" and h = "unat hi"] by simp_all
  have "lo \<noteq> 0" "hi \<noteq> 0" using big by auto
  then have t': "ac_derive_bounds img base anchor t = t\<lparr>ac_stext := st, ac_text_end := en\<rparr>"
    using T assms(1,2,4)
    by (simp add: ac_derive_bounds_def derive_bounds_loop_eq Let_def lo_def st_def en_def)
  have nz: "st \<noteq> 0" "en \<noteq> 0"
    using stext text_end big up(1) by (auto simp: unat_eq_0 [symmetric])
  have in_mod: "\<not> ac_addr_in_module img e"
    using assms(3) by (auto simp: set_handlers_at ac_plausible_handler_def split: if_splits)
  have "unat st \<le> unat lo" unfolding stext by simp
  then have "\<not> e < st" using lo(2) by (simp add: word_less_nat_alt word_le_nat_alt)
  then have "ac_entry_bad img (ac_derive_bounds img base anchor t) e \<longleftrightarrow>
      (unat hi + 0x1FFFFF) div 0x200000 * 0x200000 \<le> unat e"
    using nz in_mod by (simp add: t' ac_entry_bad_iff text_end word_le_nat_alt)
  moreover have "unat e = unat hi" if "(unat hi + 0x1FFFFF) div 0x200000 * 0x200000 \<le> unat e"
    using that up(1) hi(2) [unfolded word_le_nat_alt] by (meson le_antisym le_trans)
  ultimately show ?thesis using up(2) by (metis word_unat_eq_iff)
qed

text \<open>A table whose only handler starts a 2 MB page.\<close>

definition aligned_image :: kimage where
  "aligned_image = demo_image\<lparr>nr_syscalls := 1, kread8 := (\<lambda>_. Some 0x81000000)\<rparr>"

theorem derived_bounds_accept_witness:
  "ac_plausible_handler aligned_image 0x81000000 0x81000000 \<and>
   ac_entry_bad aligned_image (ac_derive_bounds aligned_image 0x82000000 0x81000000 text_init) 0x81000000"
proof -
  have p: "ac_plausible_handler aligned_image 0x81000000 0x81000000"
    by (simp add: ac_plausible_handler_def ac_addr_in_module_def aligned_image_def demo_image_def)
  then have "handlers aligned_image 0x82000000 0x81000000 = [0x81000000]"
    by (simp add: aligned_image_def)
  with p show ?thesis
    using derived_bounds_accept [of text_init "0x81000000" aligned_image "0x82000000" "0x81000000" "0x81000000"]
    by (simp add: text_init_def)
qed

end
