(* ===== verification/Kernel_Probes.thy ===== *)
theory Kernel_Probes
  imports Task_Registry Syscall_Guard
begin

text \<open>
  The state of the whole kernel module and its asynchronous entry points: the kprobe handlers
  (\<open>ac_ptrace_pre\<close>, \<open>ac_clone_ret\<close>, \<open>ac_exit_pre\<close>, \<open>ac_exec_pre\<close>), the kill work queue
  (\<open>ac_schedule_kill\<close>, \<open>ac_kill_worker\<close>) and the registration of the probes, all of
  src/src/anticheat_module.c.

  \<open>current\<close>, the clock, the outcome of an allocation and the outcome of \<open>register_kprobe\<close> are
  arguments. Some fields of the state are not variables of the code but record its effect on the
  kernel: the tasks it sent SIGKILL, the references it holds on its own module and on address spaces,
  and which probes, work queue and device are registered with the kernel.
\<close>

subsection \<open>The state of the module\<close>

record ac_module =
  m_ring :: ac_ring_state
  m_reg :: ac_registry
  m_text :: ac_text
  m_last_hook_count :: nat
  m_policy :: u32
  m_lock_count :: int
  m_wq :: "nat list"
  m_kp_ok :: "bool list"
  m_kp_registered :: nat
  m_kp_clone_ok :: bool
  m_killed :: "nat list"
  m_module_refs :: int
  m_kp_live :: "bool list"
  m_clone_live :: bool
  m_mm_refs :: "nat \<Rightarrow> int"
  m_wq_live :: bool
  m_misc_live :: bool

definition N_KPROBES :: nat where [ac_consts]: "N_KPROBES = 5"

definition module_init :: ac_module where
  "module_init = \<lparr>m_ring = ring_init, m_reg = registry_init, m_text = text_init,
     m_last_hook_count = 0, m_policy = 1, m_lock_count = 0, m_wq = [],
     m_kp_ok = replicate N_KPROBES False, m_kp_registered = 0, m_kp_clone_ok = False,
     m_killed = [], m_module_refs = 0, m_kp_live = replicate N_KPROBES False,
     m_clone_live = False, m_mm_refs = (\<lambda>_. 0), m_wq_live = False, m_misc_live = False\<rparr>"

abbreviation emit_m ::
  "u64 \<Rightarrow> ac_ev_type \<Rightarrow> int \<Rightarrow> string \<Rightarrow> string \<Rightarrow> ac_module \<Rightarrow> ac_module"
where
  "emit_m now ty pid comm data m \<equiv> m\<lparr>m_ring := ac_emit now ty pid (Some comm) data (m_ring m)\<rparr>"

subsection \<open>Killing from the work queue\<close>

text \<open>\<open>get_task_pid\<close> takes a reference on the pid of a task, when it has one.\<close>

definition get_task_pid :: "kenv \<Rightarrow> nat \<Rightarrow> ac_registry \<Rightarrow> nat \<times> ac_registry" where
  "get_task_pid env t s =
     (let p = task_thread_pid env t in (p, if p \<noteq> 0 then get_pid p s else s))"

definition ac_schedule_kill :: "kenv \<Rightarrow> bool \<Rightarrow> nat \<Rightarrow> ac_module \<Rightarrow> ac_module" where
  "ac_schedule_kill env alloc_ok victim m =
     (if victim = 0 then m
      else if \<not> alloc_ok then m
      else let (p, reg) = get_task_pid env victim (m_reg m)
           in m\<lparr>m_reg := reg, m_wq := m_wq m @ [p]\<rparr>)"

text \<open>The work queue runs one request at a time, oldest first. A NULL pid has no task, and dropping
  its reference does nothing.\<close>

definition ac_kill_worker :: "kenv \<Rightarrow> nat \<Rightarrow> ac_module \<Rightarrow> ac_module" where
  "ac_kill_worker env p m =
     (let (t, reg1) = (if p = 0 then (0, m_reg m) else get_pid_task env p (m_reg m));
          m1 = (if t \<noteq> 0
                then m\<lparr>m_killed := m_killed m @ [t], m_reg := put_task_struct t reg1\<rparr>
                else m\<lparr>m_reg := reg1\<rparr>)
      in m1\<lparr>m_reg := (if p = 0 then m_reg m1 else put_pid p (m_reg m1))\<rparr>)"

definition run_work :: "kenv \<Rightarrow> ac_module \<Rightarrow> ac_module" where
  "run_work env m =
     (case m_wq m of [] \<Rightarrow> m | p # ps \<Rightarrow> ac_kill_worker env p (m\<lparr>m_wq := ps\<rparr>))"

subsection \<open>The ptrace probe\<close>

record pt_regs =
  r_di :: u64
  r_si :: u64
  r_bx :: u64
  r_cx :: u64

definition PTRACE_TRACEME :: int where [ac_consts]: "PTRACE_TRACEME = 0"

definition ptrace_message :: "int \<Rightarrow> int \<Rightarrow> string \<Rightarrow> string" where
  "ptrace_message request pid comm =
     ''ptrace req '' @ show_int request @ '' by pid '' @ show_int pid @ '' ('' @ comm @ '') DENIED''"

text \<open>Returns the syscall's register frame, which the handler may rewrite, and the state.\<close>

definition ac_ptrace_pre ::
  "kenv \<Rightarrow> nat \<Rightarrow> bool \<Rightarrow> u64 \<Rightarrow> bool \<Rightarrow> pt_regs \<Rightarrow> ac_module \<Rightarrow> pt_regs \<times> ac_module"
where
  "ac_ptrace_pre env current is_compat now alloc_ok args m =
     (let request = sint (if is_compat then r_bx args else r_di args);
          target = (if is_compat then r_cx args else r_si args);
          (deny, kill, target', tcomm, reg) =
            (if request = PTRACE_TRACEME
             then (if ac_is_protected_task current (m_reg m)
                   then (True, False, task_pid env current,
                         strscpy AC_MAX_COMM (task_comm env current), m_reg m)
                   else (False, False, to_int32 target, ''?'', m_reg m))
             else if sint target > 0
             then (case ac_is_protected_pid env (to_int32 target) (m_reg m) of
                     (Some c, reg) \<Rightarrow> (True, True, to_int32 target, c, reg)
                   | (None, reg) \<Rightarrow> (False, False, to_int32 target, ''?'', reg))
             else (False, False, to_int32 target, ''?'', m_reg m));
          m1 = m\<lparr>m_reg := reg\<rparr>
      in if \<not> deny then (args, m1)
         else let m2 = emit_m now AC_EV_PTRACE target' tcomm
                         (ptrace_message request (task_pid env current) (task_comm env current)) m1;
                  m3 = (if kill \<and> bit (m_policy m2) 0
                        then ac_schedule_kill env alloc_ok current m2 else m2)
              in (if is_compat then args\<lparr>r_bx := - 1\<rparr> else args\<lparr>r_di := - 1\<rparr>, m3))"

subsection \<open>Fork, exit and exec\<close>

definition fork_message :: "int \<Rightarrow> string \<Rightarrow> string" where
  "fork_message pid comm =
     ''child of protected pid '' @ show_int pid @ '' ('' @ comm @ ''); protection inherited''"

text \<open>\<open>child_pid\<close> is the register that holds the return value of \<open>kernel_clone\<close>.\<close>

definition ac_clone_ret :: "kenv \<Rightarrow> nat \<Rightarrow> u64 \<Rightarrow> u64 \<Rightarrow> ac_module \<Rightarrow> ac_module" where
  "ac_clone_ret env current now child_pid m =
     (if sint child_pid \<le> 0 then m
      else if \<not> ac_is_protected_task current (m_reg m) then m
      else let (child, reg1) = ac_find_task env (to_int32 child_pid) (m_reg m) in
           if child = 0 then m\<lparr>m_reg := reg1\<rparr>
           else let pcomm = strscpy AC_MAX_COMM (task_comm env current);
                    (ret, reg2) = ac_add_prot_task env child (ac_task_jit_allowed current reg1) reg1;
                    m1 = emit_m now AC_EV_FORK (task_pid env child) (task_comm env child)
                           (fork_message (task_pid env current) pcomm) (m\<lparr>m_reg := reg2\<rparr>)
                in m1\<lparr>m_reg := put_task_struct child (m_reg m1)\<rparr>)"

definition ac_exit_pre :: "kenv \<Rightarrow> nat \<Rightarrow> u64 \<Rightarrow> ac_module \<Rightarrow> ac_module" where
  "ac_exit_pre env current now m =
     (if \<not> ac_is_protected_task current (m_reg m) then m
      else let m1 = emit_m now AC_EV_EXIT (task_pid env current) (task_comm env current)
                      ''protected process exited'' m
           in m1\<lparr>m_reg := ac_del_prot_task current (m_reg m1)\<rparr>)"

definition ac_exec_pre :: "kenv \<Rightarrow> nat \<Rightarrow> u64 \<Rightarrow> ac_module \<Rightarrow> ac_module" where
  "ac_exec_pre env current now m =
     (if \<not> ac_is_protected_task current (m_reg m) then m
      else emit_m now AC_EV_EXEC (task_pid env current) (task_comm env current)
             ''execve() invoked (path is a user pointer, not resolved)'' m)"

subsection \<open>Registering the probes\<close>

text \<open>\<open>ok i\<close> and \<open>clone_ok\<close> are the outcomes of \<open>register_kprobe\<close> on the i-th probe and of
  \<open>register_kretprobe\<close>.\<close>

fun register_kprobes_loop :: "(nat \<Rightarrow> bool) \<Rightarrow> nat list \<Rightarrow> ac_module \<Rightarrow> ac_module" where
  "register_kprobes_loop ok [] m = m"
| "register_kprobes_loop ok (i # is) m =
     register_kprobes_loop ok is
       (let m1 = m\<lparr>m_kp_ok := (m_kp_ok m)[i := ok i]\<rparr>
        in if ok i then m1\<lparr>m_kp_registered := m_kp_registered m1 + 1,
                           m_kp_live := (m_kp_live m1)[i := True]\<rparr>
           else m1)"

definition ac_register_kprobes :: "(nat \<Rightarrow> bool) \<Rightarrow> bool \<Rightarrow> ac_module \<Rightarrow> ac_module" where
  "ac_register_kprobes ok clone_ok m =
     (let m1 = register_kprobes_loop ok [0..<N_KPROBES] m
      in if clone_ok then m1\<lparr>m_kp_clone_ok := True, m_clone_live := True\<rparr> else m1)"

fun unregister_kprobes_loop :: "nat list \<Rightarrow> ac_module \<Rightarrow> ac_module" where
  "unregister_kprobes_loop [] m = m"
| "unregister_kprobes_loop (i # is) m =
     unregister_kprobes_loop is
       (if m_kp_ok m ! i then m\<lparr>m_kp_live := (m_kp_live m)[i := False]\<rparr> else m)"

definition ac_unregister_kprobes :: "ac_module \<Rightarrow> ac_module" where
  "ac_unregister_kprobes m =
     (let m1 = unregister_kprobes_loop [0..<N_KPROBES] m;
          m2 = m1\<lparr>m_kp_registered := 0, m_kp_ok := replicate N_KPROBES False\<rparr>
      in if m_kp_clone_ok m2 then m2\<lparr>m_clone_live := False, m_kp_clone_ok := False\<rparr> else m2)"

subsection \<open>Invariant\<close>

text \<open>The queued requests hold exactly the pid references the module has taken, the module holds as
  many references on itself as the lock count says, and the flags say which probes are registered.\<close>

definition wq_inv :: "nat list \<Rightarrow> ac_registry \<Rightarrow> bool" where
  "wq_inv wq s \<longleftrightarrow> (\<forall>p. pid_refs s p = (if p = 0 then 0 else int (count_list wq p)))"

definition probes_inv :: "ac_module \<Rightarrow> bool" where
  "probes_inv m \<longleftrightarrow>
     length (m_kp_ok m) = N_KPROBES \<and> m_kp_live m = m_kp_ok m \<and>
     m_kp_registered m = length (filter id (m_kp_ok m)) \<and> m_clone_live m = m_kp_clone_ok m"

definition module_inv :: "ac_module \<Rightarrow> bool" where
  "module_inv m \<longleftrightarrow>
     ring_ok (m_ring m) \<and> registry_ok (m_reg m) \<and> wq_inv (m_wq m) (m_reg m) \<and> probes_inv m \<and>
     m_lock_count m = m_module_refs m \<and> 0 \<le> m_lock_count m \<and> m_mm_refs m = (\<lambda>_. 0)"

lemma module_invI [intro?]:
  assumes "ring_ok (m_ring m)" "registry_ok (m_reg m)" "wq_inv (m_wq m) (m_reg m)" "probes_inv m"
    "m_lock_count m = m_module_refs m" "0 \<le> m_lock_count m" "m_mm_refs m = (\<lambda>_. 0)"
  shows "module_inv m"
  using assms by (simp add: module_inv_def)

lemma module_invD:
  assumes "module_inv m"
  shows "ring_ok (m_ring m)" "registry_ok (m_reg m)" "wq_inv (m_wq m) (m_reg m)" "probes_inv m"
    "m_lock_count m = m_module_refs m" "0 \<le> m_lock_count m" "m_mm_refs m = (\<lambda>_. 0)"
  using assms by (simp_all add: module_inv_def)

lemma probes_inv_cong:
  assumes "m_kp_ok m' = m_kp_ok m" "m_kp_live m' = m_kp_live m"
    "m_kp_registered m' = m_kp_registered m" "m_clone_live m' = m_clone_live m"
    "m_kp_clone_ok m' = m_kp_clone_ok m" "probes_inv m"
  shows "probes_inv m'"
  using assms by (simp add: probes_inv_def)

lemma module_inv_ring:
  assumes "module_inv m" "ring_ok r"
  shows "module_inv (m\<lparr>m_ring := r\<rparr>)"
  using module_invD [OF assms(1)] assms(2)
  by (intro module_invI) (auto elim: probes_inv_cong [rotated -1])

lemma module_inv_reg:
  assumes "module_inv m" "registry_ok s" "pid_refs s = pid_refs (m_reg m)"
  shows "module_inv (m\<lparr>m_reg := s\<rparr>)"
  using module_invD [OF assms(1)] assms(2,3)
  by (intro module_invI) (auto simp: wq_inv_def elim: probes_inv_cong [rotated -1])

lemma module_inv_emit:
  "module_inv m \<Longrightarrow> module_inv (emit_m now ty pid comm data m)"
  by (intro module_inv_ring) (auto simp: module_inv_def intro: ac_emit_ok)

lemma registry_init_pid_refs [simp]: "pid_refs registry_init = (\<lambda>_. 0)"
  by (simp add: registry_init_def)

lemma module_init_inv: "module_inv module_init"
  by (simp add: module_inv_def module_init_def wq_inv_def probes_inv_def N_KPROBES_def
      numeral_eq_Suc)

subsection \<open>The work queue\<close>

lemma registry_ok_pid_refs:
  assumes "registry_ok s"
  shows "registry_ok (get_pid p s)" "registry_ok (put_pid p s)"
  using assms
  by (simp_all add: registry_ok_def registry_inv_def get_pid_def put_pid_def protected_map_def)

lemma protected_map_pid_refs [simp]:
  "protected_map (get_pid p s) = protected_map s" "protected_map (put_pid p s) = protected_map s"
  by (simp_all add: protected_map_def get_pid_def put_pid_def)

lemma pid_refs_get_put [simp]:
  "pid_refs (get_pid p s) = (pid_refs s)(p := pid_refs s p + 1)"
  "pid_refs (put_pid p s) = (pid_refs s)(p := pid_refs s p - 1)"
  by (simp_all add: get_pid_def put_pid_def)

lemma ac_schedule_kill_eq:
  "ac_schedule_kill env alloc_ok v m =
     (if v = 0 \<or> \<not> alloc_ok then m
      else let p = task_thread_pid env v
           in m\<lparr>m_reg := (if p = 0 then m_reg m else get_pid p (m_reg m)), m_wq := m_wq m @ [p]\<rparr>)"
  by (auto simp: ac_schedule_kill_def get_task_pid_def Let_def)

lemma ac_schedule_kill_inv:
  assumes "module_inv m"
  shows "module_inv (ac_schedule_kill env alloc_ok v m)"
    and "protected_map (m_reg (ac_schedule_kill env alloc_ok v m)) = protected_map (m_reg m)"
    and "m_ring (ac_schedule_kill env alloc_ok v m) = m_ring m"
proof -
  show "module_inv (ac_schedule_kill env alloc_ok v m)"
    using module_invD [OF assms] registry_ok_pid_refs(1)
    by (auto simp: ac_schedule_kill_eq Let_def module_inv_def wq_inv_def probes_inv_def)
qed (auto simp: ac_schedule_kill_eq Let_def)

definition worker_target :: "kenv \<Rightarrow> nat \<Rightarrow> nat list" where
  "worker_target env p = (if p = 0 \<or> pid_task env p = 0 then [] else [pid_task env p])"

lemma ac_kill_worker_eq:
  "ac_kill_worker env p m =
     m\<lparr>m_killed := m_killed m @ worker_target env p,
       m_reg := (if p = 0 then m_reg m else put_pid p (m_reg m))\<rparr>"
  by (auto simp: ac_kill_worker_def get_pid_task_def worker_target_def Let_def)

lemma run_work_inv:
  assumes "module_inv m"
  shows "module_inv (run_work env m)"
proof (cases "m_wq m")
  case (Cons p ps)
  then show ?thesis
    using module_invD [OF assms] registry_ok_pid_refs(2)
    by (auto simp: run_work_def ac_kill_worker_eq module_inv_def wq_inv_def probes_inv_def)
qed (simp add: run_work_def assms)

lemma run_work_all:
  "(run_work env ^^ length (m_wq m)) m =
     m\<lparr>m_wq := [], m_killed := m_killed m @ concat (map (worker_target env) (m_wq m)),
       m_reg := fold (\<lambda>p s. if p = 0 then s else put_pid p s) (m_wq m) (m_reg m)\<rparr>"
proof (induction "m_wq m" arbitrary: m)
  case (Cons p ps)
  have "m_wq (run_work env m) = ps" using Cons(2) [symmetric]
    by (simp add: run_work_def ac_kill_worker_eq)
  with Cons(1) [of "run_work env m"] Cons(2) [symmetric] show ?case
    by (simp add: funpow_Suc_right del: funpow.simps)
      (simp add: run_work_def ac_kill_worker_eq)
qed simp

subsection \<open>The handlers in closed form\<close>

abbreviation ptrace_request :: "bool \<Rightarrow> pt_regs \<Rightarrow> int" where
  "ptrace_request is_compat args \<equiv> sint (if is_compat then r_bx args else r_di args)"

abbreviation ptrace_target :: "bool \<Rightarrow> pt_regs \<Rightarrow> u64" where
  "ptrace_target is_compat args \<equiv> (if is_compat then r_cx args else r_si args)"

definition attach_denied :: "kenv \<Rightarrow> bool \<Rightarrow> pt_regs \<Rightarrow> ac_registry \<Rightarrow> bool" where
  "attach_denied env is_compat args s \<longleftrightarrow>
     ptrace_request is_compat args \<noteq> 0 \<and> 0 < sint (ptrace_target is_compat args) \<and>
     (let t = resolve_pid env (to_int32 (ptrace_target is_compat args))
      in t \<noteq> 0 \<and> protected_map s t \<noteq> None)"

definition traceme_denied :: "nat \<Rightarrow> bool \<Rightarrow> pt_regs \<Rightarrow> ac_registry \<Rightarrow> bool" where
  "traceme_denied current is_compat args s \<longleftrightarrow>
     ptrace_request is_compat args = 0 \<and> protected_map s current \<noteq> None"

definition neutralised :: "bool \<Rightarrow> pt_regs \<Rightarrow> pt_regs" where
  "neutralised is_compat args = (if is_compat then args\<lparr>r_bx := - 1\<rparr> else args\<lparr>r_di := - 1\<rparr>)"

definition denial_event :: "kenv \<Rightarrow> nat \<Rightarrow> bool \<Rightarrow> u64 \<Rightarrow> pt_regs \<Rightarrow> ac_module \<Rightarrow> ac_module" where
  "denial_event env current is_compat now args m =
     (let req = ptrace_request is_compat args;
          victim = (if req = 0 then current else resolve_pid env (to_int32 (ptrace_target is_compat args)));
          pid = (if req = 0 then task_pid env current else to_int32 (ptrace_target is_compat args))
      in emit_m now AC_EV_PTRACE pid (strscpy AC_MAX_COMM (task_comm env victim))
           (ptrace_message req (task_pid env current) (task_comm env current)) m)"

lemma ac_ptrace_pre_eq:
  assumes "current \<noteq> 0"
  shows "ac_ptrace_pre env current is_compat now alloc_ok args m =
    (if traceme_denied current is_compat args (m_reg m)
     then (neutralised is_compat args, denial_event env current is_compat now args m)
     else if attach_denied env is_compat args (m_reg m)
     then (neutralised is_compat args,
           (if bit (m_policy m) 0 then ac_schedule_kill env alloc_ok current else id)
             (denial_event env current is_compat now args m))
     else (args, m))"
  using assms
  by (auto simp: ac_ptrace_pre_def traceme_denied_def attach_denied_def neutralised_def
      denial_event_def protected_iff ac_is_protected_pid_eq PTRACE_TRACEME_def Let_def
      split: if_splits)

lemma denial_event_sel [simp]:
  "m_reg (denial_event env current c now args m) = m_reg m"
  "m_wq (denial_event env current c now args m) = m_wq m"
  by (simp_all add: denial_event_def Let_def)

lemma denial_event_inv: "module_inv m \<Longrightarrow> module_inv (denial_event env current c now args m)"
  unfolding denial_event_def Let_def by (rule module_inv_emit)

lemma ac_ptrace_pre_inv:
  assumes "module_inv m" "current \<noteq> 0"
  shows "module_inv (snd (ac_ptrace_pre env current c now alloc_ok args m))"
  using assms denial_event_inv ac_schedule_kill_inv(1) by (simp add: ac_ptrace_pre_eq)

lemma put_task_struct_add_pid_refs:
  "pid_refs (put_task_struct t (snd (ac_add_prot_task env t jit s))) = pid_refs s"
  by simp

lemma clone_child_added:
  assumes "registry_ok s" "child \<noteq> 0"
  shows "registry_ok (put_task_struct child (snd (ac_add_prot_task env child jit (hold child s))))"
    and "protected_map (put_task_struct child (snd (ac_add_prot_task env child jit (hold child s)))) =
      (if protected_map s child = None \<and> registry_free s = 0 then protected_map s
       else (protected_map s)(child \<mapsto> jit))"
proof -
  note c = add_prot_task_cases [OF registry_inv_hold [OF assms] assms(2), of env jit]
  show "registry_ok (put_task_struct child (snd (ac_add_prot_task env child jit (hold child s))))"
    using registry_ok_hold_put [OF assms] c by blast
  show "protected_map (put_task_struct child (snd (ac_add_prot_task env child jit (hold child s)))) =
      (if protected_map s child = None \<and> registry_free s = 0 then protected_map s
       else (protected_map s)(child \<mapsto> jit))"
    using c by (auto split: if_splits)
qed

lemma ac_clone_ret_eq:
  assumes "current \<noteq> 0"
  shows "ac_clone_ret env current now child_pid m =
    (let child = resolve_pid env (to_int32 child_pid) in
     if sint child_pid \<le> 0 \<or> protected_map (m_reg m) current = None \<or> child = 0 then m
     else (emit_m now AC_EV_FORK (task_pid env child) (task_comm env child)
             (fork_message (task_pid env current) (strscpy AC_MAX_COMM (task_comm env current))) m)
          \<lparr>m_reg := put_task_struct child
             (snd (ac_add_prot_task env child (ac_task_jit_allowed current (hold child (m_reg m)))
                     (hold child (m_reg m))))\<rparr>)"
  using assms
  by (auto simp: ac_clone_ret_def protected_iff ac_find_task_eq Let_def hold_def
      split: prod.splits)

lemma ac_clone_ret_inv:
  assumes "module_inv m" "current \<noteq> 0"
  shows "module_inv (ac_clone_ret env current now child_pid m)"
proof -
  let ?child = "resolve_pid env (to_int32 child_pid)"
  have "module_inv (emit_m now ty pid comm data m)" for ty pid comm data
    using assms(1) by (rule module_inv_emit)
  moreover have "registry_ok (put_task_struct ?child (snd (ac_add_prot_task env ?child jit
      (hold ?child (m_reg m)))))" if "?child \<noteq> 0" for jit
    using clone_child_added(1) [OF module_invD(2) [OF assms(1)] that] .
  ultimately show ?thesis
    using assms by (auto simp: ac_clone_ret_eq Let_def intro!: module_inv_reg)
qed

lemma ac_exit_pre_inv:
  assumes "module_inv m" "current \<noteq> 0"
  shows "module_inv (ac_exit_pre env current now m)"
proof -
  have "registry_ok (ac_del_prot_task current (m_reg m))"
    using del_prot_task_map(1) [of "\<lambda>_. 0" "m_reg m" current] module_invD(2) [OF assms(1)] assms(2)
    by (simp add: registry_ok_def)
  with module_inv_emit [OF assms(1)] assms show ?thesis
    by (auto simp: ac_exit_pre_def Let_def intro!: module_inv_reg)
qed

lemma ac_exec_pre_inv: "module_inv m \<Longrightarrow> module_inv (ac_exec_pre env current now m)"
  by (simp add: ac_exec_pre_def module_inv_emit)

subsection \<open>Registering and unregistering\<close>

lemma register_kprobes_loop_eq:
  "register_kprobes_loop ok is m =
     m\<lparr>m_kp_ok := fold (\<lambda>i b. b[i := ok i]) is (m_kp_ok m),
       m_kp_registered := m_kp_registered m + length (filter ok is),
       m_kp_live := fold (\<lambda>i b. if ok i then b[i := True] else b) is (m_kp_live m)\<rparr>"
  by (induction "is" arbitrary: m) (simp_all add: Let_def)

lemma unregister_kprobes_loop_eq:
  "unregister_kprobes_loop is m =
     m\<lparr>m_kp_live := fold (\<lambda>i b. if m_kp_ok m ! i then b[i := False] else b) is (m_kp_live m)\<rparr>"
  by (induction "is" arbitrary: m) simp_all

lemma upt_5: "[0..<N_KPROBES] = [0, 1, 2, 3, 4]"
  by (simp add: N_KPROBES_def upt_rec)

lemma length_5:
  assumes "length xs = N_KPROBES"
  obtains a b c d e where "xs = [a, b, c, d, e]"
  using assms by (auto simp: N_KPROBES_def numeral_eq_Suc length_Suc_conv)

lemma ac_register_kprobes_eq:
  assumes "m_kp_ok m = replicate N_KPROBES False" "m_kp_live m = replicate N_KPROBES False"
  shows "ac_register_kprobes ok clone_ok m =
    m\<lparr>m_kp_ok := map ok [0..<N_KPROBES],
      m_kp_registered := m_kp_registered m + length (filter ok [0..<N_KPROBES]),
      m_kp_live := map ok [0..<N_KPROBES], m_kp_clone_ok := m_kp_clone_ok m \<or> clone_ok,
      m_clone_live := m_clone_live m \<or> clone_ok\<rparr>"
proof -
  have r5: "replicate N_KPROBES False = [False, False, False, False, False]"
    by (simp add: N_KPROBES_def numeral_eq_Suc)
  show ?thesis
    unfolding ac_register_kprobes_def register_kprobes_loop_eq assms upt_5 r5
    by (cases "ok 0"; cases "ok 1"; cases "ok 2"; cases "ok 3"; cases "ok 4"; cases clone_ok)
      (simp_all add: Let_def)
qed

lemma ac_unregister_kprobes_eq:
  assumes "probes_inv m"
  shows "ac_unregister_kprobes m =
    m\<lparr>m_kp_ok := replicate N_KPROBES False, m_kp_registered := 0,
      m_kp_live := replicate N_KPROBES False, m_kp_clone_ok := False, m_clone_live := False\<rparr>"
proof -
  have r5: "replicate N_KPROBES False = [False, False, False, False, False]"
    by (simp add: N_KPROBES_def numeral_eq_Suc)
  from assms have "length (m_kp_ok m) = N_KPROBES" by (simp add: probes_inv_def)
  then obtain a b c d e where 5: "m_kp_ok m = [a, b, c, d, e]" by (rule length_5)
  with assms have live: "m_kp_live m = [a, b, c, d, e]" and cl: "m_clone_live m = m_kp_clone_ok m"
    by (simp_all add: probes_inv_def)
  show ?thesis
    unfolding ac_unregister_kprobes_def unregister_kprobes_loop_eq upt_5 5 live r5
    by (cases a; cases b; cases c; cases d; cases e) (simp_all add: Let_def cl)
qed

subsection \<open>Properties\<close>

definition one_protected :: ac_module where
  "one_protected = module_init\<lparr>m_reg := snd (ac_add_prot_task flat_env 7 True registry_init)\<rparr>"

lemma one_protected_inv: "module_inv one_protected"
  unfolding one_protected_def
  by (rule module_inv_reg) (simp_all add: module_init_inv registry_init_add module_init_def [THEN arg_cong, of m_reg])

lemma one_protected_map: "protected_map (m_reg one_protected) = [7 \<mapsto> True]"
  by (simp add: one_protected_def registry_init_add)

lemma ac_schedule_kill_wq:
  "m_wq (ac_schedule_kill env alloc_ok v m) =
     m_wq m @ (if v \<noteq> 0 \<and> alloc_ok then [task_thread_pid env v] else [])"
  by (simp add: ac_schedule_kill_eq Let_def)

text \<open>C3. The ptrace probe denies exactly what it must: a request with a positive target register
  whose low 32 bits name a protected task, or PTRACE_TRACEME by a protected task. A denied call has
  its request register overwritten by -1 and nothing else in its frame changed, one event is queued,
  the registry is as before and no reference is leaked, and the tracer is queued to be killed exactly
  when it attached to another task and policy bit 0 is set (and the request could be allocated). A
  call that is not denied is left alone.\<close>

theorem ptrace_probe_denies:
  assumes "module_inv m" "current \<noteq> 0"
  shows "let (args', m') = ac_ptrace_pre env current c now alloc_ok args m;
             attach = attach_denied env c args (m_reg m);
             deny = (attach \<or> traceme_denied current c args (m_reg m))
         in module_inv m' \<and> protected_map (m_reg m') = protected_map (m_reg m) \<and>
            (if deny
             then args' = neutralised c args \<and>
                  ac_ring_count (m_ring m') = min 256 (Suc (ac_ring_count (m_ring m))) \<and>
                  m_wq m' = m_wq m @ (if attach \<and> bit (m_policy m) 0 \<and> alloc_ok
                                      then [task_thread_pid env current] else [])
             else args' = args \<and> m' = m)"
proof -
  let ?d = "denial_event env current c now args m"
  have inv: "module_inv ?d" using assms(1) by (rule denial_event_inv)
  have "length (ring_pending (ac_emit now ty pid comm data (m_ring m)))
      = min 256 (Suc (ac_ring_count (m_ring m)))" for ty pid comm data
    using ring_push_pending [OF module_invD(1) [OF assms(1)]] module_invD(1) [OF assms(1)]
    by (auto simp: ac_emit_def AC_RING_SIZE_def ring_ok_def length_ring_pending [symmetric]
        simp del: length_ring_pending)
  then have count: "ac_ring_count (m_ring ?d) = min 256 (Suc (ac_ring_count (m_ring m)))"
    by (simp add: denial_event_def Let_def)
  have excl: "traceme_denied current c args (m_reg m) \<Longrightarrow> \<not> attach_denied env c args (m_reg m)"
    by (simp add: traceme_denied_def attach_denied_def)
  show ?thesis
    using inv count excl assms ac_schedule_kill_inv [OF inv]
    by (auto simp: ac_ptrace_pre_eq Let_def ac_schedule_kill_wq)
qed

theorem ptrace_probe_denies_witness:
  "let args = \<lparr>r_di = 16, r_si = 7, r_bx = 0, r_cx = 0\<rparr>;
       (args', m') = ac_ptrace_pre flat_env 9 False 0 True args one_protected
   in r_di args' = - 1 \<and> m_wq m' = [9]"
proof -
  let ?args = "\<lparr>r_di = 16, r_si = 7, r_bx = 0, r_cx = 0\<rparr> :: pt_regs"
  have "to_int32 7 = 7" using to_int32_of_nat [of 7] by simp
  then have "attach_denied flat_env False ?args (m_reg one_protected)"
    by (auto simp: attach_denied_def Let_def resolve_pid_def flat_env_def one_protected_map)
  moreover have "m_wq one_protected = []" "bit (m_policy one_protected) 0"
    by (simp_all add: one_protected_def module_init_def)
  ultimately show ?thesis
    using ptrace_probe_denies [OF one_protected_inv, of 9 flat_env False 0 True ?args]
    by (auto simp: Let_def neutralised_def flat_env_def split: prod.splits)
qed

text \<open>C21. The probe tests the sign of the 64-bit target register before it truncates it to a pid,
  while the system call it guards only uses the low 32 bits. For every pid there is a PTRACE_ATTACH
  frame naming it, with the upper half of the register set, that the probe lets through untouched in
  every state, whether or not that pid is protected.\<close>

theorem ptrace_sign_bypass:
  assumes "0 < p" "p < 2 ^ 31" "current \<noteq> 0"
  shows "\<exists>args. to_int32 (r_si args) = int p \<and> r_di args = 16 \<and>
           (\<forall>env now alloc_ok m. ac_ptrace_pre env current False now alloc_ok args m = (args, m))"
proof -
  define x :: u64 where "x = of_nat (2 ^ 63 + p)"
  have "sint x = signed_take_bit 63 (2 ^ 63 + int p)"
    unfolding x_def signed_of_nat by simp
  also have "\<dots> \<le> int p - 2 ^ 63"
    using signed_take_bit_int_less_eq [of 63 "2 ^ 63 + int p"] by simp
  finally have neg: "\<not> 0 < sint x" using assms(2) by simp
  have "unat x = 2 ^ 63 + p"
    unfolding x_def unsigned_of_nat using assms(2) by (simp add: take_bit_nat_eq_self)
  then have "(ucast x :: u32) = of_nat (2 ^ 63) + of_nat p" by (metis of_nat_unat of_nat_add)
  moreover have "(of_nat (2 ^ 63) :: u32) = 0"
    unfolding word_of_nat_eq_0_iff by (simp add: le_imp_power_dvd)
  ultimately have "(ucast x :: u32) = of_nat p" by (simp only: add_0)
  then have low: "to_int32 x = int p"
    using assms(2) by (simp add: to_int32_def signed_of_nat signed_take_bit_int_eq_self)
  show ?thesis
    using neg low assms(3)
    by (intro exI [of _ "\<lparr>r_di = 16, r_si = x, r_bx = 0, r_cx = 0\<rparr>"])
      (simp add: ac_ptrace_pre_eq attach_denied_def traceme_denied_def)
qed

theorem ptrace_sign_bypass_witness:
  "\<exists>args. to_int32 (r_si args) = 7 \<and> protected_map (m_reg one_protected) 7 = Some True \<and>
     ac_ptrace_pre flat_env 9 False 0 True args one_protected = (args, one_protected)"
  using ptrace_sign_bypass [of 7 9] by (auto simp: one_protected_map)

text \<open>C22. When a protected task forks, the handler queues a fork event that claims inherited
  protection; the child is protected with its parent's JIT flag, unless the registry is full and does
  not hold it yet. In that case the error of \<open>ac_add_prot_task\<close> is dropped: the child stays
  unprotected although the event was queued. The invariant, and so every reference count, is kept.\<close>

theorem clone_inherits_or_full:
  assumes "module_inv m" "current \<noteq> 0" "protected_map (m_reg m) current = Some jit"
    and "0 < sint child_pid" "child = resolve_pid env (to_int32 child_pid)" "child \<noteq> 0"
  shows "let m' = ac_clone_ret env current now child_pid m in
    module_inv m' \<and>
    m_ring m' = ac_emit now AC_EV_FORK (task_pid env child) (Some (task_comm env child))
      (fork_message (task_pid env current) (strscpy AC_MAX_COMM (task_comm env current))) (m_ring m) \<and>
    protected_map (m_reg m') =
      (if protected_map (m_reg m) child = None \<and> registry_free (m_reg m) = 0
       then protected_map (m_reg m) else (protected_map (m_reg m))(child \<mapsto> jit))"
proof -
  have ok: "registry_ok (m_reg m)" using assms(1) by (rule module_invD)
  have "ac_task_jit_allowed current (hold child (m_reg m)) = jit"
    using jit_allowed_eq [OF registry_inv_hold [OF ok assms(6)] assms(2)] assms(3) by simp
  then show ?thesis
    using assms ac_clone_ret_inv [OF assms(1,2), of env now child_pid]
      clone_child_added(2) [OF ok assms(6), of env jit]
    by (simp add: ac_clone_ret_eq Let_def)
qed

theorem clone_inherits_or_full_witness:
  "protected_map (m_reg (ac_clone_ret flat_env 7 0 8 one_protected)) = [7 \<mapsto> True, 8 \<mapsto> True]"
proof -
  have "to_int32 8 = 8" using to_int32_of_nat [of 8] by simp
  moreover have "registry_free (m_reg one_protected) \<noteq> 0"
    using reg.card_free [OF module_invD(2) [OF one_protected_inv, unfolded registry_ok_def]]
    unfolding one_protected_map AC_PROT_MAX_def by simp
  moreover have "resolve_pid flat_env 8 = 8" by (simp add: resolve_pid_def flat_env_def)
  moreover have "protected_map (m_reg (ac_clone_ret flat_env 7 0 8 one_protected)) =
      (if protected_map (m_reg one_protected) 8 = None \<and> registry_free (m_reg one_protected) = 0
       then protected_map (m_reg one_protected) else (protected_map (m_reg one_protected))(8 \<mapsto> True))"
    by (rule clone_inherits_or_full [OF one_protected_inv, unfolded Let_def, THEN conjunct2, THEN conjunct2])
      (simp_all add: calculation one_protected_map)
  ultimately show ?thesis by (simp add: one_protected_map)
qed

text \<open>The exit of a protected task queues one exit event and removes exactly that task, with
  the reference the registry held on it; the exit or exec of any other task changes nothing.\<close>

theorem exit_unprotects:
  assumes "module_inv m" "current \<noteq> 0"
  shows "let m' = ac_exit_pre env current now m in
    module_inv m' \<and> protected_map (m_reg m') = (protected_map (m_reg m))(current := None) \<and>
    task_refs (m_reg m') current = 0 \<and>
    (if protected_map (m_reg m) current = None then m' = m \<and> ac_exec_pre env current now m = m
     else m_ring m' = ac_emit now AC_EV_EXIT (task_pid env current) (Some (task_comm env current))
                        ''protected process exited'' (m_ring m))"
proof -
  have ok: "registry_inv (\<lambda>_. 0) (m_reg m)" using module_invD(2) [OF assms(1)] by (simp add: registry_ok_def)
  note del = del_prot_task_map [OF ok assms(2)]
  have "task_refs (ac_del_prot_task current (m_reg m)) current = 0"
    using del by (simp add: registry_inv_def)
  moreover have "task_refs (m_reg m) current = 0" if "protected_map (m_reg m) current = None"
    using ok that by (simp add: registry_inv_def)
  ultimately show ?thesis
    using ac_exit_pre_inv [OF assms, of env now] del(2) assms(2)
    by (auto simp: ac_exit_pre_def ac_exec_pre_def protected_iff Let_def)
qed

theorem exit_unprotects_witness:
  "protected_map (m_reg (ac_exit_pre flat_env 7 0 one_protected)) = Map.empty"
  using exit_unprotects [OF one_protected_inv, of 7 flat_env 0]
  by (simp add: Let_def one_protected_map)

text \<open>C23. Every queued kill request is served: running the work queue as often as it has entries
  empties it, sends SIGKILL to the task of each queued pid that still has one, in order, and returns
  every pid reference, whatever the pids resolve to by then.\<close>

theorem kill_queue_drains:
  assumes "module_inv m"
  shows "let m' = (run_work env ^^ length (m_wq m)) m in
    m_wq m' = [] \<and> module_inv m' \<and> pid_refs (m_reg m') = (\<lambda>_. 0) \<and>
    m_killed m' = m_killed m @ filter (\<lambda>t. t \<noteq> 0) (map (pid_task env) (filter (\<lambda>p. p \<noteq> 0) (m_wq m))) \<and>
    protected_map (m_reg m') = protected_map (m_reg m)"
proof -
  let ?m' = "(run_work env ^^ length (m_wq m)) m"
  have inv: "module_inv ((run_work env ^^ n) m)" for n
    by (induction n) (simp_all add: assms run_work_inv)
  have killed: "concat (map (worker_target env) ps) =
      filter (\<lambda>t. t \<noteq> 0) (map (pid_task env) (filter (\<lambda>p. p \<noteq> 0) ps))" for ps
    by (induction ps) (auto simp: worker_target_def)
  have map: "protected_map (fold (\<lambda>p s. if p = 0 then s else put_pid p s) ps s) = protected_map s"
    for ps s by (induction ps arbitrary: s) simp_all
  have wq: "m_wq ?m' = []" by (simp add: run_work_all)
  with module_invD(3) [OF inv [of "length (m_wq m)"]] have "pid_refs (m_reg ?m') = (\<lambda>_. 0)"
    by (auto simp: wq_inv_def)
  with wq inv [of "length (m_wq m)"] show ?thesis
    by (simp add: Let_def) (simp add: run_work_all killed map)
qed

theorem kill_queue_drains_witness:
  "m_killed ((run_work flat_env ^^ 1) (ac_schedule_kill flat_env True 9 one_protected)) = [9]"
proof -
  let ?m = "ac_schedule_kill flat_env True 9 one_protected"
  have "m_wq ?m = [9]" "m_killed ?m = []"
    by (simp_all add: ac_schedule_kill_eq flat_env_def one_protected_def module_init_def)
  then show ?thesis
    using kill_queue_drains [of ?m flat_env] ac_schedule_kill_inv(1) [OF one_protected_inv]
    by (simp add: Let_def flat_env_def)
qed

text \<open>Unregistering after registering removes every probe that was registered, whichever of the
  registrations failed, and never touches one that was not: the flags and the kernel's view agree at
  every point.\<close>

theorem kprobes_register_roundtrip:
  assumes "module_inv m" "m_kp_ok m = replicate 5 False" "\<not> m_kp_clone_ok m"
  shows "let m' = ac_register_kprobes ok clone_ok m in
    module_inv m' \<and> m_kp_live m' = map ok [0..<5] \<and> m_clone_live m' = clone_ok \<and>
    m_kp_registered m' = length (filter ok [0..<5]) \<and>
    ac_unregister_kprobes m' = m"
proof -
  have p: "m_kp_live m = replicate N_KPROBES False" "m_kp_ok m = replicate N_KPROBES False"
      "m_kp_registered m = 0" "\<not> m_clone_live m"
    using module_invD(4) [OF assms(1)] assms(2,3) by (simp_all add: probes_inv_def N_KPROBES_def)
  have eq: "ac_register_kprobes ok clone_ok m =
      m\<lparr>m_kp_ok := map ok [0..<5], m_kp_registered := length (filter ok [0..<5]),
        m_kp_live := map ok [0..<5], m_kp_clone_ok := clone_ok, m_clone_live := clone_ok\<rparr>"
    using ac_register_kprobes_eq [OF p(2,1), of ok clone_ok] p(3,4) assms(3)
    by (simp add: N_KPROBES_def)
  have pi: "probes_inv (ac_register_kprobes ok clone_ok m)"
    unfolding eq by (simp add: probes_inv_def N_KPROBES_def filter_map comp_def)
  have "module_inv (ac_register_kprobes ok clone_ok m)"
    using module_invD [OF assms(1)] pi unfolding eq by (intro module_invI) simp_all
  moreover have "ac_unregister_kprobes (ac_register_kprobes ok clone_ok m) = m"
    by (subst ac_unregister_kprobes_eq [OF pi], unfold eq, cases m) (use p assms(3) in simp)
  ultimately show ?thesis by (simp add: Let_def eq)
qed

theorem kprobes_register_roundtrip_witness:
  "m_kp_live (ac_register_kprobes (\<lambda>i. i \<noteq> 1) True module_init) = [True, False, True, True, True] \<and>
   ac_unregister_kprobes (ac_register_kprobes (\<lambda>i. i \<noteq> 1) True module_init) = module_init"
  using kprobes_register_roundtrip [OF module_init_inv, of "\<lambda>i. i \<noteq> 1" True]
  by (simp add: Let_def module_init_def N_KPROBES_def upt_rec)

end
