(* ===== verification/Fd_Snapshots.thy ===== *)
theory Fd_Snapshots
  imports Kernel_Probes
begin

unbundle bit_operations_syntax

text \<open>
  The per-descriptor snapshots of the kernel module (src/src/anticheat_module.c): the state behind an
  open device file, the VMA snapshot of a process (\<open>ac_build_vma_snapshot\<close>) and the snapshot of the
  module list (\<open>ac_build_mod_snapshot\<close>).

  The address space of a task is a list of \<open>vma\<close> records supplied by \<open>kmm\<close>; allocation outcomes are
  arguments. A snapshot array is modelled by the entries that have been filled in: \<^term>\<open>None\<close> is a
  NULL array. Each snapshot operation of the source runs under the lock of its descriptor state.
\<close>

definition AC_MAX_VMAS :: nat where [ac_consts]: "AC_MAX_VMAS = 4096"
definition AC_VMA_PATH :: nat where [ac_consts]: "AC_VMA_PATH = 128"
definition AC_MOD_NAME_LEN :: nat where [ac_consts]: "AC_MOD_NAME_LEN = 64"
definition AC_MAX_MODS :: nat where [ac_consts]: "AC_MAX_MODS = 1024"

definition AC_VM_WRITE :: u64 where [ac_consts]: "AC_VM_WRITE = 2"
definition AC_VM_EXEC :: u64 where [ac_consts]: "AC_VM_EXEC = 4"

subsection \<open>Address spaces\<close>

text \<open>\<open>f_ino\<close> is \<^term>\<open>None\<close> for a file without an inode, \<open>f_dpath\<close> when \<open>d_path\<close> fails.\<close>

record vfile =
  f_ino :: "u64 option"
  f_dpath :: "string option"

record vma =
  vm_start :: u64
  vm_end :: u64
  vm_pgoff :: u64
  vm_flags :: u64
  vm_file :: "vfile option"

record kmm =
  get_task_mm :: "nat \<Rightarrow> nat"
  mm_vmas :: "nat \<Rightarrow> vma list"

record ac_vma_info =
  vi_start :: u64
  vi_end :: u64
  vi_offset :: u64
  vi_inode :: u64
  vi_flags :: u64
  vi_is_file :: bool
  vi_path :: string

record ac_mod_info =
  mi_name :: string
  mi_size :: u64
  mi_state :: u32

subsection \<open>The state of a descriptor\<close>

record ac_fd_state =
  fd_vmas :: "ac_vma_info list option"
  fd_n_vmas :: nat
  fd_rwx_count :: nat
  fd_exec_count :: nat
  fd_anon_exec_count :: nat
  fd_truncated :: bool
  fd_mods :: "ac_mod_info list option"
  fd_n_mods :: nat

definition zero_fd_state :: ac_fd_state where
  "zero_fd_state = \<lparr>fd_vmas = None, fd_n_vmas = 0, fd_rwx_count = 0, fd_exec_count = 0,
     fd_anon_exec_count = 0, fd_truncated = False, fd_mods = None, fd_n_mods = 0\<rparr>"

record ac_file =
  private_data :: "ac_fd_state option"

text \<open>\<open>ac_get_fd_state\<close> run without interference; the interleaved version is in theory
  \<open>Lock_Races\<close>.\<close>

definition ac_get_fd_state :: "bool \<Rightarrow> ac_file \<Rightarrow> ac_fd_state option \<times> ac_file" where
  "ac_get_fd_state alloc_ok f =
     (case private_data f of
        Some st \<Rightarrow> (Some st, f)
      | None \<Rightarrow> if alloc_ok
                then (Some zero_fd_state, f\<lparr>private_data := Some zero_fd_state\<rparr>)
                else (None, f))"

subsection \<open>The VMA snapshot\<close>

definition vma_info_of :: "bool \<Rightarrow> vma \<Rightarrow> ac_vma_info" where
  "vma_info_of buf_ok v =
     \<lparr>vi_start = vm_start v, vi_end = vm_end v, vi_offset = push_bit 12 (vm_pgoff v),
      vi_inode = (case vm_file v of None \<Rightarrow> 0
                  | Some f \<Rightarrow> (case f_ino f of None \<Rightarrow> 0 | Some i \<Rightarrow> i)),
      vi_flags = vm_flags v,
      vi_is_file = (vm_file v \<noteq> None),
      vi_path = (case vm_file v of None \<Rightarrow> []
                 | Some f \<Rightarrow> if buf_ok
                             then (case f_dpath f of None \<Rightarrow> [] | Some p \<Rightarrow> strscpy AC_VMA_PATH p)
                             else [])\<rparr>"

definition range_text :: "ac_vma_info \<Rightarrow> string" where
  "range_text vi =
     ''[0x'' @ show_hex (unat (vi_start vi)) @ ''-0x'' @ show_hex (unat (vi_end vi)) @ '']''"

definition rwx_message :: "ac_vma_info \<Rightarrow> string" where
  "rwx_message vi =
     ''RWX mapping '' @ range_text vi @ '' '' @ (if vi_path vi = [] then ''(anonymous)'' else vi_path vi)"

definition anon_message :: "ac_vma_info \<Rightarrow> string" where
  "anon_message vi = ''anonymous executable mapping '' @ range_text vi"

definition is_rwx :: "u64 \<Rightarrow> bool" where
  "is_rwx flags \<longleftrightarrow> flags AND (AC_VM_EXEC OR AC_VM_WRITE) = AC_VM_EXEC OR AC_VM_WRITE"

definition is_exec :: "u64 \<Rightarrow> bool" where
  "is_exec flags \<longleftrightarrow> flags AND AC_VM_EXEC \<noteq> 0"

text \<open>The body of the loop for one VMA; \<open>clk\<close> gives the times of the two events it may emit.\<close>

definition scan_vma ::
  "(nat \<Rightarrow> u64) \<Rightarrow> bool \<Rightarrow> int \<Rightarrow> bool \<Rightarrow> nat \<Rightarrow> vma \<Rightarrow> ac_fd_state \<times> ac_ring_state
     \<Rightarrow> ac_fd_state \<times> ac_ring_state"
where
  "scan_vma clk buf_ok pid emit n v sr =
     (let (st, r) = sr;
          vi = vma_info_of buf_ok v;
          st1 = st\<lparr>fd_vmas := map_option (\<lambda>vs. vs @ [vi]) (fd_vmas st)\<rparr>;
          (st2, r2) =
            (if is_rwx (vm_flags v)
             then (st1\<lparr>fd_rwx_count := fd_rwx_count st1 + 1\<rparr>,
                   if emit then ac_emit (clk (2 * n)) AC_EV_RWX pid (Some ''?'') (rwx_message vi) r else r)
             else (st1, r));
          (st3, r3) =
            (if \<not> vi_is_file vi \<and> is_exec (vm_flags v)
             then (st2\<lparr>fd_anon_exec_count := fd_anon_exec_count st2 + 1\<rparr>,
                   if emit then ac_emit (clk (2 * n + 1)) AC_EV_ANON_EXEC pid (Some ''?'')
                                  (anon_message vi) r2 else r2)
             else (st2, r2));
          st4 = (if is_exec (vm_flags v) then st3\<lparr>fd_exec_count := fd_exec_count st3 + 1\<rparr> else st3)
      in (st4, r3))"

text \<open>\<open>buf_ok n\<close> is the outcome of the path buffer allocation for the n-th VMA.\<close>

fun vma_loop ::
  "(nat \<Rightarrow> u64) \<Rightarrow> (nat \<Rightarrow> bool) \<Rightarrow> int \<Rightarrow> bool \<Rightarrow> nat \<Rightarrow> vma list \<Rightarrow> ac_fd_state \<times> ac_ring_state
     \<Rightarrow> nat \<times> ac_fd_state \<times> ac_ring_state"
where
  "vma_loop clk buf_ok pid emit n [] sr = (n, sr)"
| "vma_loop clk buf_ok pid emit n (v # vs) sr =
     (if n \<ge> AC_MAX_VMAS then (n, (fst sr)\<lparr>fd_truncated := True\<rparr>, snd sr)
      else vma_loop clk buf_ok pid emit (Suc n) vs (scan_vma clk (buf_ok n) pid emit n v sr))"

definition get_mm :: "nat \<Rightarrow> ac_module \<Rightarrow> ac_module" where
  "get_mm mm m = (if mm = 0 then m else m\<lparr>m_mm_refs := (m_mm_refs m)(mm := m_mm_refs m mm + 1)\<rparr>)"

definition mmput :: "nat \<Rightarrow> ac_module \<Rightarrow> ac_module" where
  "mmput mm m = m\<lparr>m_mm_refs := (m_mm_refs m)(mm := m_mm_refs m mm - 1)\<rparr>"

definition ac_build_vma_snapshot ::
  "kenv \<Rightarrow> kmm \<Rightarrow> (nat \<Rightarrow> u64) \<Rightarrow> bool \<Rightarrow> (nat \<Rightarrow> bool) \<Rightarrow> int \<Rightarrow> bool \<Rightarrow> ac_fd_state \<Rightarrow> ac_module
     \<Rightarrow> kret \<times> ac_fd_state \<times> ac_module"
where
  "ac_build_vma_snapshot env kmm clk alloc_ok buf_ok pid emit st m =
     (let st0 = st\<lparr>fd_vmas := None, fd_n_vmas := 0, fd_rwx_count := 0, fd_exec_count := 0,
                   fd_anon_exec_count := 0, fd_truncated := False\<rparr>;
          (task, reg1) = ac_find_task env pid (m_reg m);
          m1 = m\<lparr>m_reg := reg1\<rparr>
      in if task = 0 then (RetErr ESRCH, st0, m1)
         else let mm = get_task_mm kmm task;
                  m2 = get_mm mm m1;
                  m3 = m2\<lparr>m_reg := put_task_struct task (m_reg m2)\<rparr>
              in if mm = 0 then (RetErr ESRCH, st0, m3)
                 else if \<not> alloc_ok then (RetErr ENOMEM, st0, mmput mm m3)
                 else let (n, st1, r1) = vma_loop clk buf_ok pid emit 0 (mm_vmas kmm mm)
                                           (st0\<lparr>fd_vmas := Some []\<rparr>, m_ring m3);
                          m4 = mmput mm (m3\<lparr>m_ring := r1\<rparr>)
                      in (RetOK, st1\<lparr>fd_n_vmas := n\<rparr>, m4))"

subsection \<open>The module snapshot\<close>

definition ac_module_size :: "kmodule \<Rightarrow> u64" where
  "ac_module_size md = fold (\<lambda>sz size. size + ucast sz) (km_core_sizes md) 0"

fun module_state_num :: "module_state \<Rightarrow> u32" where
  "module_state_num MODULE_STATE_LIVE = 0"
| "module_state_num MODULE_STATE_COMING = 1"
| "module_state_num MODULE_STATE_GOING = 2"
| "module_state_num MODULE_STATE_UNFORMED = 3"

definition mod_info_of :: "kmodule \<Rightarrow> ac_mod_info" where
  "mod_info_of md = \<lparr>mi_name = strscpy AC_MOD_NAME_LEN (km_name md), mi_size = ac_module_size md,
                      mi_state = module_state_num (km_state md)\<rparr>"

fun mods_loop :: "kmodule list \<Rightarrow> ac_mod_info list \<Rightarrow> ac_mod_info list" where
  "mods_loop [] acc = acc"
| "mods_loop (md # mods) acc =
     (if \<not> ac_module_sane md then mods_loop mods acc
      else if length acc \<ge> AC_MAX_MODS then acc
      else mods_loop mods (acc @ [mod_info_of md]))"

definition ac_build_mod_snapshot :: "kimage \<Rightarrow> bool \<Rightarrow> ac_fd_state \<Rightarrow> kret \<times> ac_fd_state" where
  "ac_build_mod_snapshot img alloc_ok st =
     (let st0 = st\<lparr>fd_mods := None, fd_n_mods := 0\<rparr> in
      if \<not> alloc_ok then (RetErr ENOMEM, st0)
      else let mods = mods_loop (kmods img) []
           in (RetOK, st0\<lparr>fd_mods := Some mods, fd_n_mods := length mods\<rparr>))"

subsection \<open>Flags\<close>

lemma is_rwx_bits: "is_rwx f \<longleftrightarrow> bit f 1 \<and> bit f 2"
proof -
  have e: "(AC_VM_EXEC OR AC_VM_WRITE :: u64) = push_bit 1 (mask 2)"
    by (simp add: AC_VM_EXEC_def AC_VM_WRITE_def mask_eq_exp_minus_1)
  have b: "bit (AC_VM_EXEC OR AC_VM_WRITE) n \<longleftrightarrow> n = 1 \<or> n = 2" for n
    unfolding e bit_push_bit_iff bit_mask_iff by auto
  have "is_rwx f \<longleftrightarrow> (\<forall>n < 64. n = 1 \<or> n = 2 \<longrightarrow> bit f n)"
    unfolding is_rwx_def bit_eq_iff [of _ "AC_VM_EXEC OR AC_VM_WRITE"] bit_and_iff b by auto
  also have "\<dots> \<longleftrightarrow> bit f 1 \<and> bit f 2"
    by (force dest: spec [of _ 1] spec [of _ 2])
  finally show ?thesis .
qed

lemma is_exec_bit: "is_exec f \<longleftrightarrow> bit f 2"
proof -
  have "(AC_VM_EXEC :: u64) = 2 ^ 2" by (simp add: AC_VM_EXEC_def)
  then show ?thesis by (simp add: is_exec_def bit_iff_and_push_bit_not_eq_0 push_bit_eq_mult)
qed

subsection \<open>The invariant of a descriptor\<close>

definition fd_ok :: "ac_fd_state \<Rightarrow> bool" where
  "fd_ok st \<longleftrightarrow>
     fd_n_vmas st = (case fd_vmas st of None \<Rightarrow> 0 | Some vs \<Rightarrow> length vs) \<and>
     fd_n_vmas st \<le> AC_MAX_VMAS \<and>
     fd_n_mods st = (case fd_mods st of None \<Rightarrow> 0 | Some ms \<Rightarrow> length ms) \<and>
     fd_n_mods st \<le> AC_MAX_MODS"

definition file_ok :: "ac_file \<Rightarrow> bool" where
  "file_ok f \<longleftrightarrow> (case private_data f of None \<Rightarrow> True | Some st \<Rightarrow> fd_ok st)"

lemma zero_fd_ok: "fd_ok zero_fd_state"
  by (simp add: fd_ok_def zero_fd_state_def)

lemma get_fd_state_ok:
  assumes "file_ok f" "ac_get_fd_state a f = (Some st, f')"
  shows "fd_ok st" "private_data f' = Some st"
  using assms zero_fd_ok by (auto simp: ac_get_fd_state_def file_ok_def split: option.splits if_splits)

subsection \<open>What the loop collects\<close>

definition vma_events :: "(nat \<Rightarrow> u64) \<Rightarrow> int \<Rightarrow> nat \<Rightarrow> vma \<Rightarrow> ac_vma_info \<Rightarrow> ac_event list" where
  "vma_events clk pid n v vi =
     (if is_rwx (vm_flags v) then [make_event (clk (2 * n)) AC_EV_RWX pid (Some ''?'') (rwx_message vi)]
      else []) @
     (if vm_file v = None \<and> is_exec (vm_flags v)
      then [make_event (clk (2 * n + 1)) AC_EV_ANON_EXEC pid (Some ''?'') (anon_message vi)] else [])"

lemma vi_is_file_vma_info [simp]: "vi_is_file (vma_info_of b v) \<longleftrightarrow> vm_file v \<noteq> None"
  by (simp add: vma_info_of_def)

lemma scan_vma_eq:
  "scan_vma clk buf_ok pid emit n v (st, r) =
     (st\<lparr>fd_vmas := map_option (\<lambda>vs. vs @ [vma_info_of buf_ok v]) (fd_vmas st),
         fd_rwx_count := fd_rwx_count st + (if is_rwx (vm_flags v) then 1 else 0),
         fd_anon_exec_count := fd_anon_exec_count st
           + (if vm_file v = None \<and> is_exec (vm_flags v) then 1 else 0),
         fd_exec_count := fd_exec_count st + (if is_exec (vm_flags v) then 1 else 0)\<rparr>,
      fold ring_push (if emit then vma_events clk pid n v (vma_info_of buf_ok v) else []) r)"
  by (simp add: scan_vma_def Let_def vma_events_def ac_emit_def)

fun vma_infos :: "(nat \<Rightarrow> bool) \<Rightarrow> nat \<Rightarrow> vma list \<Rightarrow> ac_vma_info list" where
  "vma_infos buf_ok n [] = []"
| "vma_infos buf_ok n (v # vs) = vma_info_of (buf_ok n) v # vma_infos buf_ok (Suc n) vs"

fun all_vma_events :: "(nat \<Rightarrow> u64) \<Rightarrow> (nat \<Rightarrow> bool) \<Rightarrow> int \<Rightarrow> nat \<Rightarrow> vma list \<Rightarrow> ac_event list" where
  "all_vma_events clk buf_ok pid n [] = []"
| "all_vma_events clk buf_ok pid n (v # vs) =
     vma_events clk pid n v (vma_info_of (buf_ok n) v) @ all_vma_events clk buf_ok pid (Suc n) vs"

lemma length_vma_infos [simp]: "length (vma_infos buf_ok n vs) = length vs"
  by (induction vs arbitrary: n) simp_all

lemma nth_vma_infos: "i < length vs \<Longrightarrow> vma_infos buf_ok n vs ! i = vma_info_of (buf_ok (n + i)) (vs ! i)"
proof (induction vs arbitrary: n i)
  case (Cons v vs)
  then show ?case by (cases i) simp_all
qed simp

lemma vma_loop_eq:
  assumes "n \<le> AC_MAX_VMAS"
  shows "vma_loop clk buf_ok pid emit n vs (st, r) =
    (let seen = take (AC_MAX_VMAS - n) vs in
     (n + length seen,
      st\<lparr>fd_vmas := map_option (\<lambda>xs. xs @ vma_infos buf_ok n seen) (fd_vmas st),
         fd_rwx_count := fd_rwx_count st + length (filter (\<lambda>v. is_rwx (vm_flags v)) seen),
         fd_anon_exec_count := fd_anon_exec_count st
           + length (filter (\<lambda>v. vm_file v = None \<and> is_exec (vm_flags v)) seen),
         fd_exec_count := fd_exec_count st + length (filter (\<lambda>v. is_exec (vm_flags v)) seen),
         fd_truncated := fd_truncated st \<or> n + length vs > AC_MAX_VMAS\<rparr>,
      fold ring_push (if emit then all_vma_events clk buf_ok pid n seen else []) r))"
  using assms
proof (induction vs arbitrary: n st r)
  case Nil
  then show ?case by (cases "fd_vmas st") simp_all
next
  case (Cons v vs)
  show ?case
  proof (cases "n < AC_MAX_VMAS")
    case True
    then have "take (AC_MAX_VMAS - n) (v # vs) = v # take (AC_MAX_VMAS - Suc n) vs"
      by (metis Suc_diff_Suc take_Suc_Cons)
    with True show ?thesis
      by (simp add: Cons.IH scan_vma_eq Let_def option.map_comp comp_def)
  next
    case False
    with Cons.prems show ?thesis by (cases "fd_vmas st") simp_all
  qed
qed

lemma fold_ring_push_ok: "ring_ok r \<Longrightarrow> ring_ok (fold ring_push es r)"
  by (induction es arbitrary: r) (simp_all add: ring_push_ok)

lemma mods_loop_eq:
  "length acc \<le> AC_MAX_MODS \<Longrightarrow>
     mods_loop ms acc = take AC_MAX_MODS (acc @ map mod_info_of (filter ac_module_sane ms))"
  by (induction ms arbitrary: acc) (auto simp: take_Cons')

lemma mmput_get_mm: "mm \<noteq> 0 \<Longrightarrow> mmput mm (get_mm mm m) = m"
  by (simp add: mmput_def get_mm_def)

lemma get_mm_sel [simp]:
  "m_reg (get_mm mm m) = m_reg m" "m_ring (get_mm mm m) = m_ring m"
  "(get_mm mm m)\<lparr>m_reg := s\<rparr> = get_mm mm (m\<lparr>m_reg := s\<rparr>)"
  "(get_mm mm m)\<lparr>m_ring := r\<rparr> = get_mm mm (m\<lparr>m_ring := r\<rparr>)"
  by (simp_all add: get_mm_def)

definition cleared_scan :: "ac_fd_state \<Rightarrow> ac_fd_state" where
  "cleared_scan st = st\<lparr>fd_vmas := None, fd_n_vmas := 0, fd_rwx_count := 0, fd_exec_count := 0,
                        fd_anon_exec_count := 0, fd_truncated := False\<rparr>"

text \<open>The task, its address space and the outcome of a scan, in closed form.\<close>

definition scan_mm :: "kenv \<Rightarrow> kmm \<Rightarrow> int \<Rightarrow> nat" where
  "scan_mm env kmm pid =
     (if resolve_pid env pid = 0 then 0 else get_task_mm kmm (resolve_pid env pid))"

lemma ac_build_vma_snapshot_eq:
  "ac_build_vma_snapshot env kmm clk alloc_ok buf_ok pid emit st m =
     (if scan_mm env kmm pid = 0 then (RetErr ESRCH, cleared_scan st, m)
      else if \<not> alloc_ok then (RetErr ENOMEM, cleared_scan st, m)
      else let (n, st1, r1) = vma_loop clk buf_ok pid emit 0 (mm_vmas kmm (scan_mm env kmm pid))
                                ((cleared_scan st)\<lparr>fd_vmas := Some []\<rparr>, m_ring m)
           in (RetOK, st1\<lparr>fd_n_vmas := n\<rparr>, m\<lparr>m_ring := r1\<rparr>))"
  by (simp add: ac_build_vma_snapshot_def scan_mm_def cleared_scan_def ac_find_task_eq Let_def
      hold_def mmput_get_mm split: prod.split) (simp add: get_mm_def)

lemma snapshot_fd_ok:
  assumes "fd_ok st"
  shows "fd_ok (fst (snd (ac_build_vma_snapshot env kmm clk a buf_ok pid emit st m)))"
    and "fd_ok (snd (ac_build_mod_snapshot img a st))"
proof -
  show "fd_ok (fst (snd (ac_build_vma_snapshot env kmm clk a buf_ok pid emit st m)))"
    using assms
    by (simp add: ac_build_vma_snapshot_eq vma_loop_eq Let_def fd_ok_def cleared_scan_def)
  show "fd_ok (snd (ac_build_mod_snapshot img a st))"
    using assms
    by (simp add: ac_build_mod_snapshot_def mods_loop_eq Let_def fd_ok_def)
qed

lemma snapshot_module_inv:
  assumes "module_inv m"
  shows "module_inv (snd (snd (ac_build_vma_snapshot env kmm clk a buf_ok pid emit st m)))"
  using assms module_inv_ring [OF assms fold_ring_push_ok [OF module_invD(1) [OF assms]]]
  by (simp add: ac_build_vma_snapshot_eq vma_loop_eq Let_def)

lemmas [ac_inv] = snapshot_fd_ok snapshot_module_inv

subsection \<open>Properties\<close>

text \<open>C24. A scan describes the first 4096 mappings of the process: the snapshot has one entry per
  mapping in address order, the three counters are the numbers of writable-and-executable,
  executable and anonymous executable mappings among them, \<open>truncated\<close> says whether there were more,
  and with \<open>emit_events\<close> one event is queued per finding. No task or address space reference is
  leaked. A pid without a task or without an address space gives ESRCH, a failed allocation ENOMEM,
  and both leave an empty snapshot.\<close>

theorem vma_snapshot_exact:
  "let (ret, st', m') = ac_build_vma_snapshot env kmm clk alloc_ok buf_ok pid emit st m;
       mm = scan_mm env kmm pid; vmas = mm_vmas kmm mm; seen = take 4096 vmas
   in if mm \<noteq> 0 \<and> alloc_ok
      then ret = RetOK \<and> fd_vmas st' = Some (vma_infos buf_ok 0 seen) \<and>
           fd_n_vmas st' = min 4096 (length vmas) \<and>
           fd_rwx_count st' = length (filter (\<lambda>v. bit (vm_flags v) 1 \<and> bit (vm_flags v) 2) seen) \<and>
           fd_exec_count st' = length (filter (\<lambda>v. bit (vm_flags v) 2) seen) \<and>
           fd_anon_exec_count st' = length (filter (\<lambda>v. vm_file v = None \<and> bit (vm_flags v) 2) seen) \<and>
           (fd_truncated st' \<longleftrightarrow> 4096 < length vmas) \<and>
           m' = m\<lparr>m_ring := fold ring_push (if emit then all_vma_events clk buf_ok pid 0 seen else [])
                               (m_ring m)\<rparr>
      else ret = RetErr (if mm = 0 then ESRCH else ENOMEM) \<and> st' = cleared_scan st \<and> m' = m"
  by (simp add: ac_build_vma_snapshot_eq vma_loop_eq Let_def AC_MAX_VMAS_def is_rwx_bits is_exec_bit
      cleared_scan_def min.commute)

text \<open>The module snapshot is the list of sane entries of the module list, in list order, cut
  after 1024 of them; entries that are not live or have no sane text mapping are never shown.\<close>

theorem mod_snapshot_exact:
  "ac_build_mod_snapshot img alloc_ok st =
     (if alloc_ok
      then let ms = take 1024 (map mod_info_of (filter ac_module_sane (kmods img)))
           in (RetOK, st\<lparr>fd_mods := Some ms, fd_n_mods := length ms\<rparr>)
      else (RetErr ENOMEM, st\<lparr>fd_mods := None, fd_n_mods := 0\<rparr>))"
  by (simp add: ac_build_mod_snapshot_def mods_loop_eq AC_MAX_MODS_def Let_def)

end
