(* ===== verification/Module_Ioctl.thy ===== *)
theory Module_Ioctl
  imports Fd_Snapshots
begin

text \<open>
  The control interface of the kernel module: the ioctl numbers of src/src/anticheat.h, and
  \<open>ac_open\<close>, \<open>ac_release\<close> and every case of \<open>ac_ioctl\<close> of src/src/anticheat_module.c.

  What a call depends on besides the state is collected in \<open>kcall\<close>: the kernel's tables, the clock,
  the capability of the caller, the outcome of each allocation, of \<open>try_module_get\<close> and of the copy to
  user memory. What \<open>copy_from_user\<close> reads is the field of \<open>uarg\<close> for the command's structure,
  \<^term>\<open>None\<close> for a fault. What is copied to user memory is returned as a \<open>ureply\<close>.
\<close>

subsection \<open>Structure sizes and ioctl numbers\<close>

definition align_up :: "nat \<Rightarrow> nat \<Rightarrow> nat" where
  "align_up a n = (n + (a - 1)) div a * a"

text \<open>A structure as a list of fields (size and alignment), laid out by the C rules.\<close>

fun layout_end :: "nat \<Rightarrow> (nat \<times> nat) list \<Rightarrow> nat" where
  "layout_end off [] = off"
| "layout_end off ((sz, al) # fs) = layout_end (align_up al off + sz) fs"

definition struct_align :: "(nat \<times> nat) list \<Rightarrow> nat" where
  "struct_align fs = fold (\<lambda>(sz, al). max al) fs 1"

definition struct_size :: "(nat \<times> nat) list \<Rightarrow> nat" where
  "struct_size fs = align_up (struct_align fs) (layout_end 0 fs)"

abbreviation f_int :: "nat \<times> nat" where "f_int \<equiv> (4, 4)"
abbreviation f_u64 :: "nat \<times> nat" where "f_u64 \<equiv> (8, 8)"
abbreviation f_chars :: "nat \<Rightarrow> nat \<times> nat" where "f_chars n \<equiv> (n, 1)"
abbreviation f_struct :: "nat \<Rightarrow> (nat \<times> nat) list \<Rightarrow> nat \<times> nat" where
  "f_struct n fs \<equiv> (n * struct_size fs, struct_align fs)"

definition l_status :: "(nat \<times> nat) list" where
  "l_status = [f_u64, f_u64, f_int, f_int, f_int, f_int]"
definition l_proc_id :: "(nat \<times> nat) list" where
  "l_proc_id = [f_int, f_int, f_int, f_chars AC_MAX_COMM]"
definition l_vma_info :: "(nat \<times> nat) list" where
  "l_vma_info = [f_u64, f_u64, f_u64, f_u64, f_u64, f_int, f_chars AC_VMA_PATH]"
definition l_scan_begin :: "(nat \<times> nat) list" where
  "l_scan_begin = [f_int, f_int, f_int, f_int, f_int, f_int, f_int]"
definition l_scan_get :: "(nat \<times> nat) list" where
  "l_scan_get = [f_int, f_int, f_struct 1 l_vma_info]"
definition l_syscall_check :: "(nat \<times> nat) list" where
  "l_syscall_check = [f_u64, f_int, f_int, f_int, f_int, f_int]"
definition l_mod_info :: "(nat \<times> nat) list" where
  "l_mod_info = [f_chars AC_MOD_NAME_LEN, f_u64, f_int]"
definition l_mod_get :: "(nat \<times> nat) list" where
  "l_mod_get = [f_int, f_struct 1 l_mod_info]"
definition l_event :: "(nat \<times> nat) list" where
  "l_event = [f_u64, f_int, f_chars AC_MAX_COMM, f_int, f_chars AC_EVENT_DATA]"
definition l_event_list :: "(nat \<times> nat) list" where
  "l_event_list = [f_int, f_int, f_struct AC_MAX_EVENTS l_event]"
definition l_prot_item :: "(nat \<times> nat) list" where
  "l_prot_item = [f_int, f_int, f_chars AC_MAX_COMM]"
definition l_prot_list :: "(nat \<times> nat) list" where
  "l_prot_list = [f_int, f_struct AC_MAX_PROTS l_prot_item]"

datatype ac_cmd =
  STATUS | ADD_PROC | DEL_PROC | SCAN_BEGIN | CHECK_SYSCALLS | GET_EVENTS | FLUSH_EVENTS
| LIST_PROTECTED | LOCK | UNLOCK | SCAN_GET | SCAN_END | MODS_BEGIN | MODS_GET | MODS_END

definition all_cmds :: "ac_cmd list" where
  "all_cmds = [STATUS, ADD_PROC, DEL_PROC, SCAN_BEGIN, SCAN_GET, SCAN_END, CHECK_SYSCALLS, MODS_BEGIN,
     MODS_GET, MODS_END, GET_EVENTS, FLUSH_EVENTS, LIST_PROTECTED, LOCK, UNLOCK]"

text \<open>\<open>_IO\<close>, \<open>_IOW\<close>, \<open>_IOR\<close> and \<open>_IOWR\<close>: direction in bits 30 and 31, argument size in bits 16 to
  29, the magic number and the command number below.\<close>

definition AC_IOCTL_MAGIC :: nat where [ac_consts]: "AC_IOCTL_MAGIC = 0xAC"
definition AC_IOCTL_VERSION :: u64 where [ac_consts]: "AC_IOCTL_VERSION = 1"

definition IOC_SIZE_MAX :: nat where "IOC_SIZE_MAX = 2 ^ 14"

definition ioc :: "nat \<Rightarrow> nat \<Rightarrow> nat \<Rightarrow> u32" where
  "ioc dir nr sz = of_nat (dir * 2 ^ 30 + sz * 2 ^ 16 + AC_IOCTL_MAGIC * 2 ^ 8 + nr)"

text \<open>Direction, number and argument size of a command.\<close>

fun cmd_spec :: "ac_cmd \<Rightarrow> nat \<times> nat \<times> nat" where
  "cmd_spec STATUS = (2, 1, struct_size l_status)"
| "cmd_spec ADD_PROC = (1, 2, struct_size l_proc_id)"
| "cmd_spec DEL_PROC = (1, 3, struct_size l_proc_id)"
| "cmd_spec SCAN_BEGIN = (3, 4, struct_size l_scan_begin)"
| "cmd_spec CHECK_SYSCALLS = (2, 5, struct_size l_syscall_check)"
| "cmd_spec GET_EVENTS = (2, 7, struct_size l_event_list)"
| "cmd_spec FLUSH_EVENTS = (0, 8, 0)"
| "cmd_spec LIST_PROTECTED = (2, 9, struct_size l_prot_list)"
| "cmd_spec LOCK = (0, 10, 0)"
| "cmd_spec UNLOCK = (0, 11, 0)"
| "cmd_spec SCAN_GET = (3, 12, struct_size l_scan_get)"
| "cmd_spec SCAN_END = (0, 13, 0)"
| "cmd_spec MODS_BEGIN = (2, 14, 4)"
| "cmd_spec MODS_GET = (3, 15, struct_size l_mod_get)"
| "cmd_spec MODS_END = (0, 16, 0)"

definition ioctl_num :: "ac_cmd \<Rightarrow> u32" where
  "ioctl_num c = (case cmd_spec c of (dir, nr, sz) \<Rightarrow> ioc dir nr sz)"

text \<open>The \<open>switch\<close> of \<open>ac_ioctl\<close>: the first case whose number matches, none for \<open>default\<close>.\<close>

definition decode_cmd :: "u32 \<Rightarrow> ac_cmd option" where
  "decode_cmd cmd = List.find (\<lambda>c. ioctl_num c = cmd) all_cmds"

subsection \<open>Arguments and replies\<close>

record ac_proc_id =
  id_pid :: int
  id_ref_pid :: int
  id_jit_allowed :: int
  id_comm :: string

record ac_scan_begin =
  sb_pid :: int
  sb_emit_events :: int
  sb_n_vmas :: nat
  sb_rwx_count :: nat
  sb_exec_count :: nat
  sb_anon_exec_count :: nat
  sb_truncated :: bool

record ac_scan_get =
  sg_pid :: int
  sg_index :: nat
  sg_vma :: ac_vma_info

record ac_mod_get =
  mg_index :: nat
  mg_mod :: ac_mod_info

record ac_status =
  st_version :: u64
  st_syscall_table_addr :: u64
  st_active_procs :: u32
  st_events_dropped :: u32
  st_locked :: bool
  st_syscall_hook_count :: nat

record uarg =
  u_proc_id :: "ac_proc_id option"
  u_scan_begin :: "ac_scan_begin option"
  u_scan_get :: "ac_scan_get option"
  u_mod_get :: "ac_mod_get option"

datatype ureply =
  R_none
| R_status ac_status
| R_scan_begin ac_scan_begin
| R_scan_get ac_scan_get
| R_syscalls ac_syscall_check
| R_mods_begin nat
| R_mod_get ac_mod_get
| R_events ac_event_list
| R_prot_list ac_prot_list

record kcall =
  k_env :: kenv
  k_mm :: kmm
  k_img :: kimage
  k_clk :: "nat \<Rightarrow> u64"
  k_capable :: bool
  k_alloc_fd :: bool
  k_alloc_snapshot :: bool
  k_alloc_events :: bool
  k_path_buf :: "nat \<Rightarrow> bool"
  k_module_get :: bool
  k_copy_out :: bool

type_synonym ioctl_result = "(kret \<times> ureply) \<times> ac_file \<times> ac_module"

definition copy_to_user :: "kcall \<Rightarrow> ureply \<Rightarrow> kret \<times> ureply" where
  "copy_to_user k r = (if k_copy_out k then (RetOK, r) else (RetErr EFAULT, R_none))"

subsection \<open>The commands\<close>

definition ioctl_status :: "kcall \<Rightarrow> ac_file \<Rightarrow> ac_module \<Rightarrow> ioctl_result" where
  "ioctl_status k f m =
     (copy_to_user k (R_status
        \<lparr>st_version = AC_IOCTL_VERSION, st_syscall_table_addr = ac_syscall_table (m_text m),
         st_active_procs = ac_protected_count (m_reg m), st_events_dropped = ac_dropped (m_ring m),
         st_locked = (m_lock_count m > 0), st_syscall_hook_count = m_last_hook_count m\<rparr>), f, m)"

definition ioctl_add_proc :: "kcall \<Rightarrow> uarg \<Rightarrow> ac_file \<Rightarrow> ac_module \<Rightarrow> ioctl_result" where
  "ioctl_add_proc k u f m =
     (case u_proc_id u of
        None \<Rightarrow> ((RetErr EFAULT, R_none), f, m)
      | Some a \<Rightarrow>
          let ((ret, comm), reg) = ac_add_prot_pid (k_env k) (id_pid a) (id_ref_pid a)
                                     (id_jit_allowed a \<noteq> 0) (m_reg m)
          in ((ret, R_none), f, m\<lparr>m_reg := reg\<rparr>))"

definition ioctl_del_proc :: "kcall \<Rightarrow> uarg \<Rightarrow> ac_file \<Rightarrow> ac_module \<Rightarrow> ioctl_result" where
  "ioctl_del_proc k u f m =
     (case u_proc_id u of
        None \<Rightarrow> ((RetErr EFAULT, R_none), f, m)
      | Some d \<Rightarrow>
          let (t, reg1) = ac_find_task (k_env k) (id_pid d) (m_reg m) in
          if t = 0 then ((RetErr ESRCH, R_none), f, m\<lparr>m_reg := reg1\<rparr>)
          else ((RetOK, R_none), f, m\<lparr>m_reg := put_task_struct t (ac_del_prot_task t reg1)\<rparr>))"

definition ioctl_scan_begin :: "kcall \<Rightarrow> uarg \<Rightarrow> ac_file \<Rightarrow> ac_module \<Rightarrow> ioctl_result" where
  "ioctl_scan_begin k u f m =
     (case u_scan_begin u of
        None \<Rightarrow> ((RetErr EFAULT, R_none), f, m)
      | Some b \<Rightarrow>
          (case ac_get_fd_state (k_alloc_fd k) f of
             (None, f1) \<Rightarrow> ((RetErr ENOMEM, R_none), f1, m)
           | (Some st, f1) \<Rightarrow>
               let (ret, st1, m1) = ac_build_vma_snapshot (k_env k) (k_mm k) (k_clk k)
                                      (k_alloc_snapshot k) (k_path_buf k) (sb_pid b)
                                      (sb_emit_events b \<noteq> 0) st m;
                   f2 = f1\<lparr>private_data := Some st1\<rparr>
               in if ret \<noteq> RetOK then ((ret, R_none), f2, m1)
                  else (copy_to_user k (R_scan_begin
                          (b\<lparr>sb_n_vmas := fd_n_vmas st1, sb_rwx_count := fd_rwx_count st1,
                             sb_exec_count := fd_exec_count st1,
                             sb_anon_exec_count := fd_anon_exec_count st1,
                             sb_truncated := fd_truncated st1\<rparr>)), f2, m1)))"

definition ioctl_scan_get :: "kcall \<Rightarrow> uarg \<Rightarrow> ac_file \<Rightarrow> ac_module \<Rightarrow> ioctl_result" where
  "ioctl_scan_get k u f m =
     (case u_scan_get u of
        None \<Rightarrow> ((RetErr EFAULT, R_none), f, m)
      | Some g \<Rightarrow>
          (case private_data f of
             None \<Rightarrow> ((RetErr EINVAL, R_none), f, m)
           | Some st \<Rightarrow>
               if sg_index g \<ge> fd_n_vmas st then ((RetErr EINVAL, R_none), f, m)
               else (copy_to_user k (R_scan_get (g\<lparr>sg_vma := the (fd_vmas st) ! sg_index g\<rparr>)), f, m)))"

definition ioctl_scan_end :: "ac_file \<Rightarrow> ac_module \<Rightarrow> ioctl_result" where
  "ioctl_scan_end f m =
     ((RetOK, R_none),
      f\<lparr>private_data := map_option (\<lambda>st. st\<lparr>fd_vmas := None, fd_n_vmas := 0\<rparr>) (private_data f)\<rparr>, m)"

definition ioctl_check_syscalls :: "kcall \<Rightarrow> ac_file \<Rightarrow> ac_module \<Rightarrow> ioctl_result" where
  "ioctl_check_syscalls k f m =
     (let ((ret, c), r) = ac_check_syscalls (k_img k) (m_text m) (k_clk k) (m_ring m);
          m1 = m\<lparr>m_ring := r\<rparr>
      in if ret \<noteq> RetOK then ((ret, R_none), f, m1)
         else (copy_to_user k (R_syscalls c), f, m1\<lparr>m_last_hook_count := sc_hooked c\<rparr>))"

definition ioctl_mods_begin :: "kcall \<Rightarrow> ac_file \<Rightarrow> ac_module \<Rightarrow> ioctl_result" where
  "ioctl_mods_begin k f m =
     (case ac_get_fd_state (k_alloc_fd k) f of
        (None, f1) \<Rightarrow> ((RetErr ENOMEM, R_none), f1, m)
      | (Some st, f1) \<Rightarrow>
          let (ret, st1) = ac_build_mod_snapshot (k_img k) (k_alloc_snapshot k) st;
              f2 = f1\<lparr>private_data := Some st1\<rparr>
          in if ret \<noteq> RetOK then ((ret, R_none), f2, m)
             else (copy_to_user k (R_mods_begin (fd_n_mods st1)), f2, m))"

definition ioctl_mods_get :: "kcall \<Rightarrow> uarg \<Rightarrow> ac_file \<Rightarrow> ac_module \<Rightarrow> ioctl_result" where
  "ioctl_mods_get k u f m =
     (case u_mod_get u of
        None \<Rightarrow> ((RetErr EFAULT, R_none), f, m)
      | Some g \<Rightarrow>
          (case private_data f of
             None \<Rightarrow> ((RetErr EINVAL, R_none), f, m)
           | Some st \<Rightarrow>
               if mg_index g \<ge> fd_n_mods st then ((RetErr EINVAL, R_none), f, m)
               else (copy_to_user k (R_mod_get (g\<lparr>mg_mod := the (fd_mods st) ! mg_index g\<rparr>)), f, m)))"

definition ioctl_mods_end :: "ac_file \<Rightarrow> ac_module \<Rightarrow> ioctl_result" where
  "ioctl_mods_end f m =
     ((RetOK, R_none),
      f\<lparr>private_data := map_option (\<lambda>st. st\<lparr>fd_mods := None, fd_n_mods := 0\<rparr>) (private_data f)\<rparr>, m)"

definition ioctl_get_events :: "kcall \<Rightarrow> ac_file \<Rightarrow> ac_module \<Rightarrow> ioctl_result" where
  "ioctl_get_events k f m =
     (if \<not> k_alloc_events k then ((RetErr ENOMEM, R_none), f, m)
      else case ac_drain_events (Some kzalloc_event_list) (m_ring m) of
             (Some el, r) \<Rightarrow> (copy_to_user k (R_events el), f, m\<lparr>m_ring := r\<rparr>)
           | (None, r) \<Rightarrow> ((RetOK, R_none), f, m\<lparr>m_ring := r\<rparr>))"

definition ioctl_flush_events :: "ac_file \<Rightarrow> ac_module \<Rightarrow> ioctl_result" where
  "ioctl_flush_events f m =
     ((RetOK, R_none), f, m\<lparr>m_ring := snd (ac_drain_events None (m_ring m))\<rparr>)"

definition ioctl_list_protected :: "kcall \<Rightarrow> ac_file \<Rightarrow> ac_module \<Rightarrow> ioctl_result" where
  "ioctl_list_protected k f m = (copy_to_user k (R_prot_list (ac_list_protected (m_reg m))), f, m)"

definition ioctl_lock :: "kcall \<Rightarrow> ac_file \<Rightarrow> ac_module \<Rightarrow> ioctl_result" where
  "ioctl_lock k f m =
     (if k_module_get k
      then ((RetOK, R_none), f, m\<lparr>m_module_refs := m_module_refs m + 1, m_lock_count := m_lock_count m + 1\<rparr>)
      else ((RetErr EBUSY, R_none), f, m))"

definition ioctl_unlock :: "ac_file \<Rightarrow> ac_module \<Rightarrow> ioctl_result" where
  "ioctl_unlock f m =
     ((RetOK, R_none), f,
      if m_lock_count m > 0
      then m\<lparr>m_lock_count := m_lock_count m - 1, m_module_refs := m_module_refs m - 1\<rparr> else m)"

fun run_cmd :: "kcall \<Rightarrow> ac_cmd \<Rightarrow> uarg \<Rightarrow> ac_file \<Rightarrow> ac_module \<Rightarrow> ioctl_result" where
  "run_cmd k STATUS u f m = ioctl_status k f m"
| "run_cmd k ADD_PROC u f m = ioctl_add_proc k u f m"
| "run_cmd k DEL_PROC u f m = ioctl_del_proc k u f m"
| "run_cmd k SCAN_BEGIN u f m = ioctl_scan_begin k u f m"
| "run_cmd k SCAN_GET u f m = ioctl_scan_get k u f m"
| "run_cmd k SCAN_END u f m = ioctl_scan_end f m"
| "run_cmd k CHECK_SYSCALLS u f m = ioctl_check_syscalls k f m"
| "run_cmd k MODS_BEGIN u f m = ioctl_mods_begin k f m"
| "run_cmd k MODS_GET u f m = ioctl_mods_get k u f m"
| "run_cmd k MODS_END u f m = ioctl_mods_end f m"
| "run_cmd k GET_EVENTS u f m = ioctl_get_events k f m"
| "run_cmd k FLUSH_EVENTS u f m = ioctl_flush_events f m"
| "run_cmd k LIST_PROTECTED u f m = ioctl_list_protected k f m"
| "run_cmd k LOCK u f m = ioctl_lock k f m"
| "run_cmd k UNLOCK u f m = ioctl_unlock f m"

definition ac_ioctl :: "kcall \<Rightarrow> u32 \<Rightarrow> uarg \<Rightarrow> ac_file \<Rightarrow> ac_module \<Rightarrow> ioctl_result" where
  "ac_ioctl k cmd u f m =
     (if \<not> k_capable k then ((RetErr EPERM, R_none), f, m)
      else case decode_cmd cmd of
             Some c \<Rightarrow> run_cmd k c u f m
           | None \<Rightarrow> ((RetErr ENOTTY, R_none), f, m))"

subsection \<open>Opening and closing the device\<close>

definition ac_open :: "bool \<Rightarrow> ac_file \<Rightarrow> kret \<times> ac_file" where
  "ac_open capable f =
     (if \<not> capable then (RetErr EPERM, f) else (RetOK, f\<lparr>private_data := None\<rparr>))"

definition ac_release :: "ac_file \<Rightarrow> kret \<times> ac_file" where
  "ac_release f = (RetOK, f\<lparr>private_data := None\<rparr>)"

subsection \<open>The numbers of the commands\<close>

lemma struct_sizes:
  "struct_size l_status = 32" "struct_size l_proc_id = 28" "struct_size l_scan_begin = 28"
  "struct_size l_scan_get = 184" "struct_size l_syscall_check = 32" "struct_size l_mod_get = 88"
  "struct_size l_event_list = 10248" "struct_size l_prot_list = 1540"
  by (simp_all add: struct_size_def struct_align_def align_up_def ac_consts l_status_def l_proc_id_def
      l_scan_begin_def l_scan_get_def l_syscall_check_def l_mod_get_def l_event_list_def l_prot_list_def
      l_vma_info_def l_mod_info_def l_event_def l_prot_item_def)

lemma set_all_cmds: "set all_cmds = UNIV"
proof -
  have "c \<in> set all_cmds" for c by (cases c) (simp_all add: all_cmds_def)
  then show ?thesis by blast
qed

lemma cmd_spec_bounds:
  assumes "cmd_spec c = (dir, nr, sz)"
  shows "dir < 4" "nr < 2 ^ 8" "sz < IOC_SIZE_MAX"
  using assms by (cases c; simp add: struct_sizes IOC_SIZE_MAX_def)+

lemma cmd_spec_nr_inj:
  assumes "fst (snd (cmd_spec c)) = fst (snd (cmd_spec d))"
  shows "c = d"
  using assms by (cases c; cases d; simp)

text \<open>With fields inside their widths, the command number can be read back from the low byte.\<close>

lemma unat_ioc:
  assumes "dir < 4" "nr < 2 ^ 8" "sz < IOC_SIZE_MAX"
  shows "unat (ioc dir nr sz) = dir * 2 ^ 30 + sz * 2 ^ 16 + 0xAC * 2 ^ 8 + nr"
proof -
  have "dir * 2 ^ 30 + sz * 2 ^ 16 + 0xAC * 2 ^ 8 + nr < 2 ^ 32"
    using assms by (simp add: IOC_SIZE_MAX_def)
  then show ?thesis by (simp only: ioc_def AC_IOCTL_MAGIC_def) (simp add: unsigned_of_nat take_bit_nat_eq_self del: of_nat_add of_nat_mult)
qed

lemma ioctl_num_nr: "unat (ioctl_num c) mod 2 ^ 8 = fst (snd (cmd_spec c))"
proof -
  obtain dir nr sz where c: "cmd_spec c = (dir, nr, sz)" by (cases "cmd_spec c")
  have "unat (ioctl_num c) = (dir * 2 ^ 22 + sz * 2 ^ 8 + 0xAC) * 2 ^ 8 + nr"
    unfolding ioctl_num_def c using unat_ioc [OF cmd_spec_bounds [OF c]] by simp
  then have "unat (ioctl_num c) mod 2 ^ 8 = nr mod 2 ^ 8" by (simp only: mod_mult_self3)
  with cmd_spec_bounds(2) [OF c] c show ?thesis by simp
qed

lemma ioctl_num_inj: "ioctl_num c = ioctl_num d \<Longrightarrow> c = d"
  by (rule cmd_spec_nr_inj) (simp only: ioctl_num_nr [symmetric])

lemma decode_cmd_num: "decode_cmd (ioctl_num c) = Some c"
proof -
  have "List.find (\<lambda>d. ioctl_num d = ioctl_num c) xs = Some c" if "c \<in> set xs" for xs
    using that by (induction xs) (auto dest: ioctl_num_inj)
  then show ?thesis by (simp add: decode_cmd_def set_all_cmds)
qed

lemma decode_cmd_None: "decode_cmd cmd = None \<longleftrightarrow> cmd \<notin> range ioctl_num"
  by (auto simp: decode_cmd_def find_None_iff set_all_cmds)

lemma ac_ioctl_capable [simp]: "k_capable k \<Longrightarrow> ac_ioctl k (ioctl_num c) u f m = run_cmd k c u f m"
  by (simp add: ac_ioctl_def decode_cmd_num)

subsection \<open>Every command keeps the invariants\<close>

lemma module_inv_hook_count:
  "module_inv m \<Longrightarrow> module_inv (m\<lparr>m_last_hook_count := n\<rparr>)"
  by (simp add: module_inv_def probes_inv_def)

lemma module_inv_lock:
  "module_inv m \<Longrightarrow> module_inv (m\<lparr>m_module_refs := m_module_refs m + 1, m_lock_count := m_lock_count m + 1\<rparr>)"
  "module_inv m \<Longrightarrow> m_lock_count m > 0 \<Longrightarrow>
     module_inv (m\<lparr>m_lock_count := m_lock_count m - 1, m_module_refs := m_module_refs m - 1\<rparr>)"
  by (simp_all add: module_inv_def probes_inv_def)

lemma fold_report_hook_ok: "ring_ok r \<Longrightarrow> ring_ok (fold (report_hook clk) es r)"
  by (induction es arbitrary: r) (auto intro: ac_emit_ok)

lemma ac_check_syscalls_ring_ok:
  "ring_ok r \<Longrightarrow> ring_ok (snd (ac_check_syscalls img t clk r))"
  by (simp add: ac_check_syscalls_def check_syscalls_loop_eq Let_def fold_report_hook_ok)

lemma copy_to_user_cases [simp]:
  "fst (copy_to_user k r) = (if k_copy_out k then RetOK else RetErr EFAULT)"
  "snd (copy_to_user k r) = (if k_copy_out k then r else R_none)"
  by (simp_all add: copy_to_user_def)

lemma del_held_ok:
  assumes "registry_ok s" "t \<noteq> 0"
  shows "registry_ok (put_task_struct t (ac_del_prot_task t (hold t s)))"
    and "protected_map (put_task_struct t (ac_del_prot_task t (hold t s))) = (protected_map s)(t := None)"
  using registry_ok_hold_put [OF assms] del_prot_task_map [OF registry_inv_hold [OF assms] assms(2)]
  by simp_all

lemma add_prot_pid_ok:
  assumes "registry_ok s"
  shows "registry_ok (snd (ac_add_prot_pid env pid ref_pid jit s))"
    and "pid_refs (snd (ac_add_prot_pid env pid ref_pid jit s)) = pid_refs s"
proof -
  show "registry_ok (snd (ac_add_prot_pid env pid ref_pid jit s))"
    using assms clone_child_added(1) [OF assms, of "add_target env pid ref_pid" env jit]
    by (simp add: ac_add_prot_pid_eq Let_def case_prod_beta)
  show "pid_refs (snd (ac_add_prot_pid env pid ref_pid jit s)) = pid_refs s"
    by (simp add: ac_add_prot_pid_eq Let_def hold_def case_prod_beta)
qed

text \<open>Commands that never touch the descriptor.\<close>

lemma run_cmd_file:
  assumes "c \<notin> {SCAN_BEGIN, SCAN_END, MODS_BEGIN, MODS_END}"
  shows "fst (snd (run_cmd k c u f m)) = f"
  using assms
  by (cases c)
    (auto simp: ioctl_status_def ioctl_add_proc_def ioctl_del_proc_def ioctl_scan_get_def
      ioctl_check_syscalls_def ioctl_mods_get_def ioctl_get_events_def ioctl_flush_events_def
      ioctl_list_protected_def ioctl_lock_def ioctl_unlock_def Let_def
      split: option.splits prod.splits)

lemma run_cmd_module_inv:
  assumes "module_inv m"
  shows "module_inv (snd (snd (run_cmd k c u f m)))"
proof (cases c)
  case ADD_PROC
  have "module_inv (m\<lparr>m_reg := snd (ac_add_prot_pid env pid ref_pid jit (m_reg m))\<rparr>)" for env pid ref_pid jit
    using add_prot_pid_ok [OF module_invD(2) [OF assms]] by (rule module_inv_reg [OF assms])
  with ADD_PROC assms show ?thesis
    by (auto simp: ioctl_add_proc_def Let_def case_prod_beta split: option.split)
next
  case DEL_PROC
  have "module_inv (m\<lparr>m_reg := put_task_struct t (ac_del_prot_task t (hold t (m_reg m)))\<rparr>)" if "t \<noteq> 0" for t
    using del_held_ok(1) [OF module_invD(2) [OF assms] that] by (rule module_inv_reg [OF assms]) simp
  with DEL_PROC assms show ?thesis
    by (auto simp: ioctl_del_proc_def Let_def ac_find_task_eq hold_def split: option.split)
next
  case SCAN_BEGIN
  then show ?thesis
    using assms snapshot_module_inv [OF assms]
    by (auto simp: ioctl_scan_begin_def Let_def case_prod_beta split: option.split)
next
  case CHECK_SYSCALLS
  have "module_inv (m\<lparr>m_ring := snd (ac_check_syscalls img t clk (m_ring m))\<rparr>)" for img t clk
    using assms module_invD(1) [OF assms] by (intro module_inv_ring ac_check_syscalls_ring_ok)
  with CHECK_SYSCALLS show ?thesis
    using module_inv_hook_count
    by (auto simp: ioctl_check_syscalls_def Let_def case_prod_beta)
next
  case GET_EVENTS
  obtain el r where "ac_drain_events (Some kzalloc_event_list) (m_ring m) = (Some el, r)" "ring_ok r"
    by (rule ac_drain_events_kzalloc [OF module_invD(1) [OF assms]])
  with GET_EVENTS assms show ?thesis
    by (auto simp: ioctl_get_events_def intro: module_inv_ring)
next
  case FLUSH_EVENTS
  then show ?thesis
    using module_inv_ring [OF assms ring_flush_spec(3) [OF module_invD(1) [OF assms]]]
    by (simp add: ioctl_flush_events_def ring_flush_def)
next
  case LOCK
  then show ?thesis using assms module_inv_lock(1) by (simp add: ioctl_lock_def)
next
  case UNLOCK
  then show ?thesis using assms module_inv_lock(2) by (simp add: ioctl_unlock_def)
qed (use assms in \<open>auto simp: ioctl_status_def ioctl_scan_get_def ioctl_scan_end_def
       ioctl_mods_begin_def ioctl_mods_get_def ioctl_mods_end_def ioctl_list_protected_def Let_def
       split: option.splits prod.splits\<close>)

lemma run_cmd_file_ok:
  assumes "file_ok f"
  shows "file_ok (fst (snd (run_cmd k c u f m)))"
proof (cases "c \<in> {SCAN_BEGIN, SCAN_END, MODS_BEGIN, MODS_END}")
  case False
  then show ?thesis using assms run_cmd_file by metis
next
  case True
  have st: "fd_ok st" if "fst (ac_get_fd_state a f) = Some st" for a st
    using get_fd_state_ok(1) [OF assms, of a st "snd (ac_get_fd_state a f)"] that
    by (metis prod.collapse)
  have none: "file_ok (snd (ac_get_fd_state a f))" if "fst (ac_get_fd_state a f) = None" for a
    using that assms by (auto simp: ac_get_fd_state_def split: option.splits if_splits)
  have some: "file_ok (g\<lparr>private_data := Some st\<rparr>)" if "fd_ok st" for g :: ac_file and st
    using that by (simp add: file_ok_def)
  from True show ?thesis
  proof (elim insertE emptyE)
    assume "c = SCAN_BEGIN"
    then show ?thesis
      using assms none some st snapshot_fd_ok(1)
      by (simp add: ioctl_scan_begin_def Let_def case_prod_beta split: option.split)
  next
    assume "c = MODS_BEGIN"
    then show ?thesis
      using assms none some st snapshot_fd_ok(2)
      by (simp add: ioctl_mods_begin_def Let_def case_prod_beta split: option.split)
  next
    assume "c = SCAN_END"
    then show ?thesis
      using assms by (auto simp: ioctl_scan_end_def file_ok_def fd_ok_def split: option.splits)
  next
    assume "c = MODS_END"
    then show ?thesis
      using assms by (auto simp: ioctl_mods_end_def file_ok_def fd_ok_def split: option.splits)
  qed
qed

lemma ac_ioctl_inv:
  assumes "module_inv m" "file_ok f"
  shows "module_inv (snd (snd (ac_ioctl k cmd u f m)))" "file_ok (fst (snd (ac_ioctl k cmd u f m)))"
  using assms run_cmd_module_inv run_cmd_file_ok by (auto simp: ac_ioctl_def split: option.split)

lemmas [ac_inv] = ac_ioctl_inv

subsection \<open>Properties\<close>

text \<open>An idle machine for the witnesses: every call succeeds and the caller is privileged.\<close>

definition demo_vma :: vma where
  "demo_vma = \<lparr>vm_start = 0x400000, vm_end = 0x401000, vm_pgoff = 0, vm_flags = 5,
     vm_file = Some \<lparr>f_ino = Some 12, f_dpath = Some ''/bin/game''\<rparr>\<rparr>"

definition demo_call :: kcall where
  "demo_call = \<lparr>k_env = flat_env, k_mm = \<lparr>get_task_mm = id, mm_vmas = (\<lambda>_. [demo_vma, demo_vma])\<rparr>,
     k_img = demo_image, k_clk = (\<lambda>_. 0), k_capable = True, k_alloc_fd = True, k_alloc_snapshot = True,
     k_alloc_events = True, k_path_buf = (\<lambda>_. True), k_module_get = True, k_copy_out = True\<rparr>"

definition demo_arg :: uarg where
  "demo_arg = \<lparr>u_proc_id = Some \<lparr>id_pid = 7, id_ref_pid = 0, id_jit_allowed = 0, id_comm = []\<rparr>,
     u_scan_begin = Some \<lparr>sb_pid = 7, sb_emit_events = 0, sb_n_vmas = 0, sb_rwx_count = 0,
       sb_exec_count = 0, sb_anon_exec_count = 0, sb_truncated = False\<rparr>,
     u_scan_get = Some \<lparr>sg_pid = 7, sg_index = 1, sg_vma = vma_info_of True demo_vma\<rparr>,
     u_mod_get = None\<rparr>"

text \<open>The fifteen ioctl numbers are pairwise different and fit their encoding: the argument size
  of each command is below 2^14, so that no size overflows into the direction bits, and the switch
  recovers the command from its number.\<close>

theorem ioctl_numbers_decode:
  "decode_cmd (ioctl_num c) = Some c \<and> (ioctl_num c = ioctl_num d \<longleftrightarrow> c = d) \<and>
   snd (snd (cmd_spec c)) < 2 ^ 14 \<and>
   unat (ioctl_num c) = (case cmd_spec c of (dir, nr, sz) \<Rightarrow>
     dir * 2 ^ 30 + sz * 2 ^ 16 + 0xAC * 2 ^ 8 + nr)"
proof -
  obtain dir nr sz where c: "cmd_spec c = (dir, nr, sz)" by (cases "cmd_spec c")
  then have "snd (snd (cmd_spec c)) < 2 ^ 14"
    "unat (ioctl_num c) = (case cmd_spec c of (dir, nr, sz) \<Rightarrow>
       dir * 2 ^ 30 + sz * 2 ^ 16 + 0xAC * 2 ^ 8 + nr)"
    using unat_ioc [OF cmd_spec_bounds [OF c]] cmd_spec_bounds(3) [OF c]
    by (simp_all add: ioctl_num_def IOC_SIZE_MAX_def)
  then show ?thesis using decode_cmd_num ioctl_num_inj by blast
qed

text \<open>A caller without the capability gets EPERM from every command and a number that is no
  command gets ENOTTY; neither writes user memory nor changes the descriptor or the module.\<close>

theorem ioctl_rejects:
  assumes "\<not> k_capable k \<or> cmd \<notin> range ioctl_num"
  shows "ac_ioctl k cmd u f m = ((RetErr (if k_capable k then ENOTTY else EPERM), R_none), f, m)"
proof (cases "k_capable k")
  case True
  with assms have "decode_cmd cmd = None" by (simp add: decode_cmd_None)
  with True show ?thesis by (simp add: ac_ioctl_def)
qed (simp add: ac_ioctl_def)

theorem ioctl_rejects_witness:
  "fst (fst (ac_ioctl demo_call 0 demo_arg \<lparr>private_data = None\<rparr> module_init)) = RetErr ENOTTY"
proof -
  have "unat (ioctl_num c) \<noteq> 0" for c
    using ioctl_num_nr [of c] by (cases c) auto
  then have "0 \<notin> range ioctl_num" by (metis imageE unsigned_0)
  then show ?thesis
    using ioctl_rejects [of demo_call 0 demo_arg "\<lparr>private_data = None\<rparr>" module_init]
    by (simp add: demo_call_def)
qed



lemma scan_begin_reply:
  assumes "k_capable k" "ac_ioctl k (ioctl_num SCAN_BEGIN) u f m = ((RetOK, R_scan_begin b), f1, m1)"
  shows "\<exists>st. private_data f1 = Some st \<and> sb_n_vmas b = fd_n_vmas st \<and> fd_n_vmas st \<le> 4096 \<and>
    scan_mm (k_env k) (k_mm k) (sb_pid b) \<noteq> 0 \<and>
    fd_n_vmas st = min 4096 (length (mm_vmas (k_mm k) (scan_mm (k_env k) (k_mm k) (sb_pid b)))) \<and>
    fd_vmas st = Some (vma_infos (k_path_buf k) 0
      (take 4096 (mm_vmas (k_mm k) (scan_mm (k_env k) (k_mm k) (sb_pid b)))))"
  using assms
  by (auto simp: ioctl_scan_begin_def ac_build_vma_snapshot_eq vma_loop_eq Let_def copy_to_user_def
      cleared_scan_def AC_MAX_VMAS_def min.commute split: option.splits prod.splits if_splits)

text \<open>C26. The scan protocol: after SCAN_BEGIN has replied with \<open>n\<close> mappings, SCAN_GET on that
  descriptor returns the i-th mapping of the scanned process for every index below \<open>n\<close> and EINVAL for
  every other index, however the module state has changed meanwhile; after SCAN_END it returns EINVAL
  for every index.\<close>

theorem scan_protocol:
  assumes "k_capable k" "ac_ioctl k (ioctl_num SCAN_BEGIN) u f m = ((RetOK, R_scan_begin b), f1, m1)"
    and "k_capable k'" "k_copy_out k'" "u_scan_get u' = Some g"
  shows "fst (ac_ioctl k' (ioctl_num SCAN_GET) u' f1 m') =
      (if sg_index g < sb_n_vmas b
       then (RetOK, R_scan_get (g\<lparr>sg_vma := vma_info_of (k_path_buf k (sg_index g))
               (mm_vmas (k_mm k) (scan_mm (k_env k) (k_mm k) (sb_pid b)) ! sg_index g)\<rparr>))
       else (RetErr EINVAL, R_none)) \<and>
    fst (ac_ioctl k' (ioctl_num SCAN_GET) u'
           (fst (snd (ac_ioctl k' (ioctl_num SCAN_END) u' f1 m'))) m') = (RetErr EINVAL, R_none)"
proof -
  obtain st where st: "private_data f1 = Some st" "sb_n_vmas b = fd_n_vmas st"
    "fd_n_vmas st = min 4096 (length (mm_vmas (k_mm k) (scan_mm (k_env k) (k_mm k) (sb_pid b))))"
    "fd_vmas st = Some (vma_infos (k_path_buf k) 0
      (take 4096 (mm_vmas (k_mm k) (scan_mm (k_env k) (k_mm k) (sb_pid b)))))"
    using scan_begin_reply [OF assms(1,2)] by blast
  then show ?thesis
    using assms(3-5)
    by (auto simp: ioctl_scan_get_def ioctl_scan_end_def copy_to_user_def nth_vma_infos not_le)
qed

theorem scan_protocol_witness:
  "\<exists>b f1 m1. ac_ioctl demo_call (ioctl_num SCAN_BEGIN) demo_arg \<lparr>private_data = None\<rparr> module_init
       = ((RetOK, R_scan_begin b), f1, m1) \<and> sb_n_vmas b = 2 \<and>
     fst (fst (ac_ioctl demo_call (ioctl_num SCAN_GET) demo_arg f1 m1)) = RetOK"
proof -
  let ?r = "ac_ioctl demo_call (ioctl_num SCAN_BEGIN) demo_arg \<lparr>private_data = None\<rparr> module_init"
  have mm: "scan_mm flat_env (k_mm demo_call) 7 = 7"
    by (simp add: scan_mm_def resolve_pid_def flat_env_def demo_call_def)
  obtain b f1 m1 where b: "?r = ((RetOK, R_scan_begin b), f1, m1)" "sb_n_vmas b = 2"
    by (simp add: ioctl_scan_begin_def ac_get_fd_state_def ac_build_vma_snapshot_eq mm
        vma_loop_eq Let_def copy_to_user_def AC_MAX_VMAS_def demo_arg_def
        demo_call_def [THEN arg_cong, of k_capable] demo_call_def [THEN arg_cong, of k_env]
        demo_call_def [THEN arg_cong, of k_alloc_fd] demo_call_def [THEN arg_cong, of k_alloc_snapshot]
        demo_call_def [THEN arg_cong, of k_copy_out])
      (simp add: demo_call_def)
  show ?thesis
    using scan_protocol [OF _ b(1), of demo_call demo_arg "the (u_scan_get demo_arg)" m1] b
    by (intro exI [of _ b] exI [of _ f1] exI [of _ m1]) (simp add: demo_call_def demo_arg_def)
qed

text \<open>C27. GET_EVENTS takes the oldest 64 events out of the ring before it copies them out. When the
  copy succeeds the caller receives exactly those; when it faults the caller gets EFAULT and nothing,
  and the events are gone all the same, without being counted as dropped.\<close>

theorem get_events_fault_loses:
  assumes "module_inv m" "k_capable k" "k_alloc_events k"
  shows "\<exists>el r. ac_ioctl k (ioctl_num GET_EVENTS) u f m =
      ((if k_copy_out k then (RetOK, R_events el) else (RetErr EFAULT, R_none)), f, m\<lparr>m_ring := r\<rparr>) \<and>
    take (el_count el) (el_events el) = take 64 (ring_pending (m_ring m)) \<and>
    ring_pending r = drop 64 (ring_pending (m_ring m)) \<and> ac_dropped r = ac_dropped (m_ring m)"
proof -
  obtain el r where d: "ac_drain_events (Some kzalloc_event_list) (m_ring m) = (Some el, r)"
    "ac_dropped r = ac_dropped (m_ring m)" "ring_pending r = drop AC_MAX_EVENTS (ring_pending (m_ring m))"
    by (rule ac_drain_events_kzalloc [OF module_invD(1) [OF assms(1)]])
  have "take (el_count el) (el_events el) = take AC_MAX_EVENTS (ring_pending (m_ring m))"
    using ring_drain_spec(1) [OF module_invD(1) [OF assms(1)]] by (simp add: ring_drain_def d(1))
  with d assms(2,3) show ?thesis
    by (intro exI [of _ el] exI [of _ r])
      (simp add: ioctl_get_events_def copy_to_user_def AC_MAX_EVENTS_def)
qed

theorem get_events_fault_loses_witness:
  "fst (ac_ioctl (demo_call\<lparr>k_copy_out := False\<rparr>) (ioctl_num GET_EVENTS) demo_arg
          \<lparr>private_data = None\<rparr> (emit_m 0 AC_EV_INFO 1 ''x'' ''y'' module_init)) = (RetErr EFAULT, R_none) \<and>
   ring_pending (m_ring (snd (snd (ac_ioctl (demo_call\<lparr>k_copy_out := False\<rparr>) (ioctl_num GET_EVENTS)
     demo_arg \<lparr>private_data = None\<rparr> (emit_m 0 AC_EV_INFO 1 ''x'' ''y'' module_init))))) = []"
proof -
  let ?m = "emit_m 0 AC_EV_INFO 1 ''x'' ''y'' module_init"
  have "length (ring_pending (m_ring ?m)) \<le> 1"
    using ring_push_pending [OF ring_init_ok]
    by (simp add: ac_emit_def module_init_def [THEN arg_cong, of m_ring] del: length_ring_pending)
  then have "drop 64 (ring_pending (m_ring ?m)) = []" by simp
  moreover have "k_capable (demo_call\<lparr>k_copy_out := False\<rparr>)" "k_alloc_events (demo_call\<lparr>k_copy_out := False\<rparr>)"
    by (simp_all add: demo_call_def)
  ultimately show ?thesis
    using get_events_fault_loses [of ?m "demo_call\<lparr>k_copy_out := False\<rparr>" demo_arg "\<lparr>private_data = None\<rparr>"]
      module_inv_emit [OF module_init_inv]
    by (auto simp del: ac_ioctl_capable)
qed

text \<open>Locking pins the module and unlocking releases the pin: LOCK followed by UNLOCK restores
  the state, UNLOCK of an unlocked module does nothing, a refused reference gives EBUSY without a
  change, and STATUS reports \<open>locked\<close> exactly when the module holds a reference on itself.\<close>

theorem lock_unlock_roundtrip:
  assumes "module_inv m" "k_capable k" "k_copy_out k"
  shows "(if k_module_get k
      then fst (ac_ioctl k (ioctl_num LOCK) u f m) = (RetOK, R_none) \<and>
           m_module_refs (snd (snd (ac_ioctl k (ioctl_num LOCK) u f m))) = m_module_refs m + 1 \<and>
           snd (ac_ioctl k (ioctl_num UNLOCK) u f (snd (snd (ac_ioctl k (ioctl_num LOCK) u f m)))) = (f, m)
      else ac_ioctl k (ioctl_num LOCK) u f m = ((RetErr EBUSY, R_none), f, m)) \<and>
    (m_lock_count m = 0 \<longrightarrow> ac_ioctl k (ioctl_num UNLOCK) u f m = ((RetOK, R_none), f, m)) \<and>
    (\<exists>s. fst (ac_ioctl k (ioctl_num STATUS) u f m) = (RetOK, R_status s) \<and>
         (st_locked s \<longleftrightarrow> m_module_refs m > 0))"
  using assms module_invD(5,6) [OF assms(1)]
  by (auto simp: ioctl_lock_def ioctl_unlock_def ioctl_status_def copy_to_user_def)

theorem lock_unlock_roundtrip_witness:
  "m_module_refs (snd (snd (ac_ioctl demo_call (ioctl_num LOCK) demo_arg \<lparr>private_data = None\<rparr> module_init))) = 1"
  using lock_unlock_roundtrip [OF module_init_inv, of demo_call demo_arg "\<lparr>private_data = None\<rparr>"]
  by (simp add: demo_call_def module_init_def [THEN arg_cong, of m_module_refs] del: ac_ioctl_capable)

end
