(* ===== verification/Module_Lifecycle.thy ===== *)
theory Module_Lifecycle
  imports Module_Ioctl
begin

text \<open>
  Loading and unloading the kernel module (\<open>ac_init\<close>, \<open>ac_exit\<close> of src/src/anticheat_module.c), and
  the module as a transition system: every entry point of the module is one step, and the invariants
  hold in every state that is reachable from a successful load.
\<close>

subsection \<open>Loading and unloading\<close>

text \<open>\<open>destroy_workqueue\<close> runs what is still queued and then frees the queue.\<close>

definition destroy_workqueue :: "kenv \<Rightarrow> ac_module \<Rightarrow> ac_module" where
  "destroy_workqueue env m = ((run_work env ^^ length (m_wq m)) m)\<lparr>m_wq_live := False\<rparr>"

text \<open>What the kernel answers during loading.\<close>

record kload =
  l_env :: kenv
  l_img :: kimage
  l_wq_ok :: bool
  l_probe_ok :: "nat \<Rightarrow> bool"
  l_clone_ok :: bool
  l_misc :: kret

definition ac_init :: "kload \<Rightarrow> ac_module \<Rightarrow> kret \<times> ac_module" where
  "ac_init l m =
     (if \<not> l_wq_ok l then (RetErr ENOMEM, m)
      else let m1 = m\<lparr>m_wq_live := True\<rparr>;
               t1 = ac_resolve_text_bounds (l_img l) (m_text m1);
               (base, t2) = ac_find_syscall_table (l_img l) t1;
               m2 = m1\<lparr>m_text := t2\<lparr>ac_syscall_table := base\<rparr>\<rparr>;
               m3 = ac_register_kprobes (l_probe_ok l) (l_clone_ok l) m2
           in case l_misc l of
                RetErr e \<Rightarrow> (RetErr e, destroy_workqueue (l_env l) (ac_unregister_kprobes m3))
              | RetOK \<Rightarrow> (RetOK, m3\<lparr>m_misc_live := True\<rparr>))"

definition ac_exit :: "kenv \<Rightarrow> ac_module \<Rightarrow> ac_module" where
  "ac_exit env m =
     (let m1 = m\<lparr>m_misc_live := False\<rparr>;
          m2 = ac_unregister_kprobes m1;
          m3 = m2\<lparr>m_reg := ac_clear_protected (m_reg m2)\<rparr>
      in destroy_workqueue env m3)"

subsection \<open>The module as a transition system\<close>

text \<open>The module and the device files that are open, by descriptor number.\<close>

record world =
  w_mod :: ac_module
  w_files :: "nat \<Rightarrow> ac_file option"

text \<open>A probe fires only while it is registered; \<open>current\<close> is never NULL. The policy is a module
  parameter that the administrator may write at any time.\<close>

inductive module_step :: "world \<Rightarrow> world \<Rightarrow> bool" where
  Open: "w_files w fd = None \<Longrightarrow> ac_open capable \<lparr>private_data = None\<rparr> = (RetOK, f) \<Longrightarrow>
    module_step w (w\<lparr>w_files := (w_files w)(fd \<mapsto> f)\<rparr>)"
| Ioctl: "w_files w fd = Some f \<Longrightarrow> ac_ioctl k cmd u f (w_mod w) = (reply, f', m') \<Longrightarrow>
    module_step w (w\<lparr>w_mod := m', w_files := (w_files w)(fd \<mapsto> f')\<rparr>)"
| Release: "w_files w fd = Some f \<Longrightarrow> ac_release f = (ret, f') \<Longrightarrow>
    module_step w (w\<lparr>w_files := (w_files w)(fd := None)\<rparr>)"
| Ptrace: "m_kp_live (w_mod w) ! (if is_compat then 1 else 0) \<Longrightarrow> current \<noteq> 0 \<Longrightarrow>
    ac_ptrace_pre env current is_compat now alloc_ok args (w_mod w) = (args', m') \<Longrightarrow>
    module_step w (w\<lparr>w_mod := m'\<rparr>)"
| Exit: "m_kp_live (w_mod w) ! 2 \<Longrightarrow> current \<noteq> 0 \<Longrightarrow>
    module_step w (w\<lparr>w_mod := ac_exit_pre env current now (w_mod w)\<rparr>)"
| Exec: "m_kp_live (w_mod w) ! 3 \<or> m_kp_live (w_mod w) ! 4 \<Longrightarrow> current \<noteq> 0 \<Longrightarrow>
    module_step w (w\<lparr>w_mod := ac_exec_pre env current now (w_mod w)\<rparr>)"
| Clone: "m_clone_live (w_mod w) \<Longrightarrow> current \<noteq> 0 \<Longrightarrow>
    module_step w (w\<lparr>w_mod := ac_clone_ret env current now child_pid (w_mod w)\<rparr>)"
| Work: "m_wq (w_mod w) \<noteq> [] \<Longrightarrow> module_step w (w\<lparr>w_mod := run_work env (w_mod w)\<rparr>)"
| Policy: "module_step w (w\<lparr>w_mod := (w_mod w)\<lparr>m_policy := p\<rparr>\<rparr>)"

inductive reachable :: "world \<Rightarrow> bool" where
  Load: "ac_init l module_init = (RetOK, m) \<Longrightarrow> reachable \<lparr>w_mod = m, w_files = (\<lambda>_. None)\<rparr>"
| Step: "reachable w \<Longrightarrow> module_step w w' \<Longrightarrow> reachable w'"

definition world_inv :: "world \<Rightarrow> bool" where
  "world_inv w \<longleftrightarrow> module_inv (w_mod w) \<and> (\<forall>fd f. w_files w fd = Some f \<longrightarrow> file_ok f)"

subsection \<open>Invariants\<close>

lemma module_inv_cong:
  assumes "module_inv m" "m_ring m' = m_ring m" "m_reg m' = m_reg m" "m_wq m' = m_wq m"
    "m_kp_ok m' = m_kp_ok m" "m_kp_live m' = m_kp_live m" "m_kp_registered m' = m_kp_registered m"
    "m_clone_live m' = m_clone_live m" "m_kp_clone_ok m' = m_kp_clone_ok m"
    "m_lock_count m' = m_lock_count m" "m_module_refs m' = m_module_refs m" "m_mm_refs m' = m_mm_refs m"
  shows "module_inv m'"
  using assms by (simp add: module_inv_def probes_inv_def)

lemma module_init_sel [simp]:
  "m_kp_ok module_init = replicate N_KPROBES False" "m_kp_live module_init = replicate N_KPROBES False"
  "m_kp_clone_ok module_init = False" "m_clone_live module_init = False" "m_kp_registered module_init = 0"
  "m_wq module_init = []" "m_reg module_init = registry_init" "m_ring module_init = ring_init"
  "m_lock_count module_init = 0" "m_module_refs module_init = 0" "m_mm_refs module_init = (\<lambda>_. 0)"
  "m_wq_live module_init = False" "m_misc_live module_init = False" "m_killed module_init = []"
  by (simp_all add: module_init_def)

text \<open>The state after loading, before the device is registered.\<close>

definition loaded :: "kload \<Rightarrow> ac_text \<Rightarrow> ac_module" where
  "loaded l t = module_init\<lparr>m_wq_live := True, m_text := t,
     m_kp_ok := map (l_probe_ok l) [0..<N_KPROBES],
     m_kp_registered := length (filter (l_probe_ok l) [0..<N_KPROBES]),
     m_kp_live := map (l_probe_ok l) [0..<N_KPROBES],
     m_kp_clone_ok := l_clone_ok l, m_clone_live := l_clone_ok l\<rparr>"

lemma loaded_inv: "module_inv (loaded l t)"
  using module_init_inv
  by (simp add: module_inv_def loaded_def probes_inv_def N_KPROBES_def filter_map comp_def)

lemma ac_init_cases:
  "\<exists>t. ac_init l module_init =
     (if \<not> l_wq_ok l then (RetErr ENOMEM, module_init)
      else case l_misc l of
             RetErr e \<Rightarrow> (RetErr e, module_init\<lparr>m_text := t\<rparr>)
           | RetOK \<Rightarrow> (RetOK, (loaded l t)\<lparr>m_misc_live := True\<rparr>))"
proof -
  obtain base t2 where t: "ac_find_syscall_table (l_img l) (ac_resolve_text_bounds (l_img l) (m_text module_init))
      = (base, t2)" by (cases "ac_find_syscall_table (l_img l) (ac_resolve_text_bounds (l_img l) (m_text module_init))")
  let ?t = "t2\<lparr>ac_syscall_table := base\<rparr>"
  have reg: "ac_register_kprobes (l_probe_ok l) (l_clone_ok l) (module_init\<lparr>m_wq_live := True, m_text := ?t\<rparr>)
      = loaded l ?t"
    by (subst ac_register_kprobes_eq) (simp_all add: loaded_def)
  have "destroy_workqueue (l_env l) (ac_unregister_kprobes (loaded l ?t)) = module_init\<lparr>m_text := ?t\<rparr>"
    unfolding ac_unregister_kprobes_eq [OF module_invD(4) [OF loaded_inv]]
    by (simp add: destroy_workqueue_def loaded_def)
  then show ?thesis
    by (intro exI [of _ ?t]) (simp add: ac_init_def Let_def t reg split: kret.split)
qed

lemma step_inv:
  assumes "module_step w w'" "world_inv w"
  shows "world_inv w'"
  using assms
proof (induction rule: module_step.induct)
  case (Open w fd capable f)
  then show ?case by (auto simp: world_inv_def ac_open_def file_ok_def split: if_splits)
next
  case (Ioctl w fd f k cmd u reply f' m')
  then have "module_inv m'" "file_ok f'"
    using ac_ioctl_inv [of "w_mod w" f k cmd u] by (auto simp: world_inv_def)
  with Ioctl show ?case by (auto simp: world_inv_def)
next
  case (Release w fd f ret f')
  then show ?case by (auto simp: world_inv_def)
next
  case (Ptrace w is_compat current env now alloc_ok args args' m')
  then have "module_inv m'"
    using ac_ptrace_pre_inv [of "w_mod w" current env is_compat now alloc_ok args]
    by (simp add: world_inv_def)
  with Ptrace show ?case by (simp add: world_inv_def)
next
  case (Exit w current env now)
  then show ?case by (simp add: world_inv_def ac_exit_pre_inv)
next
  case (Exec w current env now)
  then show ?case by (simp add: world_inv_def ac_exec_pre_inv)
next
  case (Clone w current env now child_pid)
  then show ?case by (simp add: world_inv_def ac_clone_ret_inv)
next
  case (Work w env)
  then show ?case by (simp add: world_inv_def run_work_inv)
next
  case (Policy w p)
  then show ?case
    using module_inv_cong [of "w_mod w" "(w_mod w)\<lparr>m_policy := p\<rparr>"] by (simp add: world_inv_def)
qed

lemma reachable_world_inv: "reachable w \<Longrightarrow> world_inv w"
proof (induction rule: reachable.induct)
  case (Load l m)
  from ac_init_cases [of l] Load obtain t where "m = (loaded l t)\<lparr>m_misc_live := True\<rparr>"
    by (auto split: if_splits kret.splits)
  then have "module_inv m" using module_inv_cong [OF loaded_inv [of l t], of m] by simp
  then show ?case by (simp add: world_inv_def)
next
  case (Step w w')
  then show ?case by (blast intro: step_inv)
qed

subsection \<open>Properties\<close>

definition demo_load :: kload where
  "demo_load = \<lparr>l_env = flat_env, l_img = demo_image, l_wq_ok = True, l_probe_ok = (\<lambda>_. True),
     l_clone_ok = True, l_misc = RetOK\<rparr>"


lemma demo_load_ok: "fst (ac_init demo_load module_init) = RetOK"
  using ac_init_cases [of demo_load] by (auto simp: demo_load_def)


lemma ac_exit_eq:
  assumes "module_inv m"
  shows "ac_exit env m = (run_work env ^^ length (m_wq m))
    (m\<lparr>m_misc_live := False, m_kp_ok := replicate N_KPROBES False, m_kp_registered := 0,
       m_kp_live := replicate N_KPROBES False, m_kp_clone_ok := False, m_clone_live := False,
       m_reg := ac_clear_protected (m_reg m)\<rparr>) \<lparr>m_wq_live := False\<rparr>"
proof -
  have "probes_inv (m\<lparr>m_misc_live := False\<rparr>)"
    using module_invD(4) [OF assms] by (simp add: probes_inv_def)
  from ac_unregister_kprobes_eq [OF this] show ?thesis
    by (simp add: ac_exit_def destroy_workqueue_def)
qed

text \<open>C28. Unloading gives everything back, whatever happened before: no probe, device or work queue
  stays registered, no task stays protected, queued kill requests are served first, and not a single
  task or pid reference is left.\<close>

theorem unload_releases_all:
  assumes "module_inv m"
  shows "let m' = ac_exit env m in
    m_kp_live m' = replicate 5 False \<and> \<not> m_clone_live m' \<and> \<not> m_misc_live m' \<and> \<not> m_wq_live m' \<and>
    m_wq m' = [] \<and> protected_map (m_reg m') = Map.empty \<and> ac_prot_count (m_reg m') = 0 \<and>
    task_refs (m_reg m') = (\<lambda>_. 0) \<and> pid_refs (m_reg m') = (\<lambda>_. 0) \<and>
    m_killed m' = m_killed m @ concat (map (worker_target env) (m_wq m))"
proof -
  let ?m = "m\<lparr>m_misc_live := False, m_kp_ok := replicate N_KPROBES False, m_kp_registered := 0,
       m_kp_live := replicate N_KPROBES False, m_kp_clone_ok := False, m_clone_live := False,
       m_reg := ac_clear_protected (m_reg m)\<rparr>"
  let ?m' = "(run_work env ^^ length (m_wq m)) ?m"
  have "registry_ok (ac_clear_protected (m_reg m))"
    using ac_clear_protected_inv [of "\<lambda>_. 0" "m_reg m"] module_invD(2) [OF assms]
    by (simp add: registry_ok_def)
  then have inv: "module_inv ?m"
    using module_invD [OF assms]
    by (simp add: module_inv_def probes_inv_def wq_inv_def ac_clear_protected_sel N_KPROBES_def numeral_eq_Suc)
  have inv': "module_inv ((run_work env ^^ n) ?m)" for n
    by (induction n) (simp_all add: inv run_work_inv)
  have fold: "ac_prots (fold (\<lambda>p s. if p = 0 then s else put_pid p s) ps s) = ac_prots s"
      "ac_prot_count (fold (\<lambda>p s. if p = 0 then s else put_pid p s) ps s) = ac_prot_count s" for ps s
    by (induction ps arbitrary: s) (simp_all add: put_pid_def)
  note all = run_work_all [where env = env and m = ?m, simplified]
  have map: "protected_map (m_reg ?m') = Map.empty"
    using ac_clear_protected_map [of "m_reg m"]
    by (simp add: all protected_map_cong [OF fold(1)])
  have "registry_inv (\<lambda>_. 0) (m_reg ?m')" "wq_inv (m_wq ?m') (m_reg ?m')"
    using module_invD(2,3) [OF inv' [of "length (m_wq m)"]] by (simp_all add: registry_ok_def)
  then have "task_refs (m_reg ?m') = (\<lambda>_. 0)" "pid_refs (m_reg ?m') = (\<lambda>_. 0)"
    using map by (auto simp: registry_inv_def wq_inv_def all)
  moreover have "ac_prot_count (m_reg ?m') = 0"
    by (simp add: all fold ac_clear_protected_sel)
  moreover have "m_kp_live ?m' = replicate N_KPROBES False \<and> \<not> m_clone_live ?m' \<and> \<not> m_misc_live ?m' \<and>
      m_wq ?m' = [] \<and> m_killed ?m' = m_killed m @ concat (map (worker_target env) (m_wq m))"
    by (simp add: all)
  ultimately show ?thesis
    using map by (simp add: ac_exit_eq [OF assms] Let_def N_KPROBES_def)
qed

theorem unload_releases_all_witness:
  "task_refs (m_reg (ac_exit flat_env one_protected)) 7 = 0"
  using unload_releases_all [OF one_protected_inv, of flat_env] by (simp add: Let_def)

text \<open>Loading is all or nothing: it fails with ENOMEM when the work queue cannot be created and
  with the error of \<open>misc_register\<close> when that fails, and then leaves no probe, queue, device or
  reference behind; otherwise it succeeds with exactly the probes the kernel accepted.\<close>

theorem load_all_or_nothing:
  "let (ret, m) = ac_init l module_init in
     (ret = RetOK \<longleftrightarrow> l_wq_ok l \<and> l_misc l = RetOK) \<and>
     (if ret = RetOK
      then m_misc_live m \<and> m_wq_live m \<and> m_kp_live m = map (l_probe_ok l) [0..<5] \<and>
           m_clone_live m = l_clone_ok l \<and> module_inv m
      else ret = (if l_wq_ok l then l_misc l else RetErr ENOMEM) \<and> m = module_init\<lparr>m_text := m_text m\<rparr>)"
proof -
  obtain t where t: "ac_init l module_init =
     (if \<not> l_wq_ok l then (RetErr ENOMEM, module_init)
      else case l_misc l of
             RetErr e \<Rightarrow> (RetErr e, module_init\<lparr>m_text := t\<rparr>)
           | RetOK \<Rightarrow> (RetOK, (loaded l t)\<lparr>m_misc_live := True\<rparr>))"
    using ac_init_cases by blast
  have "module_inv ((loaded l t)\<lparr>m_misc_live := True\<rparr>)"
    using module_inv_cong [OF loaded_inv [of l t]] by simp
  then show ?thesis
    by (auto simp: t Let_def loaded_def N_KPROBES_def split: kret.split)
qed

theorem load_all_or_nothing_witness:
  "m_kp_live (snd (ac_init demo_load module_init)) = [True, True, True, True, True] \<and>
   snd (ac_init (demo_load\<lparr>l_wq_ok := False\<rparr>) module_init) =
     module_init\<lparr>m_text := m_text (snd (ac_init (demo_load\<lparr>l_wq_ok := False\<rparr>) module_init))\<rparr>"
  using load_all_or_nothing [of demo_load] load_all_or_nothing [of "demo_load\<lparr>l_wq_ok := False\<rparr>"]
  by (simp add: demo_load_ok case_prod_beta) (simp add: demo_load_def upt_rec)

end
