(* ===== verification/Lock_Races.thy ===== *)
theory Lock_Races
  imports AC_Prelude
begin

text \<open>
  Two places of src/src/anticheat_module.c where several threads run the same code on shared state,
  step by step: the first use of a descriptor (\<open>ac_get_fd_state\<close>, double-checked under
  \<open>ac_fd_state_alloc_lock\<close>) and the UNLOCK command, which tests and decrements \<open>ac_lock_count\<close> in two
  separate atomic operations. A step is one atomic access of one thread; threads are numbered and any
  interleaving is allowed.
\<close>

subsection \<open>First use of a descriptor\<close>

text \<open>Pointers are natural numbers, 0 is NULL. A thread is before the lock-free load, before taking the
  mutex, before the load under the mutex, before publishing a fresh state, before releasing the
  mutex, or it has returned.\<close>

datatype fd_pc = F_fast | F_lock | F_check | F_publish nat | F_unlock nat | F_done nat

record fd_race =
  fr_private :: nat
  fr_mutex :: "nat option"
  fr_allocated :: "nat list"
  fr_pc :: "nat \<Rightarrow> fd_pc"

definition fd_race_init :: fd_race where
  "fd_race_init = \<lparr>fr_private = 0, fr_mutex = None, fr_allocated = [], fr_pc = (\<lambda>_. F_fast)\<rparr>"

text \<open>\<open>kzalloc\<close> returns a non-NULL pointer that is not in use, or NULL.\<close>

inductive fd_step :: "fd_race \<Rightarrow> fd_race \<Rightarrow> bool" where
  Fast_hit: "fr_pc s i = F_fast \<Longrightarrow> fr_private s \<noteq> 0 \<Longrightarrow>
    fd_step s (s\<lparr>fr_pc := (fr_pc s)(i := F_done (fr_private s))\<rparr>)"
| Fast_miss: "fr_pc s i = F_fast \<Longrightarrow> fr_private s = 0 \<Longrightarrow>
    fd_step s (s\<lparr>fr_pc := (fr_pc s)(i := F_lock)\<rparr>)"
| Mutex_lock: "fr_pc s i = F_lock \<Longrightarrow> fr_mutex s = None \<Longrightarrow>
    fd_step s (s\<lparr>fr_mutex := Some i, fr_pc := (fr_pc s)(i := F_check)\<rparr>)"
| Check_hit: "fr_pc s i = F_check \<Longrightarrow> fr_private s \<noteq> 0 \<Longrightarrow>
    fd_step s (s\<lparr>fr_pc := (fr_pc s)(i := F_unlock (fr_private s))\<rparr>)"
| Alloc: "fr_pc s i = F_check \<Longrightarrow> fr_private s = 0 \<Longrightarrow> p \<noteq> 0 \<Longrightarrow> p \<notin> set (fr_allocated s) \<Longrightarrow>
    fd_step s (s\<lparr>fr_allocated := p # fr_allocated s, fr_pc := (fr_pc s)(i := F_publish p)\<rparr>)"
| Alloc_fail: "fr_pc s i = F_check \<Longrightarrow> fr_private s = 0 \<Longrightarrow>
    fd_step s (s\<lparr>fr_pc := (fr_pc s)(i := F_unlock 0)\<rparr>)"
| Publish: "fr_pc s i = F_publish p \<Longrightarrow>
    fd_step s (s\<lparr>fr_private := p, fr_pc := (fr_pc s)(i := F_unlock p)\<rparr>)"
| Mutex_unlock: "fr_pc s i = F_unlock p \<Longrightarrow>
    fd_step s (s\<lparr>fr_mutex := None, fr_pc := (fr_pc s)(i := F_done p)\<rparr>)"

fun in_section :: "fd_pc \<Rightarrow> bool" where
  "in_section F_check = True"
| "in_section (F_publish p) = True"
| "in_section (F_unlock p) = True"
| "in_section _ = False"

text \<open>What a thread in the critical section knows about the shared state.\<close>

definition fd_race_inv :: "fd_race \<Rightarrow> bool" where
  "fd_race_inv s \<longleftrightarrow>
     (\<forall>i. in_section (fr_pc s i) \<longleftrightarrow> fr_mutex s = Some i) \<and>
     (\<forall>i p. fr_pc s i = F_unlock p \<or> fr_pc s i = F_done p \<longrightarrow> p = 0 \<or> p = fr_private s) \<and>
     (\<forall>i p. fr_pc s i = F_publish p \<longrightarrow> fr_private s = 0 \<and> p \<noteq> 0 \<and> fr_allocated s = [p]) \<and>
     ((\<forall>i p. fr_pc s i \<noteq> F_publish p) \<longrightarrow>
        fr_allocated s = (if fr_private s = 0 then [] else [fr_private s]))"

lemma fd_race_init_inv: "fd_race_inv fd_race_init"
  by (simp add: fd_race_inv_def fd_race_init_def)

lemma fd_race_invD:
  assumes "fd_race_inv s"
  shows "in_section (fr_pc s i) \<longleftrightarrow> fr_mutex s = Some i"
    and "fr_pc s i = F_unlock p \<or> fr_pc s i = F_done p \<Longrightarrow> p = 0 \<or> p = fr_private s"
    and "fr_pc s i = F_publish p \<Longrightarrow> fr_private s = 0 \<and> p \<noteq> 0 \<and> fr_allocated s = [p]"
    and "(\<And>j q. fr_pc s j \<noteq> F_publish q) \<Longrightarrow>
           fr_allocated s = (if fr_private s = 0 then [] else [fr_private s])"
  using assms unfolding fd_race_inv_def by blast+

text \<open>The holder of the mutex is the only thread that can be about to publish.\<close>

lemma no_publish_outside:
  assumes "fd_race_inv s" "in_section (fr_pc s i)" "\<And>p. fr_pc s i \<noteq> F_publish p"
  shows "fr_pc s j \<noteq> F_publish q"
proof
  assume j: "fr_pc s j = F_publish q"
  then have "fr_mutex s = Some j" using fd_race_invD(1) [OF assms(1), of j] by simp
  moreover have "fr_mutex s = Some i" using fd_race_invD(1) [OF assms(1), of i] assms(2) by simp
  ultimately show False using j assms(3) by auto
qed

lemma fd_step_inv:
  assumes "fd_step s s'" "fd_race_inv s"
  shows "fd_race_inv s'"
  using assms
proof (induction rule: fd_step.induct)
  case (Fast_hit s i)
  note D = fd_race_invD [OF Fast_hit(3)]
  have np: "fr_pc s j \<noteq> F_publish q" for j q using D(3) [of j q] Fast_hit(2) by auto
  show ?case
    unfolding fd_race_inv_def using Fast_hit(1,2) D(1) D(1) [of i] D(2) D(4) [OF np] np by auto
next
  case (Fast_miss s i)
  note D = fd_race_invD [OF Fast_miss(3)]
  have al: "fr_allocated s = []" if "\<forall>j. j \<noteq> i \<longrightarrow> (\<forall>q. fr_pc s j \<noteq> F_publish q)"
    using D(4) that Fast_miss(1,2) by (metis fd_pc.distinct(5))
  show ?case
    unfolding fd_race_inv_def using Fast_miss(1,2) D(1) D(1) [of i] D(2) D(3) al by auto
next
  case (Mutex_lock s i)
  note D = fd_race_invD [OF Mutex_lock(3)]
  have out: "\<not> in_section (fr_pc s j)" for j using D(1) [of j] Mutex_lock(2) by simp
  have np: "fr_pc s j \<noteq> F_publish q" for j q using out [of j] by auto
  show ?case
    unfolding fd_race_inv_def using Mutex_lock(1) out D(2) D(4) [OF np] np by auto
next
  case (Check_hit s i)
  note D = fd_race_invD [OF Check_hit(3)]
  have np: "fr_pc s j \<noteq> F_publish q" for j q using D(3) [of j q] Check_hit(2) by auto
  show ?case
    unfolding fd_race_inv_def using Check_hit(1,2) D(1) D(1) [of i] D(2) D(4) [OF np] np by auto
next
  case (Alloc s i p)
  note D = fd_race_invD [OF Alloc(5)]
  have np: "fr_pc s j \<noteq> F_publish q" for j q
    using no_publish_outside [OF Alloc(5), of i] Alloc(1) by simp
  show ?case
    unfolding fd_race_inv_def using Alloc(1-4) D(1) D(1) [of i] D(2) D(4) [OF np] np by auto
next
  case (Alloc_fail s i)
  note D = fd_race_invD [OF Alloc_fail(3)]
  have np: "fr_pc s j \<noteq> F_publish q" for j q
    using no_publish_outside [OF Alloc_fail(3), of i] Alloc_fail(1) by simp
  show ?case
    unfolding fd_race_inv_def using Alloc_fail(1,2) D(1) D(1) [of i] D(2) D(4) [OF np] np by auto
next
  case (Publish s i p)
  note D = fd_race_invD [OF Publish(2)]
  have np: "fr_pc s j \<noteq> F_publish q" if "j \<noteq> i" for j q
    using D(1) [of j] D(1) [of i] Publish(1) that by auto
  show ?case
    unfolding fd_race_inv_def
    using Publish(1) D(1) D(1) [of i] D(2) D(3) [OF Publish(1)] np by auto
next
  case (Mutex_unlock s i p)
  note D = fd_race_invD [OF Mutex_unlock(2)]
  have np: "fr_pc s j \<noteq> F_publish q" for j q
    using no_publish_outside [OF Mutex_unlock(2), of i] Mutex_unlock(1) by simp
  have "in_section (fr_pc s j) \<longleftrightarrow> j = i" for j
    using D(1) [of j] D(1) [of i] Mutex_unlock(1) by auto
  then show ?case
    unfolding fd_race_inv_def using Mutex_unlock(1) D(2) D(4) [OF np] np by auto
qed

lemma fd_race_reach_inv:
  assumes "fd_step\<^sup>*\<^sup>* fd_race_init s"
  shows "fd_race_inv s"
  using assms by (induction rule: rtranclp_induct) (auto intro: fd_race_init_inv fd_step_inv)

subsection \<open>The UNLOCK command\<close>

text \<open>A thread is before \<open>atomic_read\<close>, before \<open>atomic_dec\<close>, before \<open>module_put\<close>, or has returned.\<close>

datatype unlock_pc = U_read | U_dec | U_put | U_done

record unlock_race =
  ur_count :: int
  ur_refs :: int
  ur_pcs :: "unlock_pc list"

inductive unlock_step :: "unlock_race \<Rightarrow> unlock_race \<Rightarrow> bool" where
  Read_locked: "i < length (ur_pcs s) \<Longrightarrow> ur_pcs s ! i = U_read \<Longrightarrow> 0 < ur_count s \<Longrightarrow>
    unlock_step s (s\<lparr>ur_pcs := (ur_pcs s)[i := U_dec]\<rparr>)"
| Read_unlocked: "i < length (ur_pcs s) \<Longrightarrow> ur_pcs s ! i = U_read \<Longrightarrow> \<not> 0 < ur_count s \<Longrightarrow>
    unlock_step s (s\<lparr>ur_pcs := (ur_pcs s)[i := U_done]\<rparr>)"
| Dec: "i < length (ur_pcs s) \<Longrightarrow> ur_pcs s ! i = U_dec \<Longrightarrow>
    unlock_step s (s\<lparr>ur_count := ur_count s - 1, ur_pcs := (ur_pcs s)[i := U_put]\<rparr>)"
| Put: "i < length (ur_pcs s) \<Longrightarrow> ur_pcs s ! i = U_put \<Longrightarrow>
    unlock_step s (s\<lparr>ur_refs := ur_refs s - 1, ur_pcs := (ur_pcs s)[i := U_done]\<rparr>)"

definition unlockers :: "nat \<Rightarrow> nat \<Rightarrow> unlock_race" where
  "unlockers locks threads =
     \<lparr>ur_count = int locks, ur_refs = int locks, ur_pcs = replicate threads U_read\<rparr>"

text \<open>How much each thread can still take from the two counters.\<close>

fun owes_dec :: "unlock_pc \<Rightarrow> int" where
  "owes_dec U_read = 1" | "owes_dec U_dec = 1" | "owes_dec U_put = 0" | "owes_dec U_done = 0"

fun owes_put :: "unlock_pc \<Rightarrow> int" where
  "owes_put U_read = 1" | "owes_put U_dec = 1" | "owes_put U_put = 1" | "owes_put U_done = 0"

lemma sum_list_map_update:
  fixes g :: "'a \<Rightarrow> int"
  assumes "i < length xs"
  shows "sum_list (map g (xs[i := x])) = sum_list (map g xs) - g (xs ! i) + g x"
  using assms
proof (induction xs arbitrary: i)
  case (Cons y ys)
  then show ?case by (cases i) simp_all
qed simp

definition unlock_budget :: "unlock_race \<Rightarrow> bool" where
  "unlock_budget s \<longleftrightarrow> sum_list (map owes_dec (ur_pcs s)) \<le> ur_count s \<and>
     sum_list (map owes_put (ur_pcs s)) \<le> ur_refs s"

lemma unlock_step_budget:
  assumes "unlock_step s s'" "unlock_budget s"
  shows "unlock_budget s'"
  using assms
  by (induction rule: unlock_step.induct) (simp_all add: unlock_budget_def sum_list_map_update)

lemma unlock_reach_budget:
  assumes "unlock_step\<^sup>*\<^sup>* s s'" "unlock_budget s"
  shows "unlock_budget s'"
  using assms by (induction rule: rtranclp_induct) (auto intro: unlock_step_budget)

lemma unlock_budget_nonneg: "unlock_budget s \<Longrightarrow> 0 \<le> ur_count s \<and> 0 \<le> ur_refs s"
proof -
  have "0 \<le> owes_dec p" "0 \<le> owes_put p" for p by (cases p; simp)+
  then have "0 \<le> sum_list (map owes_dec ps)" "0 \<le> sum_list (map owes_put ps)" for ps
    by (induction ps) simp_all
  then show "unlock_budget s \<Longrightarrow> ?thesis" unfolding unlock_budget_def by (meson order_trans)
qed

subsection \<open>Properties\<close>

text \<open>C29. However many threads use a descriptor for the first time at once, and however they
  interleave: at most one state is ever allocated for it and it is never lost, because it is the one
  published or the one its allocating thread is about to publish; at most one thread is between lock
  and unlock; and every thread that has returned holds either NULL, after a failed allocation, or the
  state that all later calls see.\<close>

theorem fd_state_single:
  assumes "fd_step\<^sup>*\<^sup>* fd_race_init s"
  shows "length (fr_allocated s) \<le> 1 \<and>
    (\<forall>p \<in> set (fr_allocated s). p = fr_private s \<or> (\<exists>i. fr_pc s i = F_publish p)) \<and>
    (\<forall>i p. fr_pc s i = F_done p \<longrightarrow> p = 0 \<or> p = fr_private s) \<and>
    (\<forall>i j. in_section (fr_pc s i) \<and> in_section (fr_pc s j) \<longrightarrow> i = j)"
proof -
  have inv: "fd_race_inv s" using assms by (rule fd_race_reach_inv)
  note D = fd_race_invD [OF inv]
  show ?thesis
  proof (cases "\<exists>i p. fr_pc s i = F_publish p")
    case True
    then obtain i p where "fr_pc s i = F_publish p" by blast
    with D(3) [of i p] D(1) D(2) show ?thesis by auto
  next
    case False
    then have "fr_allocated s = (if fr_private s = 0 then [] else [fr_private s])"
      by (intro D(4)) blast
    with D(1) D(2) show ?thesis by auto
  qed
qed

theorem fd_state_single_witness:
  "\<exists>s. fd_step\<^sup>*\<^sup>* fd_race_init s \<and> fr_allocated s = [9] \<and> length (fr_allocated s) \<le> 1"
proof -
  let ?s1 = "fd_race_init\<lparr>fr_pc := (fr_pc fd_race_init)(0 := F_lock)\<rparr>"
  let ?s2 = "?s1\<lparr>fr_mutex := Some 0, fr_pc := (fr_pc ?s1)(0 := F_check)\<rparr>"
  let ?s3 = "?s2\<lparr>fr_allocated := 9 # fr_allocated ?s2, fr_pc := (fr_pc ?s2)(0 := F_publish 9)\<rparr>"
  have "fd_step fd_race_init ?s1" by (rule Fast_miss) (simp_all add: fd_race_init_def)
  moreover have "fd_step ?s1 ?s2" by (rule Mutex_lock) (simp_all add: fd_race_init_def)
  moreover have "fd_step ?s2 ?s3" by (rule Alloc) (simp_all add: fd_race_init_def)
  ultimately have r: "fd_step\<^sup>*\<^sup>* fd_race_init ?s3"
    by (meson converse_rtranclp_into_rtranclp rtranclp.rtrancl_refl)
  with fd_state_single [OF r] show ?thesis
    by (intro exI [of _ ?s3]) (simp add: fd_race_init_def)
qed

text \<open>If no more threads issue UNLOCK at the same time than there are locks held, neither the lock
  count nor the module's reference count ever becomes negative, in any interleaving.\<close>

theorem unlock_no_underflow:
  assumes "threads \<le> locks" "unlock_step\<^sup>*\<^sup>* (unlockers locks threads) s"
  shows "0 \<le> ur_count s \<and> 0 \<le> ur_refs s"
proof -
  have "unlock_budget (unlockers locks threads)"
    using assms(1) by (simp add: unlock_budget_def unlockers_def sum_list_replicate)
  with unlock_reach_budget [OF assms(2)] show ?thesis by (intro unlock_budget_nonneg) blast
qed

theorem unlock_no_underflow_witness:
  "0 \<le> ur_count (unlockers 2 2) \<and> 0 \<le> ur_refs (unlockers 2 2)"
  using unlock_no_underflow [of 2 2 "unlockers 2 2"] by simp

text \<open>C30. The test and the decrement of UNLOCK are not one atomic step: with a single lock held, two
  concurrent UNLOCKs can both pass the test, which drives the lock count to -1 and releases the
  module's reference twice.\<close>

theorem unlock_race_underflow:
  "\<exists>s. unlock_step\<^sup>*\<^sup>* (unlockers 1 2) s \<and> ur_pcs s = [U_done, U_done] \<and>
       ur_count s = - 1 \<and> ur_refs s = - 1"
proof -
  let ?st = "\<lambda>c r a b. \<lparr>ur_count = c, ur_refs = r, ur_pcs = [a, b]\<rparr>"
  have "unlock_step (?st 1 1 U_read U_read) (?st 1 1 U_dec U_read)"
    using Read_locked [of 0 "?st 1 1 U_read U_read"] by simp
  moreover have "unlock_step (?st 1 1 U_dec U_read) (?st 1 1 U_dec U_dec)"
    using Read_locked [of 1 "?st 1 1 U_dec U_read"] by simp
  moreover have "unlock_step (?st 1 1 U_dec U_dec) (?st 0 1 U_put U_dec)"
    using Dec [of 0 "?st 1 1 U_dec U_dec"] by simp
  moreover have "unlock_step (?st 0 1 U_put U_dec) (?st (- 1) 1 U_put U_put)"
    using Dec [of 1 "?st 0 1 U_put U_dec"] by simp
  moreover have "unlock_step (?st (- 1) 1 U_put U_put) (?st (- 1) 0 U_done U_put)"
    using Put [of 0 "?st (- 1) 1 U_put U_put"] by simp
  moreover have "unlock_step (?st (- 1) 0 U_done U_put) (?st (- 1) (- 1) U_done U_done)"
    using Put [of 1 "?st (- 1) 0 U_done U_put"] by simp
  ultimately have "unlock_step\<^sup>*\<^sup>* (?st 1 1 U_read U_read) (?st (- 1) (- 1) U_done U_done)"
    by (meson converse_rtranclp_into_rtranclp rtranclp.rtrancl_refl)
  moreover have "unlockers 1 2 = ?st 1 1 U_read U_read" by (simp add: unlockers_def numeral_2_eq_2)
  ultimately show ?thesis by (intro exI [of _ "?st (- 1) (- 1) U_done U_done"]) simp
qed

end
