(* ===== verification/C_Library.thy ===== *)
theory C_Library
  imports AC_Prelude "HOL-Library.Monad_Syntax"
begin

text \<open>
  The functions of the C library the daemon computes with: searching and comparing strings,
  reading lines, and the decimal and hexadecimal conversions of \<open>strtol\<close>, \<open>atoi\<close> and \<open>sscanf\<close>.
  Strings are the characters before the terminating NUL, as everywhere in the development; the
  functions on memory (\<open>memmem\<close>) work on lists of any elements.
\<close>

subsection \<open>Searching\<close>

definition starts_with :: "'a list \<Rightarrow> 'a list \<Rightarrow> bool" where
  "starts_with p s \<longleftrightarrow> take (length p) s = p"

text \<open>\<open>memmem\<close>: the offset of the first occurrence.\<close>

fun memmem :: "'a list \<Rightarrow> 'a list \<Rightarrow> nat option" where
  "memmem [] p = (if p = [] then Some 0 else None)"
| "memmem (c # cs) p = (if starts_with p (c # cs) then Some 0 else map_option Suc (memmem cs p))"

definition strstr :: "string \<Rightarrow> string \<Rightarrow> bool" where
  "strstr s p \<longleftrightarrow> memmem s p \<noteq> None"

text \<open>\<open>strncmp (a, b, n) == 0\<close>.\<close>

definition strncmp_eq :: "string \<Rightarrow> string \<Rightarrow> nat \<Rightarrow> bool" where
  "strncmp_eq a b n \<longleftrightarrow> take n a = take n b"

text \<open>\<open>strrchr\<close>: the text before and after the last occurrence of a character.\<close>

definition split_last :: "char \<Rightarrow> string \<Rightarrow> (string \<times> string) option" where
  "split_last c s =
     (if c \<in> set s
      then Some (rev (tl (dropWhile (\<lambda>x. x \<noteq> c) (rev s))), rev (takeWhile (\<lambda>x. x \<noteq> c) (rev s)))
      else None)"

lemma starts_with_append [simp]: "starts_with p (p @ s)"
  by (simp add: starts_with_def)

lemma starts_with_iff: "starts_with p s \<longleftrightarrow> (\<exists>r. s = p @ r)"
  by (metis append_eq_conv_conj append_take_drop_id starts_with_def)

lemma memmem_Some:
  "memmem s p = Some i \<longleftrightarrow> i \<le> length s \<and> starts_with p (drop i s) \<and> (\<forall>j < i. \<not> starts_with p (drop j s))"
proof (induction s arbitrary: i)
  case Nil
  then show ?case by (auto simp: starts_with_def)
next
  case (Cons c cs)
  show ?case
  proof (cases "starts_with p (c # cs)")
    case True
    then have "memmem (c # cs) p = Some i \<longleftrightarrow> i = 0" by auto
    moreover have "(\<forall>j < i. \<not> starts_with p (drop j (c # cs))) \<longrightarrow> i = 0"
      using True by (metis drop0 neq0_conv)
    ultimately show ?thesis using True by auto
  next
    case False
    have all: "(\<forall>j < Suc n. \<not> starts_with p (drop j (c # cs))) \<longleftrightarrow> (\<forall>j < n. \<not> starts_with p (drop j cs))" for n
      using False by (auto simp: less_Suc_eq_0_disj)
    show ?thesis
    proof (cases i)
      case 0
      with False show ?thesis by auto
    next
      case (Suc n)
      with False Cons.IH [of n] all [of n] show ?thesis by simp
    qed
  qed
qed

lemma memmem_None: "memmem s p = None \<longleftrightarrow> (\<forall>i \<le> length s. \<not> starts_with p (drop i s))"
proof (induction s)
  case Nil
  then show ?case by (auto simp: starts_with_def)
next
  case (Cons c cs)
  have "(\<forall>i \<le> length (c # cs). \<not> starts_with p (drop i (c # cs))) \<longleftrightarrow>
        \<not> starts_with p (c # cs) \<and> (\<forall>i \<le> length cs. \<not> starts_with p (drop i cs))"
    by (metis (no_types, lifting) Suc_le_mono drop0 drop_Suc_Cons le0 length_Cons not0_implies_Suc)
  then show ?case using Cons.IH by auto
qed

lemma memmem_append:
  assumes "\<And>i. i < length a \<Longrightarrow> \<not> starts_with p (drop i (a @ p @ b))"
  shows "memmem (a @ p @ b) p = Some (length a)"
  using assms by (simp add: memmem_Some)

lemma split_last_Some:
  "split_last c s = Some (a, b) \<longleftrightarrow> s = a @ c # b \<and> c \<notin> set b"
proof
  assume "split_last c s = Some (a, b)"
  then have c: "c \<in> set s" and a: "a = rev (tl (dropWhile (\<lambda>x. x \<noteq> c) (rev s)))"
    and b: "b = rev (takeWhile (\<lambda>x. x \<noteq> c) (rev s))"
    by (auto simp: split_last_def split: if_splits)
  have "dropWhile (\<lambda>x. x \<noteq> c) (rev s) \<noteq> []" using c by auto
  then have "hd (dropWhile (\<lambda>x. x \<noteq> c) (rev s)) = c" using hd_dropWhile [of "\<lambda>x. x \<noteq> c" "rev s"] by simp
  then have "dropWhile (\<lambda>x. x \<noteq> c) (rev s) = c # rev a"
    using \<open>dropWhile (\<lambda>x. x \<noteq> c) (rev s) \<noteq> []\<close> a by (simp add: list.expand)
  then have "rev s = rev b @ c # rev a" using b by (metis rev_rev_ident takeWhile_dropWhile_id)
  then have "rev (rev s) = rev (rev b @ c # rev a)" by (rule arg_cong)
  then have "s = a @ c # b" by simp
  moreover have "c \<notin> set b" using b by (auto dest: set_takeWhileD)
  ultimately show "s = a @ c # b \<and> c \<notin> set b" by blast
next
  assume s: "s = a @ c # b \<and> c \<notin> set b"
  then have "takeWhile (\<lambda>x. x \<noteq> c) (rev b @ c # rev a) = rev b"
    "dropWhile (\<lambda>x. x \<noteq> c) (rev b @ c # rev a) = c # rev a"
    by (simp_all add: takeWhile_append dropWhile_append)
  with s show "split_last c s = Some (a, b)" by (simp add: split_last_def)
qed

subsection \<open>Lines\<close>

text \<open>\<open>fgets\<close> with a buffer of \<open>n\<close> bytes: a line with its newline, or what fits, and the rest of
  the file; None at the end of the file.\<close>

definition fgets :: "nat \<Rightarrow> string \<Rightarrow> (string \<times> string) option" where
  "fgets n file =
     (if file = [] \<or> n \<le> 1 then None
      else let k = min (n - 1) (length (takeWhile (\<lambda>c. c \<noteq> CHR 0x0A) file) + 1)
           in Some (take k file, drop k file))"

lemma fgets_Some:
  assumes "fgets n file = Some (line, rest)"
  shows "file = line @ rest" "0 < length line" "length line < n" "length rest < length file"
  using assms by (auto simp: fgets_def Let_def split: if_splits)

subsection \<open>Numbers\<close>

definition isspace :: "char \<Rightarrow> bool" where
  "isspace c \<longleftrightarrow> c = CHR '' '' \<or> c \<in> {CHR 0x09, CHR 0x0A, CHR 0x0B, CHR 0x0C, CHR 0x0D}"

definition isdigit :: "char \<Rightarrow> bool" where
  "isdigit c \<longleftrightarrow> 48 \<le> (of_char c :: nat) \<and> (of_char c :: nat) \<le> 57"

definition digit_val :: "char \<Rightarrow> nat" where
  "digit_val c = of_char c - 48"

definition decimal :: "string \<Rightarrow> nat" where
  "decimal ds = foldl (\<lambda>a c. 10 * a + digit_val c) 0 ds"

definition LONG_MAX :: int where [ac_consts]: "LONG_MAX = 2 ^ 63 - 1"
definition LONG_MIN :: int where [ac_consts]: "LONG_MIN = - (2 ^ 63)"
definition INT_MAX :: int where [ac_consts]: "INT_MAX = 2 ^ 31 - 1"

text \<open>\<open>strtol (s, &end, 10)\<close>: the value, the text after it, whether a number was there at all, and
  whether it was out of range. With no number the end pointer is the start of the text.\<close>

record strtol_result =
  sr_val :: int
  sr_end :: string
  sr_any :: bool
  sr_range :: bool

definition strtol :: "string \<Rightarrow> strtol_result" where
  "strtol s =
     (let t = dropWhile isspace s;
          neg = (t \<noteq> [] \<and> hd t = CHR ''-'');
          u = (if t \<noteq> [] \<and> (hd t = CHR ''-'' \<or> hd t = CHR ''+'') then tl t else t);
          ds = takeWhile isdigit u;
          v = (if neg then - int (decimal ds) else int (decimal ds))
      in if ds = [] then \<lparr>sr_val = 0, sr_end = s, sr_any = False, sr_range = False\<rparr>
         else \<lparr>sr_val = max LONG_MIN (min LONG_MAX v), sr_end = drop (length ds) u, sr_any = True,
               sr_range = (v < LONG_MIN \<or> LONG_MAX < v)\<rparr>)"

text \<open>\<open>atoi\<close>: the value of \<open>strtol\<close> converted to \<open>int\<close>.\<close>

definition atoi :: "string \<Rightarrow> int" where
  "atoi s = sint (of_int (sr_val (strtol s)) :: u32)"

lemma digit_char_isdigit: "d < 10 \<Longrightarrow> isdigit (digit_char d) \<and> digit_val (digit_char d) = d"
  by (simp add: isdigit_def digit_val_def digit_char_def)

lemma decimal_snoc: "decimal (ds @ [c]) = 10 * decimal ds + digit_val c"
  by (simp add: decimal_def)

lemma show_nat_digits: "decimal (show_nat n) = n \<and> (\<forall>c \<in> set (show_nat n). isdigit c) \<and> show_nat n \<noteq> []"
proof (induction n rule: less_induct)
  case (less n)
  show ?case
  proof (cases "n < 10")
    case True
    then have "show_nat n = [digit_char n]" by (simp add: show_nat_def digits_in.simps [of 10 n])
    with True show ?thesis using digit_char_isdigit [of n] by (simp add: decimal_def)
  next
    case False
    then have s: "show_nat n = show_nat (n div 10) @ [digit_char (n mod 10)]"
      by (simp add: show_nat_def digits_in.simps [of 10 n])
    show ?thesis
      using less.IH [of "n div 10"] False digit_char_isdigit [of "n mod 10"] by (simp add: s decimal_snoc)
  qed
qed

lemma takeWhile_digits_show_nat:
  assumes "s = [] \<or> \<not> isdigit (hd s)"
  shows "takeWhile isdigit (show_nat n @ s) = show_nat n"
proof -
  have "takeWhile isdigit (show_nat n @ s) = show_nat n @ takeWhile isdigit s"
    using show_nat_digits [of n] by (simp add: takeWhile_append2)
  then show ?thesis using assms by (cases s) auto
qed

lemma show_nat_hd: "isdigit (hd (show_nat n))" "show_nat n \<noteq> []"
  using show_nat_digits [of n] by auto

lemma isdigit_not_space: "isdigit c \<Longrightarrow> \<not> isspace c \<and> c \<noteq> CHR ''-'' \<and> c \<noteq> CHR ''+''"
  by (auto simp: isdigit_def isspace_def)

text \<open>Printing and reading back a number.\<close>

lemma strtol_show_nat:
  assumes "int n \<le> LONG_MAX" "s = [] \<or> \<not> isdigit (hd s)"
  shows "strtol (show_nat n @ s) = \<lparr>sr_val = int n, sr_end = s, sr_any = True, sr_range = False\<rparr>"
proof -
  obtain c cs where c: "show_nat n = c # cs" using show_nat_hd(2) [of n] by (cases "show_nat n") auto
  with show_nat_hd(1) [of n] isdigit_not_space [of c]
  have "dropWhile isspace (show_nat n @ s) = show_nat n @ s" "c \<noteq> CHR ''-''" "c \<noteq> CHR ''+''" by auto
  with c assms show ?thesis
    using takeWhile_digits_show_nat [OF assms(2), of n] show_nat_digits [of n]
    by (simp add: strtol_def Let_def ac_consts)
qed

lemma strtol_show_int:
  assumes "LONG_MIN \<le> i" "i \<le> LONG_MAX" "s = [] \<or> \<not> isdigit (hd s)"
  shows "strtol (show_int i @ s) = \<lparr>sr_val = i, sr_end = s, sr_any = True, sr_range = False\<rparr>"
proof (cases "i < 0")
  case True
  have "takeWhile isdigit (show_nat (nat (- i)) @ s) = show_nat (nat (- i))"
    by (rule takeWhile_digits_show_nat [OF assms(3)])
  moreover have "show_int i @ s = CHR ''-'' # show_nat (nat (- i)) @ s" using True by (simp add: show_int_def)
  moreover have "\<not> isspace CHR ''-''" by (simp add: isspace_def)
  ultimately show ?thesis
    using True assms show_nat_digits [of "nat (- i)"] by (simp add: strtol_def Let_def ac_consts)
next
  case False
  then show ?thesis using strtol_show_nat [of "nat i" s] assms by (simp add: show_int_def)
qed

lemma length_show_nat:
  assumes "n < 10 ^ k" "0 < k"
  shows "length (show_nat n) \<le> k"
  using assms
proof (induction k arbitrary: n)
  case (Suc k)
  show ?case
  proof (cases "n < 10")
    case True
    then show ?thesis by (simp add: show_nat_def digits_in.simps [of 10 n])
  next
    case False
    then have "0 < k" using Suc.prems by (cases k) auto
    moreover have "n div 10 < 10 ^ k" using Suc.prems(1) by (simp add: less_mult_imp_div_less mult.commute)
    ultimately have "length (show_nat (n div 10)) \<le> k" using Suc.IH by blast
    with False show ?thesis by (simp add: show_nat_def digits_in.simps [of 10 n])
  qed
qed simp

lemma atoi_show_nat:
  assumes "int n \<le> INT_MAX"
  shows "atoi (show_nat n) = int n"
proof -
  have "strtol (show_nat n) = \<lparr>sr_val = int n, sr_end = [], sr_any = True, sr_range = False\<rparr>"
    using strtol_show_nat [of n "[]"] assms by (simp add: ac_consts)
  then show ?thesis
    using assms by (simp add: atoi_def ac_consts signed_of_nat signed_take_bit_int_eq_self)
qed

subsection \<open>Bytes\<close>

definition byte :: "char \<Rightarrow> u8" where
  "byte c = of_nat (of_char c)"

lemma byte_zero: "byte c = 0 \<longleftrightarrow> c = NUL"
proof -
  have zero: "(0 :: nat) = of_char NUL" by (simp add: NUL_def)
  have u: "unat (byte c) = of_char c"
    by (simp add: byte_def unsigned_of_nat take_bit_nat_eq_self)
  have "byte c = 0 \<longleftrightarrow> unat (byte c) = 0" by (simp add: unat_eq_0)
  also have "\<dots> \<longleftrightarrow> c = NUL" unfolding u zero by (rule of_char_eq_iff)
  finally show ?thesis .
qed

text \<open>The conversions \<open>%#llx\<close> and \<open>%-ns\<close> of \<open>printf\<close>.\<close>

definition show_alt_hex :: "nat \<Rightarrow> string" where
  "show_alt_hex n = (if n = 0 then ''0'' else ''0x'' @ show_hex n)"

definition pad_right :: "nat \<Rightarrow> string \<Rightarrow> string" where
  "pad_right n s = s @ replicate (n - length s) (CHR 0x20)"

end
