(* ===== verification/Daemon_Device.thy ===== *)
theory Daemon_Device
  imports Module_Lifecycle C_Library
begin

text \<open>
  The device as the daemon sees it: every \<open>ioctl (dev_fd, ...)\<close> of src/src/anticheat_daemon.c is a call
  of \<open>ac_ioctl\<close> of the module, on the descriptor the daemon opened. Between two calls the module's state
  is changed by other processes and by the probes; what happened before the n-th call, and the
  circumstances of that call (memory, allocation results, whether the caller is privileged) are the
  parameter \<open>dsys\<close>.

  The daemon reads a snapshot by asking for its length and then for one entry after the other
  (SCAN_BEGIN, SCAN_GET, SCAN_END and MODS_BEGIN, MODS_GET, MODS_END). The contract
  \<open>snapshot_session\<close> states what such a reading relies on; the loop is shown once, inside it, to return
  the snapshot, and both sequences of ioctls are instances.
\<close>

subsection \<open>Calls on the device\<close>

record dsys =
  sys_call :: "nat \<Rightarrow> kcall"
  sys_between :: "nat \<Rightarrow> ac_module \<Rightarrow> ac_module"

record dev =
  dv_file :: ac_file
  dv_mod :: ac_module
  dv_calls :: nat

definition dev_ioctl :: "dsys \<Rightarrow> ac_cmd \<Rightarrow> uarg \<Rightarrow> dev \<Rightarrow> (kret \<times> ureply) \<times> dev" where
  "dev_ioctl s c u d =
     (let n = dv_calls d;
          (r, f, m) = ac_ioctl (sys_call s n) (ioctl_num c) u (dv_file d) (sys_between s n (dv_mod d))
      in (r, \<lparr>dv_file = f, dv_mod = m, dv_calls = Suc n\<rparr>))"

text \<open>The arguments, zeroed by \<open>memset\<close> before their fields are set.\<close>

definition no_arg :: uarg where
  "no_arg = \<lparr>u_proc_id = None, u_scan_begin = None, u_scan_get = None, u_mod_get = None\<rparr>"

definition proc_arg :: "int \<Rightarrow> int \<Rightarrow> int \<Rightarrow> uarg" where
  "proc_arg pid ref_pid jit =
     no_arg\<lparr>u_proc_id := Some \<lparr>id_pid = pid, id_ref_pid = ref_pid, id_jit_allowed = jit, id_comm = []\<rparr>\<rparr>"

definition begin_arg :: "int \<Rightarrow> int \<Rightarrow> uarg" where
  "begin_arg pid emit =
     no_arg\<lparr>u_scan_begin := Some \<lparr>sb_pid = pid, sb_emit_events = emit, sb_n_vmas = 0, sb_rwx_count = 0,
       sb_exec_count = 0, sb_anon_exec_count = 0, sb_truncated = False\<rparr>\<rparr>"

definition get_arg :: "int \<Rightarrow> nat \<Rightarrow> uarg" where
  "get_arg pid i =
     no_arg\<lparr>u_scan_get := Some \<lparr>sg_pid = pid, sg_index = i, sg_vma =
       \<lparr>vi_start = 0, vi_end = 0, vi_offset = 0, vi_inode = 0, vi_flags = 0, vi_is_file = False, vi_path = []\<rparr>\<rparr>\<rparr>"

definition mod_arg :: "nat \<Rightarrow> uarg" where
  "mod_arg i =
     no_arg\<lparr>u_mod_get := Some \<lparr>mg_index = i, mg_mod = \<lparr>mi_name = [], mi_size = 0, mi_state = 0\<rparr>\<rparr>\<rparr>"

definition list_protected :: "dsys \<Rightarrow> dev \<Rightarrow> ac_prot_list option \<times> dev" where
  "list_protected s d =
     (case dev_ioctl s LIST_PROTECTED no_arg d of
        ((RetOK, R_prot_list pl), d') \<Rightarrow> (Some pl, d')
      | (_, d') \<Rightarrow> (None, d'))"

definition scan_begin :: "dsys \<Rightarrow> int \<Rightarrow> int \<Rightarrow> dev \<Rightarrow> ac_scan_begin option \<times> dev" where
  "scan_begin s pid emit d =
     (case dev_ioctl s SCAN_BEGIN (begin_arg pid emit) d of
        ((RetOK, R_scan_begin b), d') \<Rightarrow> (Some b, d')
      | (_, d') \<Rightarrow> (None, d'))"

definition scan_get :: "dsys \<Rightarrow> int \<Rightarrow> nat \<Rightarrow> dev \<Rightarrow> ac_vma_info option \<times> dev" where
  "scan_get s pid i d =
     (case dev_ioctl s SCAN_GET (get_arg pid i) d of
        ((RetOK, R_scan_get g), d') \<Rightarrow> (Some (sg_vma g), d')
      | (_, d') \<Rightarrow> (None, d'))"

definition scan_end :: "dsys \<Rightarrow> dev \<Rightarrow> dev" where
  "scan_end s d = snd (dev_ioctl s SCAN_END no_arg d)"

definition mods_begin :: "dsys \<Rightarrow> dev \<Rightarrow> nat option \<times> dev" where
  "mods_begin s d =
     (case dev_ioctl s MODS_BEGIN no_arg d of
        ((RetOK, R_mods_begin n), d') \<Rightarrow> (Some n, d')
      | (_, d') \<Rightarrow> (None, d'))"

definition mods_get :: "dsys \<Rightarrow> nat \<Rightarrow> dev \<Rightarrow> ac_mod_info option \<times> dev" where
  "mods_get s i d =
     (case dev_ioctl s MODS_GET (mod_arg i) d of
        ((RetOK, R_mod_get g), d') \<Rightarrow> (Some (mg_mod g), d')
      | (_, d') \<Rightarrow> (None, d'))"

definition mods_end :: "dsys \<Rightarrow> dev \<Rightarrow> dev" where
  "mods_end s d = snd (dev_ioctl s MODS_END no_arg d)"

subsection \<open>Reading a snapshot entry by entry\<close>

text \<open>The loop \<open>for (v = 0; v < n; v++)\<close> around a GET ioctl that breaks when the ioctl fails: the entries
  received.\<close>

function get_loop :: "(nat \<Rightarrow> 's \<Rightarrow> 'a option \<times> 's) \<Rightarrow> nat \<Rightarrow> nat \<Rightarrow> 's \<Rightarrow> 'a list \<times> 's" where
  "get_loop get n i s =
     (if i < n
      then case get i s of
             (None, s') \<Rightarrow> ([], s')
           | (Some x, s') \<Rightarrow> let (xs, s'') = get_loop get n (Suc i) s' in (x # xs, s'')
      else ([], s))"
  by pat_completeness auto
termination
  by (relation "measure (\<lambda>(get, n, i, s). n - i)") auto

declare get_loop.simps [simp del]

definition scan_vmas :: "dsys \<Rightarrow> int \<Rightarrow> int \<Rightarrow> dev \<Rightarrow> (ac_scan_begin \<times> ac_vma_info list) option \<times> dev" where
  "scan_vmas s pid emit d =
     (case scan_begin s pid emit d of
        (None, d1) \<Rightarrow> (None, d1)
      | (Some b, d1) \<Rightarrow>
          let (vs, d2) = get_loop (scan_get s pid) (sb_n_vmas b) 0 d1
          in (Some (b, vs), scan_end s d2))"

subsection \<open>The contract of a snapshot\<close>

locale snapshot_session =
  fixes get :: "nat \<Rightarrow> 's \<Rightarrow> 'a option \<times> 's"
    and contents :: "'s \<Rightarrow> 'a list"
    and healthy :: "'s \<Rightarrow> bool"
  assumes get_contents: "contents (snd (get i s)) = contents s"
    and get_sound: "fst (get i s) = Some x \<Longrightarrow> i < length (contents s) \<Longrightarrow> x = contents s ! i"
    and get_healthy: "healthy s \<Longrightarrow> healthy (snd (get i s))"
    and get_answers: "healthy s \<Longrightarrow> i < length (contents s) \<Longrightarrow> fst (get i s) \<noteq> None"
begin

text \<open>What the loop has read is a part of the snapshot from the start on, and all of it when no ioctl
  failed.\<close>

lemma get_loop_reads:
  assumes "n \<le> length (contents s)"
  shows "contents (snd (get_loop get n i s)) = contents s \<and>
    (\<exists>k. fst (get_loop get n i s) = take k (drop i (take n (contents s)))) \<and>
    (healthy s \<longrightarrow> healthy (snd (get_loop get n i s)) \<and>
       fst (get_loop get n i s) = drop i (take n (contents s)))"
  using assms
proof (induction "n - i" arbitrary: i s)
  case 0
  then have "get_loop get n i s = ([], s)" by (subst get_loop.simps) simp
  with 0 show ?case by simp
next
  case (Suc d)
  have i: "i < n" "d = n - Suc i" using Suc.hyps(2) by simp_all
  obtain r s' where g: "get i s = (r, s')" by (cases "get i s")
  have c: "contents s' = contents s" using get_contents [of i s] g by simp
  show ?case
  proof (cases r)
    case None
    then have "\<not> healthy s" using get_answers [of s i] g i(1) Suc.prems by auto
    moreover have "get_loop get n i s = ([], s')" using g None i(1) by (subst get_loop.simps) simp
    ultimately show ?thesis using c by (auto intro: exI [of _ 0])
  next
    case (Some x)
    have x: "drop i (take n (contents s)) = x # drop (Suc i) (take n (contents s))"
      using get_sound [of i s x] g Some i(1) Suc.prems by (simp add: Cons_nth_drop_Suc [symmetric])
    have h: "healthy s \<Longrightarrow> healthy s'" using get_healthy [of s i] g by simp
    have step: "get_loop get n i s = (x # fst (get_loop get n (Suc i) s'), snd (get_loop get n (Suc i) s'))"
      using g Some i(1) by (subst get_loop.simps) (simp add: case_prod_beta)
    have IH: "contents (snd (get_loop get n (Suc i) s')) = contents s \<and>
      (\<exists>k. fst (get_loop get n (Suc i) s') = take k (drop (Suc i) (take n (contents s)))) \<and>
      (healthy s' \<longrightarrow> healthy (snd (get_loop get n (Suc i) s')) \<and>
         fst (get_loop get n (Suc i) s') = drop (Suc i) (take n (contents s)))"
      using Suc.hyps(1) [OF i(2), of s'] Suc.prems unfolding c by blast
    then obtain k where k: "fst (get_loop get n (Suc i) s') = take k (drop (Suc i) (take n (contents s)))"
      by blast
    show ?thesis
      unfolding step x fst_conv snd_conv
    proof (intro conjI impI exI [of _ "Suc k"])
      show "x # fst (get_loop get n (Suc i) s') = take (Suc k) (x # drop (Suc i) (take n (contents s)))"
        by (simp only: k take_Suc_Cons)
    qed (use IH h in blast)+
  qed
qed

lemma get_loop_full:
  assumes "healthy s"
  shows "fst (get_loop get (length (contents s)) 0 s) = contents s"
  using get_loop_reads [of "length (contents s)" s 0] assms by simp

end

subsection \<open>The device keeps its contract\<close>

text \<open>The snapshots a descriptor holds.\<close>

definition file_vmas :: "ac_file \<Rightarrow> ac_vma_info list" where
  "file_vmas f =
     (case private_data f of None \<Rightarrow> [] | Some st \<Rightarrow> take (fd_n_vmas st) (case fd_vmas st of None \<Rightarrow> [] | Some vs \<Rightarrow> vs))"

definition file_mods :: "ac_file \<Rightarrow> ac_mod_info list" where
  "file_mods f =
     (case private_data f of None \<Rightarrow> [] | Some st \<Rightarrow> take (fd_n_mods st) (case fd_mods st of None \<Rightarrow> [] | Some ms \<Rightarrow> ms))"

text \<open>The daemon runs privileged and its replies can be copied out.\<close>

definition privileged :: "dsys \<Rightarrow> bool" where
  "privileged s \<longleftrightarrow> (\<forall>n. k_capable (sys_call s n) \<and> k_copy_out (sys_call s n))"

lemma dev_ioctl_capable:
  "k_capable (sys_call s (dv_calls d)) \<Longrightarrow>
   dev_ioctl s c u d =
     (let (r, f, m) = run_cmd (sys_call s (dv_calls d)) c u (dv_file d) (sys_between s (dv_calls d) (dv_mod d))
      in (r, \<lparr>dv_file = f, dv_mod = m, dv_calls = Suc (dv_calls d)\<rparr>))"
  by (simp add: dev_ioctl_def Let_def)

lemma dev_ioctl_refused:
  "\<not> k_capable (sys_call s (dv_calls d)) \<Longrightarrow>
   dev_ioctl s c u d = ((RetErr EPERM, R_none),
     d\<lparr>dv_mod := sys_between s (dv_calls d) (dv_mod d), dv_calls := Suc (dv_calls d)\<rparr>)"
  by (simp add: dev_ioctl_def ac_ioctl_def Let_def)

lemmas dev_ioctl_cases = dev_ioctl_capable dev_ioctl_refused

lemma scan_get_eq:
  "scan_get s pid i d =
     ((if k_capable (sys_call s (dv_calls d)) \<and> k_copy_out (sys_call s (dv_calls d))
       then case private_data (dv_file d) of
              None \<Rightarrow> None
            | Some st \<Rightarrow> if i < fd_n_vmas st then Some (the (fd_vmas st) ! i) else None
       else None),
      d\<lparr>dv_mod := sys_between s (dv_calls d) (dv_mod d), dv_calls := Suc (dv_calls d)\<rparr>)"
  by (cases "k_capable (sys_call s (dv_calls d))")
    (auto simp: scan_get_def dev_ioctl_cases ioctl_scan_get_def get_arg_def copy_to_user_def split: option.splits)

lemma mods_get_eq:
  "mods_get s i d =
     ((if k_capable (sys_call s (dv_calls d)) \<and> k_copy_out (sys_call s (dv_calls d))
       then case private_data (dv_file d) of
              None \<Rightarrow> None
            | Some st \<Rightarrow> if i < fd_n_mods st then Some (the (fd_mods st) ! i) else None
       else None),
      d\<lparr>dv_mod := sys_between s (dv_calls d) (dv_mod d), dv_calls := Suc (dv_calls d)\<rparr>)"
  by (cases "k_capable (sys_call s (dv_calls d))")
    (auto simp: mods_get_def dev_ioctl_cases ioctl_mods_get_def mod_arg_def copy_to_user_def split: option.splits)

interpretation vma_session: snapshot_session "scan_get sy pid" "\<lambda>d. file_vmas (dv_file d)" "\<lambda>d. privileged sy"
  for sy pid
  by unfold_locales
    (auto simp: scan_get_eq file_vmas_def privileged_def split: option.splits if_splits)

interpretation mod_session: snapshot_session "mods_get sy" "\<lambda>d. file_mods (dv_file d)" "\<lambda>d. privileged sy"
  for sy
  by unfold_locales
    (auto simp: mods_get_eq file_mods_def privileged_def split: option.splits if_splits)

subsection \<open>What the calls return\<close>

text \<open>The address space the n-th call sees for a process, and the mappings listed there.\<close>

definition call_vmas :: "dsys \<Rightarrow> nat \<Rightarrow> int \<Rightarrow> ac_vma_info list" where
  "call_vmas s n pid =
     (let k = sys_call s n
      in vma_infos (k_path_buf k) 0 (take 4096 (mm_vmas (k_mm k) (scan_mm (k_env k) (k_mm k) pid))))"

lemma scan_begin_Some:
  assumes "scan_begin s pid emit d = (Some b, d')"
  shows "sb_pid b = pid" "file_vmas (dv_file d') = call_vmas s (dv_calls d) pid"
    "sb_n_vmas b = length (call_vmas s (dv_calls d) pid)" "dv_calls d' = Suc (dv_calls d)"
proof -
  let ?k = "sys_call s (dv_calls d)" and ?m = "sys_between s (dv_calls d) (dv_mod d)"
  have cap: "k_capable ?k"
    using assms by (rule_tac ccontr) (simp add: scan_begin_def dev_ioctl_refused)
  obtain r f1 m1 where run: "ac_ioctl ?k (ioctl_num SCAN_BEGIN) (begin_arg pid emit) (dv_file d) ?m = (r, f1, m1)"
    by (rule prod_cases3)
  have b: "r = (RetOK, R_scan_begin b)" "d' = \<lparr>dv_file = f1, dv_mod = m1, dv_calls = Suc (dv_calls d)\<rparr>"
    using assms run by (auto simp: scan_begin_def dev_ioctl_def Let_def split: prod.splits kret.splits ureply.splits)
  have run': "ac_ioctl ?k (ioctl_num SCAN_BEGIN) (begin_arg pid emit) (dv_file d) ?m
      = ((RetOK, R_scan_begin b), f1, m1)"
    using run b(1) by simp
  then show pid: "sb_pid b = pid"
    using cap by (auto simp: ioctl_scan_begin_def begin_arg_def copy_to_user_def Let_def
        split: option.splits prod.splits if_splits)
  from scan_begin_reply [OF cap run'] obtain st where st: "private_data f1 = Some st"
    "sb_n_vmas b = fd_n_vmas st"
    "fd_n_vmas st = min 4096 (length (mm_vmas (k_mm ?k) (scan_mm (k_env ?k) (k_mm ?k) (sb_pid b))))"
    "fd_vmas st = Some (vma_infos (k_path_buf ?k) 0
      (take 4096 (mm_vmas (k_mm ?k) (scan_mm (k_env ?k) (k_mm ?k) (sb_pid b)))))"
    by blast
  then show "file_vmas (dv_file d') = call_vmas s (dv_calls d) pid"
    "sb_n_vmas b = length (call_vmas s (dv_calls d) pid)"
    by (simp_all add: file_vmas_def call_vmas_def Let_def b(2) pid min.commute)
  show "dv_calls d' = Suc (dv_calls d)" using b(2) by simp
qed

lemma scan_vmas_exact:
  assumes "privileged s" "scan_begin s pid emit d = (Some b, d1)"
  shows "fst (scan_vmas s pid emit d) = Some (b, call_vmas s (dv_calls d) pid)"
proof -
  note b = scan_begin_Some [OF assms(2)]
  have "fst (get_loop (scan_get s pid) (sb_n_vmas b) 0 d1) = file_vmas (dv_file d1)"
    using vma_session.get_loop_full [OF assms(1), where s = d1] b(2,3) by simp
  then show ?thesis
    by (simp add: scan_vmas_def assms(2) b(2) case_prod_beta)
qed

text \<open>The module state a call finds, and an argument for what happens between calls: it keeps the
  module's invariants, as every step of the module does.\<close>

definition now_mod :: "dsys \<Rightarrow> dev \<Rightarrow> ac_module" where
  "now_mod s d = sys_between s (dv_calls d) (dv_mod d)"

definition dev_ok :: "dsys \<Rightarrow> dev \<Rightarrow> bool" where
  "dev_ok s d \<longleftrightarrow> module_inv (dv_mod d) \<and> file_ok (dv_file d) \<and>
     (\<forall>n m. module_inv m \<longrightarrow> module_inv (sys_between s n m))"

lemma now_mod_inv: "dev_ok s d \<Longrightarrow> module_inv (now_mod s d)"
  by (simp add: dev_ok_def now_mod_def)

lemma dev_ioctl_ok: "dev_ok s d \<Longrightarrow> dev_ok s (snd (dev_ioctl s c u d))"
  using ac_ioctl_inv [of "now_mod s d" "dv_file d" "sys_call s (dv_calls d)" "ioctl_num c" u]
  by (auto simp: dev_ioctl_def dev_ok_def now_mod_def Let_def split: prod.splits)

lemma dev_ioctl_calls [simp]: "dv_calls (snd (dev_ioctl s c u d)) = Suc (dv_calls d)"
  by (simp add: dev_ioctl_def Let_def split: prod.splits)

lemma privilegedD: "privileged s \<Longrightarrow> k_capable (sys_call s n)" "privileged s \<Longrightarrow> k_copy_out (sys_call s n)"
  by (simp_all add: privileged_def)

lemma wrappers_snd:
  "snd (list_protected s d) = snd (dev_ioctl s LIST_PROTECTED no_arg d)"
  "snd (scan_begin s pid emit d) = snd (dev_ioctl s SCAN_BEGIN (begin_arg pid emit) d)"
  "snd (scan_get s pid i d) = snd (dev_ioctl s SCAN_GET (get_arg pid i) d)"
  "snd (mods_begin s d) = snd (dev_ioctl s MODS_BEGIN no_arg d)"
  "snd (mods_get s i d) = snd (dev_ioctl s MODS_GET (mod_arg i) d)"
  by (simp_all add: list_protected_def scan_begin_def scan_get_def mods_begin_def mods_get_def
      split: prod.splits kret.splits ureply.splits)

lemma wrappers_ok:
  assumes "dev_ok s d"
  shows "dev_ok s (snd (list_protected s d))" "dev_ok s (snd (scan_begin s pid emit d))"
    "dev_ok s (snd (scan_get s pid i d))" "dev_ok s (scan_end s d)" "dev_ok s (snd (mods_begin s d))"
    "dev_ok s (snd (mods_get s i d))" "dev_ok s (mods_end s d)"
  using dev_ioctl_ok [OF assms] by (simp_all add: wrappers_snd scan_end_def mods_end_def)

lemma get_loop_ok:
  assumes "\<And>i s. P s \<Longrightarrow> P (snd (get i s))" "P s"
  shows "P (snd (get_loop get n i s))"
  using assms(2)
proof (induction "n - i" arbitrary: i s)
  case 0
  then show ?case by (subst get_loop.simps) simp
next
  case (Suc d)
  then have "P (snd (get_loop get n (Suc i) (snd (get i s))))" using assms(1) by auto
  then show ?case
    using assms(1) [OF Suc.prems, of i] Suc.prems by (subst get_loop.simps) (auto split: prod.splits option.splits)
qed

lemma scan_vmas_ok: "dev_ok s d \<Longrightarrow> dev_ok s (snd (scan_vmas s pid emit d))"
  using wrappers_ok(2) [of s d pid emit] get_loop_ok [where P = "dev_ok s" and get = "scan_get s pid"]
    wrappers_ok(3,4) [of s]
  by (auto simp: scan_vmas_def case_prod_beta split: option.splits prod.splits)

text \<open>The replies a privileged daemon gets.\<close>

lemma list_protected_eq:
  assumes "privileged s"
  shows "list_protected s d = (Some (ac_list_protected (m_reg (now_mod s d))),
    d\<lparr>dv_mod := now_mod s d, dv_calls := Suc (dv_calls d)\<rparr>)"
  by (simp add: list_protected_def dev_ioctl_capable privilegedD [OF assms] ioctl_list_protected_def
      copy_to_user_def now_mod_def)

lemma mods_begin_eq:
  assumes "privileged s" "k_alloc_fd (sys_call s (dv_calls d))" "k_alloc_snapshot (sys_call s (dv_calls d))"
  shows "\<exists>d'. mods_begin s d = (Some (length (file_mods (dv_file d'))), d') \<and> dv_calls d' = Suc (dv_calls d) \<and>
    file_mods (dv_file d') =
      take 1024 (map mod_info_of (filter ac_module_sane (kmods (k_img (sys_call s (dv_calls d))))))"
  using assms privilegedD [OF assms(1), of "dv_calls d"]
    take_min_length [of 1024 "map mod_info_of (filter ac_module_sane (kmods (k_img (sys_call s (dv_calls d)))))"]
  by (auto simp: mods_begin_def dev_ioctl_capable ioctl_mods_begin_def mod_snapshot_exact Let_def
      copy_to_user_def file_mods_def ac_get_fd_state_def min.commute split: option.splits)

text \<open>The counts of a scan.\<close>

definition call_anon_exec :: "kcall \<Rightarrow> int \<Rightarrow> nat" where
  "call_anon_exec k pid =
     length (filter (\<lambda>v. vm_file v = None \<and> is_exec (vm_flags v))
       (take 4096 (mm_vmas (k_mm k) (scan_mm (k_env k) (k_mm k) pid))))"

definition call_rwx :: "kcall \<Rightarrow> int \<Rightarrow> nat" where
  "call_rwx k pid =
     length (filter (\<lambda>v. is_rwx (vm_flags v)) (take 4096 (mm_vmas (k_mm k) (scan_mm (k_env k) (k_mm k) pid))))"

definition scannable :: "kcall \<Rightarrow> int \<Rightarrow> bool" where
  "scannable k pid \<longleftrightarrow> scan_mm (k_env k) (k_mm k) pid \<noteq> 0"

lemma scan_begin_counts:
  assumes "privileged s" "k_alloc_fd (sys_call s (dv_calls d))" "k_alloc_snapshot (sys_call s (dv_calls d))"
  shows "if scannable (sys_call s (dv_calls d)) pid
    then \<exists>b. fst (scan_begin s pid emit d) = Some b \<and>
           sb_anon_exec_count b = call_anon_exec (sys_call s (dv_calls d)) pid \<and>
           sb_rwx_count b = call_rwx (sys_call s (dv_calls d)) pid
    else fst (scan_begin s pid emit d) = None"
  using assms privilegedD [OF assms(1), of "dv_calls d"]
  by (auto simp: scan_begin_def dev_ioctl_capable ioctl_scan_begin_def begin_arg_def Let_def copy_to_user_def
      ac_get_fd_state_def ac_build_vma_snapshot_eq vma_loop_eq scannable_def call_anon_exec_def call_rwx_def
      cleared_scan_def AC_MAX_VMAS_def split: option.splits)

subsection \<open>A quiet machine for the witnesses\<close>

definition demo_sys :: "kcall \<Rightarrow> dsys" where
  "demo_sys k = \<lparr>sys_call = (\<lambda>_. k), sys_between = (\<lambda>_ m. m)\<rparr>"

definition demo_dev :: dev where
  "demo_dev = \<lparr>dv_file = \<lparr>private_data = None\<rparr>, dv_mod = module_init, dv_calls = 0\<rparr>"

lemma demo_sys_privileged [simp]: "k_capable k \<Longrightarrow> k_copy_out k \<Longrightarrow> privileged (demo_sys k)"
  by (simp add: demo_sys_def privileged_def)

lemma demo_sys_sel [simp]: "sys_call (demo_sys k) n = k" "sys_between (demo_sys k) n m = m"
  by (simp_all add: demo_sys_def)

lemma demo_dev_ok: "dev_ok (demo_sys k) demo_dev"
  by (simp add: dev_ok_def demo_dev_def file_ok_def module_init_inv)

end
