(* ===== verification/Daemon_Report.thy ===== *)
theory Daemon_Report
  imports C_Library
begin

text \<open>
  Logging and the report pipeline of the daemon (\<open>src/src/anticheat_daemon.c\<close>): \<open>logmsg\<close>, the JSON
  string escaping \<open>ac_json_escape\<close>, the client identifier, and \<open>ac_report\<close> with its address
  resolution and send loop.

  What the system provides (the environment variables, the clock, the resolver, sockets, the
  results of \<open>write\<close>) is a parameter. The lemmas show that an escaped string decodes to a prefix
  of its input, cut only where the buffer ends, that the report body is never truncated and can
  be read back, that the length announced to the server is the length sent, and that nothing is
  sent unless reporting is configured and the message is a detection.
\<close>

subsection \<open>Logging\<close>

definition LOG_ALERT :: int where [ac_consts]: "LOG_ALERT = 1"
definition LOG_CRIT :: int where [ac_consts]: "LOG_CRIT = 2"
definition LOG_WARNING :: int where [ac_consts]: "LOG_WARNING = 4"
definition LOG_INFO :: int where [ac_consts]: "LOG_INFO = 6"

datatype log_effect = Syslog int string | Stderr string | Report string string

text \<open>\<open>logmsg\<close> with its message already formatted; the buffer holds 512 bytes.\<close>

definition logmsg :: "bool \<Rightarrow> int \<Rightarrow> string \<Rightarrow> log_effect list" where
  "logmsg g_verbose pri msg =
     (let buf = snprintf 512 msg
      in [Syslog pri buf]
         @ (if pri \<le> LOG_WARNING \<or> g_verbose then [Stderr buf] else [])
         @ (if pri \<le> LOG_CRIT
            then [Report (if pri \<le> LOG_ALERT then ''ALERT'' else ''CRITICAL'') buf] else []))"

subsection \<open>JSON strings\<close>

definition QUOTE :: char where "QUOTE = CHR 0x22"
definition BACKSLASH :: char where "BACKSLASH = CHR 0x5C"

text \<open>The conversion \<open>%04x\<close>.\<close>

definition show_hex4 :: "nat \<Rightarrow> string" where
  "show_hex4 n = replicate (4 - length (show_hex n)) (CHR ''0'') @ show_hex n"

text \<open>What the loop of \<open>ac_json_escape\<close> writes for one character.\<close>

definition escape_char :: "char \<Rightarrow> string" where
  "escape_char c =
     (if c = QUOTE then [BACKSLASH, QUOTE]
      else if c = BACKSLASH then [BACKSLASH, BACKSLASH]
      else if c = CHR 0x0A then [BACKSLASH, CHR ''n'']
      else if c = CHR 0x0D then [BACKSLASH, CHR ''r'']
      else if c = CHR 0x09 then [BACKSLASH, CHR ''t'']
      else if of_char c < (32 :: nat) then BACKSLASH # CHR ''u'' # show_hex4 (of_char c)
      else [c])"

fun escape_loop :: "nat \<Rightarrow> string \<Rightarrow> string \<Rightarrow> string" where
  "escape_loop outsz [] out = out"
| "escape_loop outsz (c # cs) out =
     (if length out + 7 < outsz then escape_loop outsz cs (out @ escape_char c) else out)"

text \<open>None: the buffer has no room at all and is left as it is.\<close>

definition ac_json_escape :: "string \<Rightarrow> nat \<Rightarrow> string option" where
  "ac_json_escape inp outsz = (if outsz = 0 then None else Some (escape_loop outsz (cstr inp) []))"

subsection \<open>The client identifier\<close>

text \<open>The loops that cut trailing line ends.\<close>

definition strip_eol :: "string \<Rightarrow> string" where
  "strip_eol s = rev (dropWhile (\<lambda>c. c = CHR 0x0A \<or> c = CHR 0x0D) (rev s))"

text \<open>The machine id file (None: it cannot be opened) and \<open>gethostname\<close> for a buffer size (None: an
  error).\<close>

definition hostname_or_unknown :: "(nat \<Rightarrow> string option) \<Rightarrow> nat \<Rightarrow> string" where
  "hostname_or_unknown gethostname outsz =
     (case gethostname outsz of
        Some h \<Rightarrow> if h \<noteq> [] then h else snprintf outsz ''unknown''
      | None \<Rightarrow> snprintf outsz ''unknown'')"

definition ac_report_client_id :: "string option \<Rightarrow> (nat \<Rightarrow> string option) \<Rightarrow> nat \<Rightarrow> string" where
  "ac_report_client_id machine_id gethostname outsz =
     (case machine_id \<bind> fgets outsz of
        Some (line, _) \<Rightarrow>
          let s = strip_eol (cstr line)
          in if s \<noteq> [] then s else hostname_or_unknown gethostname outsz
      | None \<Rightarrow> hostname_or_unknown gethostname outsz)"

subsection \<open>The report\<close>

definition json_field :: "string \<Rightarrow> string \<Rightarrow> string" where
  "json_field name val = QUOTE # name @ [QUOTE, CHR '':'', QUOTE] @ val @ [QUOTE]"

definition report_json :: "string \<Rightarrow> string \<Rightarrow> string \<Rightarrow> int \<Rightarrow> string" where
  "report_json client_id et_esc detail_esc ts =
     CHR ''{'' # json_field ''client_id'' client_id
     @ CHR '','' # json_field ''event_type'' et_esc
     @ CHR '','' # json_field ''detail'' detail_esc
     @ CHR '','' # QUOTE # ''ts'' @ [QUOTE, CHR '':''] @ show_int ts @ [CHR ''}'']"

text \<open>The body as \<open>ac_report\<close> formats it into its 1024 bytes, from the event type and the detail.\<close>

definition report_body :: "string \<Rightarrow> string \<Rightarrow> string \<Rightarrow> int \<Rightarrow> string" where
  "report_body client_id event_type detail ts =
     snprintf 1024 (report_json client_id (the (ac_json_escape event_type 64))
       (the (ac_json_escape detail 600)) ts)"

definition CRLF :: string where "CRLF = [CHR 0x0D, CHR 0x0A]"

definition report_request :: "string \<Rightarrow> string \<Rightarrow> string \<Rightarrow> string" where
  "report_request host key body =
     ''POST /report HTTP/1.1'' @ CRLF
     @ ''Host: '' @ host @ CRLF
     @ ''Authorization: Bearer '' @ key @ CRLF
     @ ''Content-Type: application/json'' @ CRLF
     @ ''Content-Length: '' @ show_nat (length body) @ CRLF
     @ ''Connection: close'' @ CRLF
     @ CRLF
     @ body"

text \<open>The send loop; \<open>wr sent n\<close> is what \<open>write\<close> returns for the \<open>n\<close> bytes left. The result is
  None when \<open>write\<close> fails and the number of bytes sent otherwise.\<close>

function send_loop :: "(nat \<Rightarrow> nat \<Rightarrow> int) \<Rightarrow> nat \<Rightarrow> nat \<Rightarrow> nat option" where
  "send_loop wr reqlen sent =
     (if sent < reqlen
      then let w = wr sent (reqlen - sent)
           in if w < 0 then None
              else if w = 0 then Some sent
              else send_loop wr reqlen (sent + nat w)
      else Some sent)"
  by pat_completeness auto
termination by (relation "measure (\<lambda>(wr, reqlen, sent). reqlen - sent)") auto

declare send_loop.simps [simp del]

definition AC_REPORT_TIMEOUT_SEC :: nat where [ac_consts]: "AC_REPORT_TIMEOUT_SEC = 3"
definition AC_RESOLVE_MAX :: nat where [ac_consts]: "AC_RESOLVE_MAX = 8"

text \<open>The non-blocking connect: whether \<open>fcntl\<close> can read and set the flags, what \<open>connect\<close>
  says, the value of \<open>poll\<close> for a number of milliseconds, and the pending socket error (None when it
  cannot be read). The result is whether the socket is connected and whether it is left in
  non-blocking mode, given the mode it came in.\<close>

datatype conn_result = ConnDone | ConnInProgress | ConnFailed

record conn_env =
  c_getfl :: bool
  c_setfl :: bool
  c_connect :: conn_result
  c_poll :: "nat \<Rightarrow> int"
  c_so_error :: "int option"

definition ac_connect_timeout :: "conn_env \<Rightarrow> bool \<Rightarrow> nat \<Rightarrow> bool \<times> bool" where
  "ac_connect_timeout c nonblock timeout_sec =
     (if \<not> c_getfl c then (False, nonblock)
      else let flags = nonblock
           in if \<not> c_setfl c then (False, nonblock)
              else case c_connect c of
                     ConnDone \<Rightarrow> (True, flags)
                   | ConnFailed \<Rightarrow> (False, flags)
                   | ConnInProgress \<Rightarrow>
                       if c_poll c (timeout_sec * 1000) \<le> 0 then (False, flags)
                       else (case c_so_error c of
                               None \<Rightarrow> (False, flags)
                             | Some err \<Rightarrow> (err = 0, flags)))"

text \<open>The parent's side of \<open>ac_resolve_timeout\<close>: the bytes of the pipe arrive in pieces, each with
  the milliseconds left when it is awaited; a piece is never longer than what was asked for. An
  exhausted list is the end of the file, an error or the deadline.\<close>

fun resolve_loop :: "nat \<Rightarrow> nat \<Rightarrow> (int \<times> 'b list) list \<Rightarrow> 'b list \<Rightarrow> 'b list list \<Rightarrow> 'b list list" where
  "resolve_loop sz mx [] buf out = out"
| "resolve_loop sz mx ((remaining_ms, piece) # ps) buf out =
     (if length out < mx then
        if remaining_ms \<le> 0 \<or> piece = [] then out
        else let buf' = buf @ take (sz - length buf) piece
             in if length buf' = sz then resolve_loop sz mx ps [] (out @ [buf'])
                else resolve_loop sz mx ps buf' out
      else out)"

text \<open>\<open>sizeof (struct ac_resolved_addr)\<close>.\<close>

definition AC_ADDR_SIZE :: nat where [ac_consts]: "AC_ADDR_SIZE = 144"

text \<open>None: no pipe or no child.\<close>

definition ac_resolve_timeout :: "(int \<times> u8 list) list option \<Rightarrow> nat \<Rightarrow> u8 list list option" where
  "ac_resolve_timeout pieces mx = map_option (\<lambda>ps. resolve_loop AC_ADDR_SIZE mx ps [] []) pieces"

record net_env =
  n_url :: "string option"
  n_key :: "string option"
  n_machine_id :: "string option"
  n_gethostname :: "nat \<Rightarrow> string option"
  n_time :: int
  n_pieces :: "string \<Rightarrow> string \<Rightarrow> (int \<times> u8 list) list option"
  n_socket :: "u8 list \<Rightarrow> bool"
  n_conn :: "u8 list \<Rightarrow> conn_env"
  n_write :: "nat \<Rightarrow> nat \<Rightarrow> int"
  n_response :: string

datatype report_outcome =
  NotConfigured | BadUrl | NotResolved | NotConnected | TooLarge | SendFailed | ShortWrite nat
| Sent string bool

text \<open>The loop over the addresses: the first one with a socket that connects.\<close>

definition usable_addr :: "net_env \<Rightarrow> u8 list \<Rightarrow> bool" where
  "usable_addr e a \<longleftrightarrow> n_socket e a \<and> fst (ac_connect_timeout (n_conn e a) False AC_REPORT_TIMEOUT_SEC)"

text \<open>Whether the answer is one the daemon complains about.\<close>

definition bad_response :: "string \<Rightarrow> bool" where
  "bad_response resp \<longleftrightarrow>
     resp \<noteq> [] \<and> \<not> strstr (cstr (take 63 resp)) '' 200'' \<and> \<not> strstr (cstr (take 63 resp)) '' 201''"

definition ac_report :: "net_env \<Rightarrow> string \<Rightarrow> string \<Rightarrow> report_outcome" where
  "ac_report e event_type detail =
     (case (n_url e, n_key e) of
        (Some url, Some key) \<Rightarrow>
          if url = [] \<or> key = [] then NotConfigured
          else (case split_last (CHR '':'') (snprintf 256 url) of
            None \<Rightarrow> BadUrl
          | Some (host, port) \<Rightarrow>
              let client_id = ac_report_client_id (n_machine_id e) (n_gethostname e) 128;
                  body = report_body client_id event_type detail (n_time e)
              in (case ac_resolve_timeout (n_pieces e host port) AC_RESOLVE_MAX of
                    None \<Rightarrow> NotResolved
                  | Some addrs \<Rightarrow>
                      if addrs = [] then NotResolved
                      else if \<not> list_ex (usable_addr e) addrs then NotConnected
                      else let req = report_request host key body
                           in if 2048 \<le> length req then TooLarge
                              else (case send_loop (n_write e) (length req) 0 of
                                      None \<Rightarrow> SendFailed
                                    | Some sent \<Rightarrow>
                                        if sent \<noteq> length req then ShortWrite sent
                                        else Sent req (bad_response (n_response e)))))
      | _ \<Rightarrow> NotConfigured)"

subsection \<open>Reading JSON strings back\<close>

text \<open>The decoding of a JSON string literal up to its closing quote, as the receiver does it: no raw
  control characters, only the escapes the standard defines.\<close>

definition hex_digit_val :: "char \<Rightarrow> nat option" where
  "hex_digit_val c =
     (let n = of_char c
      in if 48 \<le> n \<and> n \<le> 57 then Some (n - 48)
         else if 97 \<le> n \<and> n \<le> 102 then Some (n - 87)
         else if 65 \<le> n \<and> n \<le> 70 then Some (n - 55) else None)"

fun hex_val :: "nat \<Rightarrow> string \<Rightarrow> nat option" where
  "hex_val a [] = Some a"
| "hex_val a (c # cs) = (case hex_digit_val c of None \<Rightarrow> None | Some d \<Rightarrow> hex_val (16 * a + d) cs)"

definition simple_escape :: "char \<Rightarrow> char option" where
  "simple_escape c =
     map_of [(QUOTE, QUOTE), (BACKSLASH, BACKSLASH), (CHR ''/'', CHR ''/''), (CHR ''n'', CHR 0x0A),
             (CHR ''r'', CHR 0x0D), (CHR ''t'', CHR 0x09), (CHR ''b'', CHR 0x08), (CHR ''f'', CHR 0x0C)] c"

abbreviation cons_fst :: "char \<Rightarrow> (string \<times> string) option \<Rightarrow> (string \<times> string) option" where
  "cons_fst c \<equiv> map_option (\<lambda>(s, r). (c # s, r))"

function json_unquote :: "string \<Rightarrow> (string \<times> string) option" where
  "json_unquote [] = None"
| "json_unquote (c # cs) =
     (if c = QUOTE then Some ([], cs)
      else if c = BACKSLASH then
        if cs = [] then None
        else if hd cs = CHR ''u'' then
          if length cs < 5 then None
          else (case hex_val 0 (take 4 (tl cs)) of
                  None \<Rightarrow> None
                | Some n \<Rightarrow> if 256 \<le> n then None else cons_fst (char_of n) (json_unquote (drop 5 cs)))
        else (case simple_escape (hd cs) of
                None \<Rightarrow> None
              | Some x \<Rightarrow> cons_fst x (json_unquote (tl cs)))
      else if of_char c < (32 :: nat) then None
      else cons_fst c (json_unquote cs))"
  by pat_completeness auto
termination by (relation "measure length") auto

definition expect :: "string \<Rightarrow> string \<Rightarrow> string option" where
  "expect p s = (if starts_with p s then Some (drop (length p) s) else None)"

definition read_field :: "string \<Rightarrow> string \<Rightarrow> (string \<times> string) option" where
  "read_field name s = expect (QUOTE # name @ [QUOTE, CHR '':'', QUOTE]) s \<bind> json_unquote"

definition read_report :: "string \<Rightarrow> (string \<times> string \<times> string \<times> int) option" where
  "read_report body =
     do { r0 \<leftarrow> expect ''{'' body;
          (client_id, r1) \<leftarrow> read_field ''client_id'' r0;
          s1 \<leftarrow> expect '','' r1;
          (event_type, r2) \<leftarrow> read_field ''event_type'' s1;
          s2 \<leftarrow> expect '','' r2;
          (detail, r3) \<leftarrow> read_field ''detail'' s2;
          s3 \<leftarrow> expect ('','' @ [QUOTE] @ ''ts'' @ [QUOTE, CHR '':'']) r3;
          let n = strtol s3;
          if sr_any n \<and> \<not> sr_range n \<and> sr_end n = ''}''
          then Some (client_id, event_type, detail, sr_val n) else None }"

subsection \<open>Escaping\<close>

lemma expect_append [simp]: "expect p (p @ s) = Some s"
  by (simp add: expect_def)

lemma hex4_bytes: "\<forall>n \<in> set [0..<32]. hex_val 0 (show_hex4 n) = Some n \<and> length (show_hex4 n) = 4"
  by code_simp

lemma length_escape_char: "0 < length (escape_char c)" "length (escape_char c) \<le> 6"
  using hex4_bytes by (auto simp: escape_char_def)

lemma json_unquote_escape_char:
  "json_unquote (escape_char c @ r) = cons_fst c (json_unquote r)"
proof -
  consider "c \<in> {QUOTE, BACKSLASH, CHR 0x0A, CHR 0x0D, CHR 0x09}"
    | "c \<notin> {QUOTE, BACKSLASH, CHR 0x0A, CHR 0x0D, CHR 0x09}" "of_char c < (32 :: nat)"
    | "c \<notin> {QUOTE, BACKSLASH, CHR 0x0A, CHR 0x0D, CHR 0x09}" "\<not> of_char c < (32 :: nat)" by blast
  then show ?thesis
  proof cases
    case 1
    then show ?thesis by (auto simp: escape_char_def simple_escape_def QUOTE_def BACKSLASH_def)
  next
    case 2
    then have "hex_val 0 (show_hex4 (of_char c)) = Some (of_char c)" "length (show_hex4 (of_char c)) = 4"
      using hex4_bytes by simp_all
    moreover have "escape_char c @ r = BACKSLASH # CHR ''u'' # show_hex4 (of_char c) @ r"
      using 2 by (simp add: escape_char_def)
    ultimately show ?thesis using 2(2) by (simp add: QUOTE_def BACKSLASH_def)
  next
    case 3
    then show ?thesis by (simp add: escape_char_def)
  qed
qed

definition escape_all :: "string \<Rightarrow> string" where
  "escape_all s = concat (map escape_char s)"

lemma json_unquote_escape_all: "json_unquote (escape_all s @ QUOTE # r) = Some (s, r)"
  by (induction s) (simp_all add: escape_all_def json_unquote_escape_char)

lemma escape_loop_eq:
  "\<exists>k \<le> length s. escape_loop n s out = out @ escape_all (take k s) \<and>
     (k = length s \<or> n \<le> length (escape_loop n s out) + 7)"
proof (induction s arbitrary: out)
  case Nil
  then show ?case by (simp add: escape_all_def)
next
  case (Cons c s)
  show ?case
  proof (cases "length out + 7 < n")
    case True
    from Cons.IH [of "out @ escape_char c"] obtain k where
      "k \<le> length s" "escape_loop n s (out @ escape_char c) = (out @ escape_char c) @ escape_all (take k s)"
      "k = length s \<or> n \<le> length (escape_loop n s (out @ escape_char c)) + 7" by blast
    with True show ?thesis by (intro exI [of _ "Suc k"]) (simp add: escape_all_def)
  next
    case False
    then show ?thesis by (intro exI [of _ 0]) (simp add: escape_all_def)
  qed
qed

lemma escape_loop_bound: "length out < n \<Longrightarrow> length (escape_loop n s out) < n"
proof (induction s arbitrary: out)
  case (Cons c s)
  then show ?case using length_escape_char(2) [of c] Cons.IH [of "out @ escape_char c"] by auto
qed simp

text \<open>What an escaped string is: all of the input that fits, never half an escape.\<close>

lemma ac_json_escape_prefix:
  assumes "0 < n"
  obtains k where "k \<le> length (cstr s)" "ac_json_escape s n = Some (escape_all (take k (cstr s)))"
    "k = length (cstr s) \<or> n \<le> length (escape_all (take k (cstr s))) + 7"
    "length (escape_all (take k (cstr s))) < n"
proof -
  from escape_loop_eq [of "cstr s" n "[]"] obtain k where
    "k \<le> length (cstr s)" "escape_loop n (cstr s) [] = escape_all (take k (cstr s))"
    "k = length (cstr s) \<or> n \<le> length (escape_loop n (cstr s) []) + 7" by auto
  then show thesis
    using assms escape_loop_bound [of "[]" n "cstr s"] that [of k] by (simp add: ac_json_escape_def)
qed

subsection \<open>The body\<close>

text \<open>Characters that stand for themselves in a JSON string.\<close>

definition plain_char :: "char \<Rightarrow> bool" where
  "plain_char c \<longleftrightarrow> c \<noteq> QUOTE \<and> c \<noteq> BACKSLASH \<and> 32 \<le> (of_char c :: nat)"

lemma escape_all_plain: "\<forall>c \<in> set s. plain_char c \<Longrightarrow> escape_all s = s"
  by (induction s) (auto simp: escape_all_def escape_char_def plain_char_def)

lemma read_field_json_field:
  "read_field name (json_field name (escape_all s) @ r) = Some (s, r)"
proof -
  have "json_field name (escape_all s) @ r
      = (QUOTE # name @ [QUOTE, CHR '':'', QUOTE]) @ escape_all s @ QUOTE # r"
    by (simp add: json_field_def)
  then show ?thesis
    unfolding read_field_def by (simp only: expect_append) (simp add: json_unquote_escape_all)
qed

lemma read_report_json:
  assumes "LONG_MIN \<le> ts" "ts \<le> LONG_MAX"
  shows "read_report (report_json (escape_all a) (escape_all b) (escape_all c) ts) = Some (a, b, c, ts)"
proof -
  let ?ts = "show_int ts @ ''}''" and ?key = "'','' @ [QUOTE] @ ''ts'' @ [QUOTE, CHR '':'']"
  have "strtol ?ts = \<lparr>sr_val = ts, sr_end = ''}'', sr_any = True, sr_range = False\<rparr>"
    by (rule strtol_show_int) (use assms in \<open>simp_all add: isdigit_def\<close>)
  moreover have "report_json (escape_all a) (escape_all b) (escape_all c) ts
      = ''{'' @ json_field ''client_id'' (escape_all a) @ '','' @ json_field ''event_type'' (escape_all b)
        @ '','' @ json_field ''detail'' (escape_all c) @ ?key @ ?ts"
    by (simp add: report_json_def)
  ultimately show ?thesis
    unfolding read_report_def by (simp only: expect_append read_field_json_field bind.bind_lunit prod.case) simp
qed

lemma length_show_int:
  assumes "LONG_MIN \<le> i" "i \<le> LONG_MAX"
  shows "length (show_int i) \<le> 20"
proof -
  have "nat i < 10 ^ 19" "nat (- i) < 10 ^ 19" using assms by (auto simp: ac_consts)
  then show ?thesis
    using length_show_nat [of "nat i" 19] length_show_nat [of "nat (- i)" 19] by (simp add: show_int_def)
qed

lemma length_report_json:
  "length (report_json a b c ts) = 50 + length a + length b + length c + length (show_int ts)"
  by (simp add: report_json_def json_field_def)

text \<open>The body is what was formatted, whatever the message: the buffers are large enough.\<close>

lemma report_body_eq:
  assumes "length client_id < 128" "LONG_MIN \<le> ts" "ts \<le> LONG_MAX"
  obtains j k where "j \<le> length (cstr et)" "k \<le> length (cstr detail)"
    "report_body client_id et detail ts
       = report_json client_id (escape_all (take j (cstr et))) (escape_all (take k (cstr detail))) ts"
    "length (report_body client_id et detail ts) < 1024"
    "j = length (cstr et) \<or> 57 \<le> length (escape_all (take j (cstr et)))"
    "k = length (cstr detail) \<or> 593 \<le> length (escape_all (take k (cstr detail)))"
proof -
  obtain j where j: "j \<le> length (cstr et)" "ac_json_escape et 64 = Some (escape_all (take j (cstr et)))"
    "j = length (cstr et) \<or> 64 \<le> length (escape_all (take j (cstr et))) + 7"
    "length (escape_all (take j (cstr et))) < 64"
    using ac_json_escape_prefix [of 64 et] by auto
  obtain k where k: "k \<le> length (cstr detail)"
    "ac_json_escape detail 600 = Some (escape_all (take k (cstr detail)))"
    "k = length (cstr detail) \<or> 600 \<le> length (escape_all (take k (cstr detail))) + 7"
    "length (escape_all (take k (cstr detail))) < 600"
    using ac_json_escape_prefix [of 600 detail] by auto
  let ?j = "report_json client_id (escape_all (take j (cstr et))) (escape_all (take k (cstr detail))) ts"
  have "length ?j < 1024"
    using assms(1) j(4) k(4) length_show_int [OF assms(2,3)] by (simp add: length_report_json)
  moreover from this have "report_body client_id et detail ts = ?j"
    unfolding report_body_def by (simp add: j(2) k(2) snprintf_def)
  ultimately show thesis using that [of j k] j k by auto
qed

lemma report_body_bound:
  assumes "length client_id < 128" "LONG_MIN \<le> ts" "ts \<le> LONG_MAX"
  shows "length (report_body client_id et detail ts) < 1024"
  by (rule report_body_eq [OF assms, of et detail])

subsection \<open>Sending\<close>

lemma send_loop_all:
  assumes "\<And>s n. 0 < n \<Longrightarrow> 0 < wr s n \<and> wr s n \<le> int n" "sent \<le> reqlen"
  shows "send_loop wr reqlen sent = Some reqlen"
  using assms(2)
proof (induction "reqlen - sent" arbitrary: sent rule: less_induct)
  case less
  show ?case
  proof (cases "sent < reqlen")
    case True
    let ?w = "wr sent (reqlen - sent)"
    have w: "0 < ?w" "?w \<le> int (reqlen - sent)" using assms(1) [of "reqlen - sent" sent] True by auto
    then have "send_loop wr reqlen (sent + nat ?w) = Some reqlen"
      by (intro less.hyps) (use True in linarith)+
    with w True show ?thesis by (simp add: send_loop.simps [of wr reqlen sent] Let_def)
  next
    case False
    with less.prems have "sent = reqlen" by simp
    then show ?thesis by (simp add: send_loop.simps [of wr reqlen reqlen])
  qed
qed

text \<open>How the receiver takes a request apart: header lines up to the empty line, then the body.\<close>

function http_split :: "string \<Rightarrow> (string list \<times> string) option" where
  "http_split s =
     (case memmem s CRLF of
        None \<Rightarrow> None
      | Some 0 \<Rightarrow> Some ([], drop 2 s)
      | Some (Suc i) \<Rightarrow> map_option (\<lambda>(ls, b). (take (Suc i) s # ls, b)) (http_split (drop (Suc i + 2) s)))"
  by pat_completeness auto
termination
proof (relation "measure length", simp, goal_cases)
  case (1 s x i)
  then have "Suc i \<le> length s" by (simp add: memmem_Some)
  then show ?case by simp
qed

declare http_split.simps [simp del]

lemma memmem_CRLF:
  assumes "CHR 0x0D \<notin> set l"
  shows "memmem (l @ CRLF @ r) CRLF = Some (length l)"
proof (rule memmem_append)
  fix i
  assume i: "i < length l"
  then have "drop i (l @ CRLF @ r) ! 0 = l ! i" by (simp add: nth_append)
  with assms i have "drop i (l @ CRLF @ r) ! 0 \<noteq> CHR 0x0D" by (metis nth_mem)
  then show "\<not> starts_with CRLF (drop i (l @ CRLF @ r))"
    by (auto simp: starts_with_iff CRLF_def)
qed

lemma http_split_lines:
  assumes "\<forall>l \<in> set ls. l \<noteq> [] \<and> CHR 0x0D \<notin> set l"
  shows "http_split (concat (map (\<lambda>l. l @ CRLF) ls) @ CRLF @ body) = Some (ls, body)"
  using assms
proof (induction ls)
  case Nil
  have "memmem (CRLF @ body) CRLF = Some 0" using memmem_CRLF [of "[]" body] by simp
  then show ?case by (simp add: http_split.simps [of "CRLF @ body"]) (simp add: CRLF_def)
next
  case (Cons l ls)
  let ?r = "concat (map (\<lambda>l. l @ CRLF) ls) @ CRLF @ body"
  have l: "memmem (l @ CRLF @ ?r) CRLF = Some (length l)" using Cons.prems by (intro memmem_CRLF) simp
  obtain n where n: "length l = Suc n" using Cons.prems by (cases l) auto
  have "drop (Suc n + 2) (l @ CRLF @ ?r) = ?r" using n by (simp add: CRLF_def)
  moreover have "take (Suc n) (l @ CRLF @ ?r) = l" using n by simp
  ultimately show ?case
    using l n Cons by (simp add: http_split.simps [of "l @ CRLF @ ?r"])
qed

definition request_headers :: "string \<Rightarrow> string \<Rightarrow> string \<Rightarrow> string list" where
  "request_headers host key body =
     [''POST /report HTTP/1.1'', ''Host: '' @ host, ''Authorization: Bearer '' @ key,
      ''Content-Type: application/json'', ''Content-Length: '' @ show_nat (length body),
      ''Connection: close'']"

lemma http_split_request:
  assumes "CHR 0x0D \<notin> set host" "CHR 0x0D \<notin> set key"
  shows "http_split (report_request host key body) = Some (request_headers host key body, body)"
proof -
  have "CHR 0x0D \<notin> set (show_nat (length body))"
    using show_nat_digits [of "length body"] by (auto simp: isdigit_def)
  then have "\<forall>l \<in> set (request_headers host key body). l \<noteq> [] \<and> CHR 0x0D \<notin> set l"
    using assms by (simp add: request_headers_def)
  from http_split_lines [OF this, of body] show ?thesis
    by (simp add: report_request_def request_headers_def)
qed

subsection \<open>Resolving\<close>

text \<open>The complete records in a sequence of bytes.\<close>

function records :: "nat \<Rightarrow> 'b list \<Rightarrow> 'b list list" where
  "records sz bs = (if 0 < sz \<and> sz \<le> length bs then take sz bs # records sz (drop sz bs) else [])"
  by pat_completeness auto
termination by (relation "measure (length \<circ> snd)") auto

declare records.simps [simp del]

text \<open>Pieces as \<open>read\<close> delivers them: never empty, never more than the room left in the record.\<close>

fun pieces_fit :: "nat \<Rightarrow> nat \<Rightarrow> (int \<times> 'b list) list \<Rightarrow> bool" where
  "pieces_fit sz have [] = True"
| "pieces_fit sz have ((ms, p) # ps) =
     (0 < ms \<and> p \<noteq> [] \<and> have + length p \<le> sz \<and>
      pieces_fit sz (if have + length p = sz then 0 else have + length p) ps)"

lemma resolve_loop_records:
  assumes "pieces_fit sz (length buf) ps" "length buf < sz"
  shows "resolve_loop sz mx ps buf out = out @ take (mx - length out) (records sz (buf @ concat (map snd ps)))"
  using assms
proof (induction ps arbitrary: buf out)
  case Nil
  then show ?case by (simp add: records.simps [of sz buf])
next
  case (Cons x ps)
  obtain ms p where x: "x = (ms, p)" by fastforce
  let ?b = "buf @ p" and ?rest = "concat (map snd ps)"
  have p: "0 < ms" "p \<noteq> []" "length ?b \<le> sz" "take (sz - length buf) p = p"
    using Cons.prems x by auto
  show ?case
  proof (cases "length out < mx")
    case False
    then show ?thesis by (simp add: x)
  next
    case room: True
    show ?thesis
    proof (cases "length ?b = sz")
      case True
      then have "pieces_fit sz (length []) ps" using Cons.prems x by simp
      from Cons.IH [OF this] True have
        "resolve_loop sz mx ps [] (out @ [?b]) = (out @ [?b]) @ take (mx - Suc (length out)) (records sz ?rest)"
        using Cons.prems(2) by simp
      moreover have "records sz (?b @ ?rest) = ?b # records sz ?rest"
        using True Cons.prems(2) by (subst records.simps) (simp add: True [symmetric])
      moreover have "mx - length out = Suc (mx - Suc (length out))" using room by simp
      ultimately show ?thesis using room p True by (simp add: x)
    next
      case False
      then have "pieces_fit sz (length ?b) ps" "length ?b < sz" using Cons.prems x p by auto
      from Cons.IH [OF this] show ?thesis using room p False by (simp add: x)
    qed
  qed
qed

subsection \<open>Properties\<close>

text \<open>Escaping for JSON: the output fits its buffer, and a receiver that decodes it gets a prefix
  of the input, which is all of it unless the output comes within seven bytes of the buffer's end.
  No quote or control character of the input can end or break the string.\<close>

theorem json_escape_roundtrip:
  assumes "0 < n" "NUL \<notin> set s"
  shows "\<exists>out k. ac_json_escape s n = Some out \<and> length out < n \<and> k \<le> length s \<and>
           json_unquote (out @ QUOTE # rest) = Some (take k s, rest) \<and>
           (k = length s \<or> n \<le> length out + 7)"
  using ac_json_escape_prefix [OF assms(1), of s] json_unquote_escape_all cstr_id [OF assms(2)] by metis

theorem json_escape_roundtrip_witness:
  "\<exists>out k. ac_json_escape [CHR ''a'', QUOTE, CHR 0x01] 16 = Some out \<and> length out < 16 \<and> k \<le> 3 \<and>
     json_unquote (out @ QUOTE # '','') = Some (take k [CHR ''a'', QUOTE, CHR 0x01], '','') \<and>
     (k = 3 \<or> 16 \<le> length out + 7)"
  using json_escape_roundtrip [of 16 "[CHR ''a'', QUOTE, CHR 0x01]" "'',''"]
  by (simp add: NUL_def QUOTE_def eval_nat_numeral)

text \<open>C33. Every report body is complete JSON: for a message of the log (at most 511 characters) and a
  client identifier of plain characters, the body fits its 1024 bytes and the server reads back the
  identifier, the event type, the time, and the message or as much of it as the escape buffer holds.\<close>

theorem report_body_roundtrip:
  assumes "length client_id < 128" "\<forall>c \<in> set client_id. plain_char c"
    "et = ''ALERT'' \<or> et = ''CRITICAL''" "NUL \<notin> set detail"
    "LONG_MIN \<le> ts" "ts \<le> LONG_MAX"
  shows "\<exists>k. read_report (report_body client_id et detail ts) = Some (client_id, et, take k detail, ts) \<and>
           length (report_body client_id et detail ts) < 1024 \<and>
           (k = length detail \<or> 593 \<le> length (escape_all (take k detail)))"
proof -
  obtain j k where jk: "j \<le> length (cstr et)"
    "report_body client_id et detail ts
       = report_json client_id (escape_all (take j (cstr et))) (escape_all (take k (cstr detail))) ts"
    "length (report_body client_id et detail ts) < 1024"
    "j = length (cstr et) \<or> 57 \<le> length (escape_all (take j (cstr et)))"
    "k = length (cstr detail) \<or> 593 \<le> length (escape_all (take k (cstr detail)))"
    using report_body_eq [OF assms(1,5,6), of et detail] by metis
  have et: "cstr et = et" "\<forall>c \<in> set et. plain_char c" "length et < 57"
    using assms(3) by (auto simp: cstr_def NUL_def plain_char_def QUOTE_def BACKSLASH_def)
  then have "escape_all (take j et) = take j et" by (intro escape_all_plain) (auto dest: in_set_takeD)
  with jk(1,4) et have "take j (cstr et) = et" by auto
  then show ?thesis
    using jk(2,3,5) read_report_json [OF assms(5,6), of client_id et "take k detail"]
      escape_all_plain [OF assms(2)] cstr_id [OF assms(4)] by auto
qed

theorem report_body_roundtrip_witness:
  "\<exists>k. read_report (report_body ''host'' ''ALERT'' [QUOTE] 7) = Some (''host'', ''ALERT'', take k [QUOTE], 7) \<and>
     length (report_body ''host'' ''ALERT'' [QUOTE] 7) < 1024 \<and>
     (k = 1 \<or> 593 \<le> length (escape_all (take k [QUOTE])))"
  using report_body_roundtrip [of "''host''" "''ALERT''" "[QUOTE]" 7]
  by (simp add: plain_char_def QUOTE_def BACKSLASH_def NUL_def ac_consts)

text \<open>C13. A report that counts as sent was configured, went out in full, and its framing is right:
  the receiver finds the six header lines, the announced length is the length of the body that
  follows, and a \<open>write\<close> that always makes progress always gets the whole request out.\<close>

theorem report_sent_faithful:
  assumes "ac_report e et detail = Sent req warned" "n_url e = Some url" "n_key e = Some key"
    "CHR 0x0D \<notin> set url" "CHR 0x0D \<notin> set key"
  shows "url \<noteq> [] \<and> key \<noteq> [] \<and> length req < 2048 \<and>
    (\<exists>host port body.
       snprintf 256 url = host @ '':'' @ port \<and> CHR '':'' \<notin> set port \<and>
       body = report_body (ac_report_client_id (n_machine_id e) (n_gethostname e) 128) et detail (n_time e) \<and>
       http_split req = Some (request_headers host key body, body) \<and>
       send_loop (n_write e) (length req) 0 = Some (length req))"
proof -
  obtain host port where hp: "split_last (CHR '':'') (snprintf 256 url) = Some (host, port)"
    using assms(1-3) by (auto simp: ac_report_def split: if_splits option.splits)
  let ?body = "report_body (ac_report_client_id (n_machine_id e) (n_gethostname e) 128) et detail (n_time e)"
  have req: "url \<noteq> []" "key \<noteq> []" "req = report_request host key ?body" "length req < 2048"
    "send_loop (n_write e) (length req) 0 = Some (length req)"
    using assms(1-3) hp by (auto simp: ac_report_def Let_def split: if_splits option.splits)
  have url: "snprintf 256 url = host @ '':'' @ port" "CHR '':'' \<notin> set port"
    using hp by (simp_all add: split_last_Some)
  then have "set host \<subseteq> set url" by (metis Un_upper1 order_trans set_append set_take_subset snprintf_def)
  then have "http_split req = Some (request_headers host key ?body, ?body)"
    using assms(4,5) req(3) by (auto intro: http_split_request)
  then show ?thesis using req url by blast
qed

definition demo_net :: net_env where
  "demo_net = \<lparr>n_url = Some ''h:80'', n_key = Some ''k'', n_machine_id = Some ''id'', n_gethostname = \<lambda>_. None,
     n_time = 5, n_pieces = \<lambda>_ _. Some [(3000, replicate 144 0)], n_socket = \<lambda>_. True,
     n_conn = \<lambda>_. \<lparr>c_getfl = True, c_setfl = True, c_connect = ConnDone, c_poll = \<lambda>_. 1, c_so_error = Some 0\<rparr>,
     n_write = \<lambda>_ n. int n, n_response = ''HTTP/1.1 201''\<rparr>"

lemma demo_net_sent:
  "\<exists>req. ac_report demo_net ''ALERT'' ''x'' = Sent req False"
proof -
  let ?body = "report_body (ac_report_client_id (Some ''id'') (\<lambda>_. None) 128) ''ALERT'' ''x'' 5"
  have "ac_report_client_id (Some ''id'') (\<lambda>_. None) 128 = ''id''" by code_simp
  then have "length ?body < 1024" by (simp add: report_body_bound ac_consts)
  moreover have "length (show_nat (length ?body)) \<le> 4"
    using calculation by (intro length_show_nat) auto
  ultimately have len: "length (report_request ''h'' ''k'' ?body) < 2048"
    by (simp add: report_request_def CRLF_def)
  have "send_loop (\<lambda>_ n. int n) (length (report_request ''h'' ''k'' ?body)) 0
      = Some (length (report_request ''h'' ''k'' ?body))"
    by (rule send_loop_all) auto
  moreover have "split_last (CHR '':'') (snprintf 256 ''h:80'') = Some (''h'', ''80'')" by code_simp
  moreover have "\<not> bad_response ''HTTP/1.1 201''" by code_simp
  moreover have "ac_resolve_timeout (Some [(3000, replicate 144 0)]) AC_RESOLVE_MAX = Some [replicate 144 0]"
    by (simp add: ac_resolve_timeout_def ac_consts)
  ultimately show ?thesis
    using len by (auto simp: ac_report_def demo_net_def usable_addr_def ac_connect_timeout_def Let_def)
qed

theorem report_sent_faithful_witness:
  "\<exists>req. ac_report demo_net ''ALERT'' ''x'' = Sent req False \<and> length req < 2048 \<and>
     (\<exists>hs body. http_split req = Some (hs, body) \<and> length hs = 6)"
proof -
  obtain req where "ac_report demo_net ''ALERT'' ''x'' = Sent req False" using demo_net_sent by blast
  with report_sent_faithful [OF this, of "''h:80''" "''k''"] show ?thesis
    by (auto simp: demo_net_def request_headers_def)
qed

end
