(* ===== verification/Daemon_Crosscheck.thy ===== *)
theory Daemon_Crosscheck
  imports Daemon_Device Daemon_Report
begin

text \<open>
  The search for hidden kernel modules: \<open>collect_proc_modules\<close> and \<open>crosscheck_modules\<close> of
  src/src/anticheat_daemon.c compare the module list the kernel module reads with /proc/modules.

  The contents of /proc/modules are an argument (None: it cannot be opened). The lemmas show that the
  reading loop ends, that it returns the names of a well-formed file, and that the count is the number
  of modules of the snapshot whose name is not in the file.
\<close>

definition AC_MAX_PROC_MODS :: nat where [ac_consts]: "AC_MAX_PROC_MODS = 4096"

text \<open>\<open>sscanf (line, "%63s", ...)\<close>\<close>

definition scan_name :: "string \<Rightarrow> string option" where
  "scan_name line =
     (let w = take 63 (takeWhile (\<lambda>c. \<not> isspace c) (dropWhile isspace line))
      in if w = [] then None else Some w)"

function collect_loop :: "nat \<Rightarrow> string list \<Rightarrow> string \<Rightarrow> string list" where
  "collect_loop cap names file =
     (case fgets 256 file of
        None \<Rightarrow> names
      | Some (line, rest) \<Rightarrow>
          if length names < cap
          then collect_loop cap (case scan_name (cstr line) of Some w \<Rightarrow> names @ [w] | None \<Rightarrow> names) rest
          else names)"
  by pat_completeness auto
termination by (relation "measure (\<lambda>(cap, names, file). length file)") (auto dest: fgets_Some(4))

declare collect_loop.simps [simp del]

definition collect_proc_modules :: "nat \<Rightarrow> string option \<Rightarrow> string list" where
  "collect_proc_modules cap file = (case file of None \<Rightarrow> [] | Some contents \<Rightarrow> collect_loop cap [] contents)"

text \<open>The line printed for a module.\<close>

definition module_line :: "string list \<Rightarrow> ac_mod_info \<Rightarrow> string" where
  "module_line names m =
     ''  '' @ pad_right 20 (mi_name m) @ '' size='' @ pad_right 10 (show_nat (unat (mi_size m)))
     @ '' state='' @ show_nat (unat (mi_state m)) @ '' ''
     @ (if mi_name m \<in> set names then [] else ''[HIDDEN FROM /proc/modules!]'') @ [CHR 0x0A]"

text \<open>The count of hidden modules (-1: the kernel's list could not be read) and what is printed.\<close>

definition crosscheck_modules :: "dsys \<Rightarrow> bool \<Rightarrow> string option \<Rightarrow> dev \<Rightarrow> (int \<times> string) \<times> dev" where
  "crosscheck_modules s verbose file d =
     (case mods_begin s d of
        (None, d1) \<Rightarrow> ((-1, []), d1)
      | (Some count, d1) \<Rightarrow>
          let names = collect_proc_modules AC_MAX_PROC_MODS file;
              (ms, d2) = get_loop (mods_get s) count 0 d1;
              hidden = length (filter (\<lambda>m. mi_name m \<notin> set names) ms);
              out = (if verbose
                     then show_nat count @ '' modules in kernel list:'' @ [CHR 0x0A]
                          @ concat (map (module_line names) ms)
                          @ ''hidden modules: '' @ show_nat hidden @ [CHR 0x0A]
                     else [])
          in ((int hidden, out), mods_end s d2))"

definition check_modules_periodic :: "dsys \<Rightarrow> bool \<Rightarrow> string option \<Rightarrow> dev \<Rightarrow> (int \<times> log_effect list) \<times> dev" where
  "check_modules_periodic s vb file d =
     (case crosscheck_modules s False file d of
        ((hidden, _), d') \<Rightarrow>
          ((hidden, if 0 < hidden
                    then logmsg vb LOG_CRIT (show_int hidden @ '' module(s) hidden from /proc/modules'')
                    else []), d'))"

subsection \<open>Reading a well-formed file\<close>

text \<open>The lines of /proc/modules: a name, a space and the rest of the line.\<close>

definition proc_line :: "string \<times> string \<Rightarrow> string" where
  "proc_line l = fst l @ CHR 0x20 # snd l @ [CHR 0x0A]"

definition proc_line_ok :: "string \<times> string \<Rightarrow> bool" where
  "proc_line_ok l \<longleftrightarrow> fst l \<noteq> [] \<and> length (fst l) \<le> 63 \<and> length (proc_line l) \<le> 255 \<and>
     (\<forall>c \<in> set (fst l). \<not> isspace c \<and> c \<noteq> NUL) \<and> CHR 0x0A \<notin> set (snd l) \<and> NUL \<notin> set (snd l)"

lemma fgets_proc_line:
  assumes "proc_line_ok l"
  shows "fgets 256 (proc_line l @ rest) = Some (proc_line l, rest)"
proof -
  let ?a = "fst l @ CHR 0x20 # snd l"
  have nl: "CHR 0x0A \<notin> set ?a" using assms by (auto simp: proc_line_ok_def isspace_def)
  have tw: "takeWhile (\<lambda>c. c \<noteq> CHR 0x0A) (proc_line l @ rest) = ?a"
    using nl by (auto simp: proc_line_def takeWhile_append takeWhile_eq_all_conv)
  have "min 255 (length ?a + 1) = length (proc_line l)"
    using assms by (simp add: proc_line_ok_def proc_line_def)
  then show ?thesis
    using tw by (simp add: fgets_def Let_def proc_line_def)
qed

lemma scan_name_proc_line:
  assumes "proc_line_ok l"
  shows "scan_name (cstr (proc_line l)) = Some (fst l)"
proof -
  have "NUL \<notin> set (proc_line l)"
    using assms by (auto simp: proc_line_def proc_line_ok_def NUL_def)
  then have "cstr (proc_line l) = proc_line l" by (simp add: cstr_id)
  moreover have "dropWhile isspace (proc_line l) = proc_line l"
    using assms by (cases "fst l") (auto simp: proc_line_def proc_line_ok_def)
  moreover have "takeWhile (\<lambda>c. \<not> isspace c) (proc_line l) = fst l"
    using assms by (auto simp: proc_line_def proc_line_ok_def takeWhile_append takeWhile_eq_all_conv isspace_def)
  ultimately show ?thesis using assms by (simp add: scan_name_def proc_line_ok_def Let_def)
qed

lemma collect_loop_lines:
  assumes "\<forall>l \<in> set ls. proc_line_ok l" "length names + length ls \<le> cap"
  shows "collect_loop cap names (concat (map proc_line ls)) = names @ map fst ls"
  using assms
proof (induction ls arbitrary: names)
  case Nil
  then show ?case by (simp add: collect_loop.simps fgets_def)
next
  case (Cons l ls)
  then show ?case
    by (simp add: collect_loop.simps [of cap names] fgets_proc_line scan_name_proc_line)
qed

lemma crosscheck_eq:
  assumes "privileged s" "k_alloc_fd (sys_call s (dv_calls d))" "k_alloc_snapshot (sys_call s (dv_calls d))"
  shows "fst (fst (crosscheck_modules s verbose pm d)) =
    int (length (filter (\<lambda>m. mi_name m \<notin> set (collect_proc_modules AC_MAX_PROC_MODS pm))
      (take 1024 (map mod_info_of (filter ac_module_sane (kmods (k_img (sys_call s (dv_calls d)))))))))"
proof -
  obtain d1 where d1: "mods_begin s d = (Some (length (file_mods (dv_file d1))), d1)"
    "file_mods (dv_file d1) =
      take 1024 (map mod_info_of (filter ac_module_sane (kmods (k_img (sys_call s (dv_calls d))))))"
    using mods_begin_eq [OF assms] by blast
  have "fst (get_loop (mods_get s) (length (file_mods (dv_file d1))) 0 d1) = file_mods (dv_file d1)"
    by (rule mod_session.get_loop_full [OF assms(1)])
  then show ?thesis
    by (simp add: crosscheck_modules_def d1 case_prod_beta Let_def)
qed

text \<open>A /proc/modules that cannot be opened makes every module count as hidden.\<close>

lemma unreadable_hides_all:
  assumes "privileged s" "k_alloc_fd (sys_call s (dv_calls d))" "k_alloc_snapshot (sys_call s (dv_calls d))"
  shows "fst (fst (crosscheck_modules s verbose None d)) =
    int (min 1024 (length (filter ac_module_sane (kmods (k_img (sys_call s (dv_calls d)))))))"
  by (simp add: crosscheck_eq [OF assms] collect_proc_modules_def min.commute)

subsection \<open>Properties\<close>

text \<open>C14. The hidden module count is exact: when /proc/modules has one well-formed line for each of its
  modules, the cross-check returns the number of modules among the first 1024 sane ones of the kernel's
  list whose name has no line, and the periodic check reports a detection exactly when there is one.\<close>

theorem hidden_modules_exact:
  assumes "privileged s" "k_alloc_fd (sys_call s (dv_calls d))" "k_alloc_snapshot (sys_call s (dv_calls d))"
    and "\<forall>l \<in> set ls. proc_line_ok l" "length ls \<le> 4096"
  shows "let ms = take 1024 (map mod_info_of (filter ac_module_sane (kmods (k_img (sys_call s (dv_calls d))))));
             missing = filter (\<lambda>m. mi_name m \<notin> fst ` set ls) ms;
             file = Some (concat (map proc_line ls))
         in fst (fst (crosscheck_modules s verbose file d)) = int (length missing) \<and>
            ((\<exists>t x. Report t x \<in> set (snd (fst (check_modules_periodic s vb file d)))) \<longleftrightarrow> missing \<noteq> [])"
proof -
  have names: "collect_proc_modules AC_MAX_PROC_MODS (Some (concat (map proc_line ls))) = map fst ls"
    using collect_loop_lines [OF assms(4), of "[]" 4096] assms(5)
    by (simp add: collect_proc_modules_def AC_MAX_PROC_MODS_def)
  note eq = crosscheck_eq [OF assms(1-3), where pm = "Some (concat (map proc_line ls))", unfolded names]
  have "(\<exists>t x. Report t x \<in> set (snd (fst (check_modules_periodic s vb (Some (concat (map proc_line ls))) d))))
      \<longleftrightarrow> 0 < fst (fst (crosscheck_modules s False (Some (concat (map proc_line ls))) d))"
    by (auto simp: check_modules_periodic_def logmsg_def Let_def LOG_CRIT_def LOG_ALERT_def split: prod.splits)
  then show ?thesis by (simp add: eq Let_def)
qed

text \<open>A kernel with two modules, one of them missing from the file.\<close>

definition demo_module :: "string \<Rightarrow> kmodule" where
  "demo_module name = \<lparr>km_name = name, km_state = MODULE_STATE_LIVE, km_text_base = 0x90000000,
     km_text_size = 0x1000, km_core_sizes = []\<rparr>"

definition hidden_call :: kcall where
  "hidden_call = demo_call\<lparr>k_img := demo_image\<lparr>kmods := [demo_module ''xor'', demo_module ''rk'']\<rparr>\<rparr>"

theorem hidden_modules_exact_witness:
  "fst (fst (crosscheck_modules (demo_sys hidden_call) True (Some (concat (map proc_line [(''xor'', ''24576 1'')]))) demo_dev)) = 1"
proof -
  have call: "k_capable hidden_call" "k_copy_out hidden_call" "k_alloc_fd hidden_call" "k_alloc_snapshot hidden_call"
    by (simp_all add: hidden_call_def demo_call_def)
  have "\<forall>l \<in> set [(''xor'', ''24576 1'')]. proc_line_ok l"
    by (simp add: proc_line_ok_def proc_line_def isspace_def NUL_def)
  from hidden_modules_exact [OF _ _ _ this, where s = "demo_sys hidden_call" and d = demo_dev and verbose = True] call
  have "fst (fst (crosscheck_modules (demo_sys hidden_call) True (Some (concat (map proc_line [(''xor'', ''24576 1'')]))) demo_dev))
    = int (length (filter (\<lambda>m. mi_name m \<noteq> ''xor'')
        (take 1024 (map mod_info_of (filter ac_module_sane (kmods (k_img hidden_call)))))))"
    by (simp add: Let_def)
  then show ?thesis
    by (simp add: hidden_call_def demo_module_def ac_module_sane_def mod_info_of_def AC_MOD_NAME_LEN_def
        strscpy_def cstr_def NUL_def)
qed

end
