(* ===== verification/Daemon_Tables.thy ===== *)
theory Daemon_Tables
  imports Task_Registry Daemon_Report
begin

text \<open>
  The four tables the daemon keeps between its monitoring cycles: \<open>g_anon_baseline\<close> (the number of
  anonymous executable mappings last seen of a process), \<open>g_preload_warned\<close> and
  \<open>g_vklayer_warned\<close> (processes already warned about), and \<open>g_implicit_layer_baseline\<close> (the number
  of unrecognised Vulkan layers last seen). Each is an array of \<open>AC_MAX_PROTS\<close> slots that forgets
  the processes that are no longer protected and is searched and filled by the same loop.

  Every table is an instance of the contract \<open>slot_map_retain\<close>; the properties say that a cycle
  over the list of protected processes never runs out of slots, that growth is reported exactly
  when a count rises above the last one seen, and that a process is warned about once.
\<close>

subsection \<open>The list of protected processes\<close>

definition listed_pids :: "ac_prot_list \<Rightarrow> int list" where
  "listed_pids pl = map pi_pid (take (pl_count pl) (pl_items pl))"

subsection \<open>Anonymous executable mappings\<close>

record ac_anon_baseline =
  ab_pid :: int
  ab_count :: nat
  ab_in_use :: bool

definition anon_baseline_init :: "ac_anon_baseline list" where
  "anon_baseline_init = replicate AC_MAX_PROTS \<lparr>ab_pid = 0, ab_count = 0, ab_in_use = False\<rparr>"

definition anon_baseline_forget_stale :: "ac_prot_list \<Rightarrow> ac_anon_baseline list \<Rightarrow> ac_anon_baseline list" where
  "anon_baseline_forget_stale pl t =
     map (\<lambda>e. if ab_in_use e \<and> ab_pid e \<notin> set (listed_pids pl) then e\<lparr>ab_in_use := False\<rparr> else e) t"

definition growth_text :: "int \<Rightarrow> string \<Rightarrow> nat \<Rightarrow> nat \<Rightarrow> string \<Rightarrow> string" where
  "growth_text pid comm old count verdict =
     ''pid '' @ show_int pid @ '' ('' @ comm @ ''): '' @ show_nat (count - old)
     @ '' new anonymous executable mapping(s) since first observed (was ''
     @ show_nat old @ '', now '' @ show_nat count @ '') -- '' @ verdict"

definition anon_growth_log :: "bool \<Rightarrow> int \<Rightarrow> string \<Rightarrow> nat \<Rightarrow> nat \<Rightarrow> bool \<Rightarrow> log_effect list" where
  "anon_growth_log vb pid comm old count jit_allowed =
     (if old < count
      then if jit_allowed
           then logmsg vb LOG_WARNING (growth_text pid comm old count
                  ''expected for a JIT-marked process, not auto-reported'')
           else logmsg vb LOG_CRIT (growth_text pid comm old count
                  ''possible code injection after process start'')
      else [])"

definition anon_baseline_check ::
  "bool \<Rightarrow> int \<Rightarrow> string \<Rightarrow> nat \<Rightarrow> bool \<Rightarrow> ac_anon_baseline list \<Rightarrow> ac_anon_baseline list \<times> log_effect list"
where
  "anon_baseline_check vb pid comm count jit_allowed t =
     (case slot_scan (\<lambda>e. ab_in_use e \<and> ab_pid e = pid) (\<lambda>e. \<not> ab_in_use e) 0 None t of
        Hit i \<Rightarrow> (t[i := (t ! i)\<lparr>ab_count := count\<rparr>],
                 anon_growth_log vb pid comm (ab_count (t ! i)) count jit_allowed)
      | Miss None \<Rightarrow> (t, [])
      | Miss (Some i) \<Rightarrow> (t[i := \<lparr>ab_pid = pid, ab_count = count, ab_in_use = True\<rparr>], []))"

subsection \<open>Processes warned about\<close>

record ac_preload_warned =
  pw_pid :: int
  pw_in_use :: bool

definition preload_warned_init :: "ac_preload_warned list" where
  "preload_warned_init = replicate AC_MAX_PROTS \<lparr>pw_pid = 0, pw_in_use = False\<rparr>"

definition preload_warned_forget_stale ::
  "ac_prot_list \<Rightarrow> ac_preload_warned list \<Rightarrow> ac_preload_warned list"
where
  "preload_warned_forget_stale pl t =
     map (\<lambda>e. if pw_in_use e \<and> pw_pid e \<notin> set (listed_pids pl) then e\<lparr>pw_in_use := False\<rparr> else e) t"

definition preload_already_warned :: "int \<Rightarrow> ac_preload_warned list \<Rightarrow> bool" where
  "preload_already_warned pid t = list_ex (\<lambda>e. pw_in_use e \<and> pw_pid e = pid) t"

definition preload_mark_warned :: "int \<Rightarrow> ac_preload_warned list \<Rightarrow> ac_preload_warned list" where
  "preload_mark_warned pid t =
     (case slot_scan (\<lambda>e. pw_in_use e \<and> pw_pid e = pid) (\<lambda>e. \<not> pw_in_use e) 0 None t of
        Hit i \<Rightarrow> t
      | Miss None \<Rightarrow> t
      | Miss (Some i) \<Rightarrow> t[i := \<lparr>pw_pid = pid, pw_in_use = True\<rparr>])"

record ac_vklayer_warned =
  vw_pid :: int
  vw_in_use :: bool

definition vklayer_warned_init :: "ac_vklayer_warned list" where
  "vklayer_warned_init = replicate AC_MAX_PROTS \<lparr>vw_pid = 0, vw_in_use = False\<rparr>"

definition vklayer_warned_forget_stale ::
  "ac_prot_list \<Rightarrow> ac_vklayer_warned list \<Rightarrow> ac_vklayer_warned list"
where
  "vklayer_warned_forget_stale pl t =
     map (\<lambda>e. if vw_in_use e \<and> vw_pid e \<notin> set (listed_pids pl) then e\<lparr>vw_in_use := False\<rparr> else e) t"

definition vklayer_already_warned :: "int \<Rightarrow> ac_vklayer_warned list \<Rightarrow> bool" where
  "vklayer_already_warned pid t = list_ex (\<lambda>e. vw_in_use e \<and> vw_pid e = pid) t"

definition vklayer_mark_warned :: "int \<Rightarrow> ac_vklayer_warned list \<Rightarrow> ac_vklayer_warned list" where
  "vklayer_mark_warned pid t =
     (case slot_scan (\<lambda>e. vw_in_use e \<and> vw_pid e = pid) (\<lambda>e. \<not> vw_in_use e) 0 None t of
        Hit i \<Rightarrow> t
      | Miss None \<Rightarrow> t
      | Miss (Some i) \<Rightarrow> t[i := \<lparr>vw_pid = pid, vw_in_use = True\<rparr>])"

subsection \<open>Unrecognised Vulkan layers\<close>

record ac_implicit_layer_baseline =
  il_pid :: int
  il_count :: nat
  il_in_use :: bool

definition implicit_layer_baseline_init :: "ac_implicit_layer_baseline list" where
  "implicit_layer_baseline_init = replicate AC_MAX_PROTS \<lparr>il_pid = 0, il_count = 0, il_in_use = False\<rparr>"

definition implicit_layer_baseline_forget_stale ::
  "ac_prot_list \<Rightarrow> ac_implicit_layer_baseline list \<Rightarrow> ac_implicit_layer_baseline list"
where
  "implicit_layer_baseline_forget_stale pl t =
     map (\<lambda>e. if il_in_use e \<and> il_pid e \<notin> set (listed_pids pl) then e\<lparr>il_in_use := False\<rparr> else e) t"

definition layers_text :: "int \<Rightarrow> string \<Rightarrow> nat \<Rightarrow> string \<Rightarrow> string" where
  "layers_text pid comm unknown names =
     ''pid '' @ show_int pid @ '' ('' @ comm @ ''): '' @ show_nat unknown
     @ '' unrecognized implicit Vulkan layer(s) active ('' @ names
     @ '') -- not in the known-overlay allowlist; informational only, not a verdict on its own''"

text \<open>The second half of the loop body of \<open>check_implicit_layers_periodic\<close>.\<close>

definition implicit_layer_check ::
  "bool \<Rightarrow> int \<Rightarrow> string \<Rightarrow> nat \<Rightarrow> string \<Rightarrow> ac_implicit_layer_baseline list \<Rightarrow>
     ac_implicit_layer_baseline list \<times> log_effect list"
where
  "implicit_layer_check vb pid comm unknown names t =
     (case slot_scan (\<lambda>e. il_in_use e \<and> il_pid e = pid) (\<lambda>e. \<not> il_in_use e) 0 None t of
        Hit i \<Rightarrow> (t[i := (t ! i)\<lparr>il_count := unknown\<rparr>],
                 if il_count (t ! i) < unknown
                 then logmsg vb LOG_WARNING (layers_text pid comm unknown names) else [])
      | Miss None \<Rightarrow> (t, [])
      | Miss (Some i) \<Rightarrow> (t[i := \<lparr>il_pid = pid, il_count = unknown, il_in_use = True\<rparr>], []))"

subsection \<open>The tables as maps\<close>

definition anon_map :: "ac_anon_baseline list \<Rightarrow> int \<Rightarrow> nat option" where
  "anon_map = slot_lookup ab_in_use ab_pid ab_count"

definition anon_inv :: "ac_anon_baseline list \<Rightarrow> bool" where
  "anon_inv t \<longleftrightarrow> length t = AC_MAX_PROTS \<and> slots_wf ab_in_use ab_pid t"

definition preload_map :: "ac_preload_warned list \<Rightarrow> int \<Rightarrow> unit option" where
  "preload_map = slot_lookup pw_in_use pw_pid (\<lambda>_. ())"

definition preload_inv :: "ac_preload_warned list \<Rightarrow> bool" where
  "preload_inv t \<longleftrightarrow> length t = AC_MAX_PROTS \<and> slots_wf pw_in_use pw_pid t"

definition vklayer_map :: "ac_vklayer_warned list \<Rightarrow> int \<Rightarrow> unit option" where
  "vklayer_map = slot_lookup vw_in_use vw_pid (\<lambda>_. ())"

definition vklayer_inv :: "ac_vklayer_warned list \<Rightarrow> bool" where
  "vklayer_inv t \<longleftrightarrow> length t = AC_MAX_PROTS \<and> slots_wf vw_in_use vw_pid t"

definition implicit_map :: "ac_implicit_layer_baseline list \<Rightarrow> int \<Rightarrow> nat option" where
  "implicit_map = slot_lookup il_in_use il_pid il_count"

definition implicit_inv :: "ac_implicit_layer_baseline list \<Rightarrow> bool" where
  "implicit_inv t \<longleftrightarrow> length t = AC_MAX_PROTS \<and> slots_wf il_in_use il_pid t"

lemma anon_baseline_check_put:
  "fst (anon_baseline_check vb pid comm count jit t) =
     slot_put ab_in_use ab_pid (\<lambda>e. e\<lparr>ab_count := count\<rparr>)
       (\<lambda>_. \<lparr>ab_pid = pid, ab_count = count, ab_in_use = True\<rparr>) pid t"
  by (simp add: anon_baseline_check_def slot_put_def split: slot_hit.split option.split)

lemma preload_mark_warned_put:
  "preload_mark_warned pid t =
     slot_put pw_in_use pw_pid (\<lambda>e. e) (\<lambda>_. \<lparr>pw_pid = pid, pw_in_use = True\<rparr>) pid t"
  by (simp add: preload_mark_warned_def slot_put_def split: slot_hit.split option.split)

lemma vklayer_mark_warned_put:
  "vklayer_mark_warned pid t =
     slot_put vw_in_use vw_pid (\<lambda>e. e) (\<lambda>_. \<lparr>vw_pid = pid, vw_in_use = True\<rparr>) pid t"
  by (simp add: vklayer_mark_warned_def slot_put_def split: slot_hit.split option.split)

lemma implicit_layer_check_put:
  "fst (implicit_layer_check vb pid comm unknown names t) =
     slot_put il_in_use il_pid (\<lambda>e. e\<lparr>il_count := unknown\<rparr>)
       (\<lambda>_. \<lparr>il_pid = pid, il_count = unknown, il_in_use = True\<rparr>) pid t"
  by (simp add: implicit_layer_check_def slot_put_def split: slot_hit.split option.split)

text \<open>The laws of \<open>slot_map_retain\<close> for any table written by \<open>slot_put\<close> and cleaned by clearing the
  flag of the slots whose key is not listed.\<close>

lemma slot_table_retain:
  assumes inv: "\<And>t. ok t \<longleftrightarrow> length t = cap \<and> slots_wf used key t"
    and put: "\<And>k v t. put k v t = slot_put used key (upd v) (fresh k v) k t"
    and upd: "\<And>e v. used e \<Longrightarrow> used (upd v e) \<and> key (upd v e) = key e \<and> val (upd v e) = v"
    and fresh: "\<And>e k v. used (fresh k v e) \<and> key (fresh k v e) = k \<and> val (fresh k v e) = v"
    and retain: "\<And>r t. retain r t = map (\<lambda>e. if used e \<and> key e \<notin> set (keys r) then clear e else e) t"
    and clear: "\<And>e. \<not> used (clear e) \<and> key (clear e) = key e \<and> val (clear e) = val e"
  shows "slot_map_retain (slot_lookup used key val) put (slots_free used) (\<lambda>_. True) ok cap retain keys"
proof (unfold_locales, goal_cases)
  case (1 s k v)
  then show ?case
    using slot_put_cases(1) [of used key s k "upd v" val v "fresh k v"] upd fresh by (simp add: inv put)
next
  case (2 s k v)
  then show ?case
    unfolding put
    by (intro slot_put_cases(2)) (use upd fresh in \<open>auto simp: inv\<close>)
next
  case (3 s k v)
  then show ?case
    unfolding put
    by (intro slot_put_cases(3) [where v = v]) (use upd fresh in \<open>auto simp: inv\<close>)
next
  case (4 s)
  then show ?case
    using slots_wf_card [of used key s val] by (simp add: inv slot_lookup_dom)
next
  case (5 s r)
  then show ?case
    using slot_map_filter(1) [of used key s "\<lambda>e. if used e \<and> key e \<notin> set (keys r) then clear e else e"
        "\<lambda>k. k \<in> set (keys r)" val] clear by (simp add: inv retain)
next
  case (6 s r)
  then show ?case
    using slot_map_filter(2) [of used key s "\<lambda>e. if used e \<and> key e \<notin> set (keys r) then clear e else e"
        "\<lambda>k. k \<in> set (keys r)" val] clear by (simp add: inv retain)
qed

interpretation anon: slot_map_retain anon_map "\<lambda>pid count t. fst (anon_baseline_check vb pid (comm pid) count (jit pid) t)"
    "slots_free ab_in_use" "\<lambda>_. True" anon_inv AC_MAX_PROTS anon_baseline_forget_stale listed_pids
  for vb comm jit
  unfolding anon_map_def
  by (rule slot_table_retain [where upd = "\<lambda>v e. e\<lparr>ab_count := v\<rparr>" and clear = "\<lambda>e. e\<lparr>ab_in_use := False\<rparr>"
        and fresh = "\<lambda>k v _. \<lparr>ab_pid = k, ab_count = v, ab_in_use = True\<rparr>" and key = ab_pid])
    (simp_all add: anon_inv_def anon_baseline_check_put anon_baseline_forget_stale_def)

interpretation pre: slot_map_retain preload_map "\<lambda>pid _ t. preload_mark_warned pid t"
    "slots_free pw_in_use" "\<lambda>_. True" preload_inv AC_MAX_PROTS preload_warned_forget_stale listed_pids
  unfolding preload_map_def
  by (rule slot_table_retain [where upd = "\<lambda>v e. e" and clear = "\<lambda>e. e\<lparr>pw_in_use := False\<rparr>"
        and fresh = "\<lambda>k v _. \<lparr>pw_pid = k, pw_in_use = True\<rparr>" and key = pw_pid])
    (simp_all add: preload_inv_def preload_mark_warned_put preload_warned_forget_stale_def)

interpretation vkl: slot_map_retain vklayer_map "\<lambda>pid _ t. vklayer_mark_warned pid t"
    "slots_free vw_in_use" "\<lambda>_. True" vklayer_inv AC_MAX_PROTS vklayer_warned_forget_stale listed_pids
  unfolding vklayer_map_def
  by (rule slot_table_retain [where upd = "\<lambda>v e. e" and clear = "\<lambda>e. e\<lparr>vw_in_use := False\<rparr>"
        and fresh = "\<lambda>k v _. \<lparr>vw_pid = k, vw_in_use = True\<rparr>" and key = vw_pid])
    (simp_all add: vklayer_inv_def vklayer_mark_warned_put vklayer_warned_forget_stale_def)

interpretation impl: slot_map_retain implicit_map
    "\<lambda>pid n t. fst (implicit_layer_check vb pid (comm pid) n (names pid) t)"
    "slots_free il_in_use" "\<lambda>_. True" implicit_inv AC_MAX_PROTS implicit_layer_baseline_forget_stale listed_pids
  for vb comm names
  unfolding implicit_map_def
  by (rule slot_table_retain [where upd = "\<lambda>v e. e\<lparr>il_count := v\<rparr>" and clear = "\<lambda>e. e\<lparr>il_in_use := False\<rparr>"
        and fresh = "\<lambda>k v _. \<lparr>il_pid = k, il_count = v, il_in_use = True\<rparr>" and key = il_pid])
    (simp_all add: implicit_inv_def implicit_layer_check_put implicit_layer_baseline_forget_stale_def)

lemma tables_init_ok:
  "anon_inv anon_baseline_init" "preload_inv preload_warned_init" "vklayer_inv vklayer_warned_init"
  "implicit_inv implicit_layer_baseline_init"
  by (auto simp: anon_inv_def preload_inv_def vklayer_inv_def implicit_inv_def anon_baseline_init_def
      preload_warned_init_def vklayer_warned_init_def implicit_layer_baseline_init_def intro: slots_wf_unused)

subsection \<open>What the tables report\<close>

lemma slot_scan_lookup:
  assumes "slots_wf used key es"
  shows "slot_scan (\<lambda>e. used e \<and> key e = k) f 0 None es = Hit i \<Longrightarrow>
           slot_lookup used key val es k = Some (val (es ! i))"
    and "slot_scan (\<lambda>e. used e \<and> key e = k) f 0 None es = Miss m \<Longrightarrow> slot_lookup used key val es k = None"
proof -
  assume "slot_scan (\<lambda>e. used e \<and> key e = k) f 0 None es = Hit i"
  then show "slot_lookup used key val es k = Some (val (es ! i))"
    using slot_scan_Hit [of _ f es i] slot_lookup_Some [OF assms, of val k "val (es ! i)"] by blast
next
  assume "slot_scan (\<lambda>e. used e \<and> key e = k) f 0 None es = Miss m"
  then show "slot_lookup used key val es k = None"
    using slot_scan_Miss(1) by (fastforce simp: slot_lookup_None)
qed

lemma anon_check_log:
  assumes "anon_inv t"
  shows "snd (anon_baseline_check vb pid comm count jit t) =
    (case anon_map t pid of None \<Rightarrow> [] | Some old \<Rightarrow> anon_growth_log vb pid comm old count jit)"
  using assms slot_scan_lookup [of ab_in_use ab_pid t pid _ _ ab_count]
  by (auto simp: anon_baseline_check_def anon_map_def anon_inv_def split: slot_hit.split option.split)

lemma implicit_check_log:
  assumes "implicit_inv t"
  shows "snd (implicit_layer_check vb pid comm unknown names t) =
    (case implicit_map t pid of
       None \<Rightarrow> []
     | Some old \<Rightarrow> if old < unknown then logmsg vb LOG_WARNING (layers_text pid comm unknown names) else [])"
  using assms slot_scan_lookup [of il_in_use il_pid t pid _ _ il_count]
  by (auto simp: implicit_layer_check_def implicit_map_def implicit_inv_def split: slot_hit.split option.split)

lemma preload_already_warned_map: "preload_already_warned pid t \<longleftrightarrow> preload_map t pid \<noteq> None"
  by (auto simp: preload_already_warned_def preload_map_def slot_lookup_None list_ex_iff)

lemma vklayer_already_warned_map: "vklayer_already_warned pid t \<longleftrightarrow> vklayer_map t pid \<noteq> None"
  by (auto simp: vklayer_already_warned_def vklayer_map_def slot_lookup_None list_ex_iff)

text \<open>A detection leaves the daemon as a report exactly when its priority is critical or higher.\<close>

definition reports_of :: "log_effect list \<Rightarrow> (string \<times> string) list" where
  "reports_of effs = concat (map (\<lambda>e. case e of Report ty d \<Rightarrow> [(ty, d)] | _ \<Rightarrow> []) effs)"

lemma reports_of_append [simp]: "reports_of (a @ b) = reports_of a @ reports_of b" "reports_of [] = []"
  by (simp_all add: reports_of_def)

lemma reports_of_concat: "reports_of (concat ls) = concat (map reports_of ls)"
  by (induction ls) simp_all

lemma reports_of_logmsg:
  "reports_of (logmsg vb pri msg) =
     (if pri \<le> LOG_CRIT then [(if pri \<le> LOG_ALERT then ''ALERT'' else ''CRITICAL'', snprintf 512 msg)] else [])"
  by (simp add: logmsg_def reports_of_def Let_def)

lemma reports_of_growth:
  "reports_of (anon_growth_log vb pid comm old count jit) =
     (if old < count \<and> \<not> jit
      then [(''CRITICAL'', snprintf 512 (growth_text pid comm old count ''possible code injection after process start''))]
      else [])"
  by (simp add: anon_growth_log_def reports_of_logmsg ac_consts)

text \<open>The scans of one cycle: the process identifiers with what the kernel counted for them.\<close>

fun anon_checks :: "bool \<Rightarrow> (int \<times> string \<times> nat \<times> bool) list \<Rightarrow> ac_anon_baseline list \<Rightarrow>
    ac_anon_baseline list \<times> log_effect list" where
  "anon_checks vb [] t = (t, [])"
| "anon_checks vb ((pid, comm, count, jit) # xs) t =
     (let (t1, l1) = anon_baseline_check vb pid comm count jit t;
          (t2, l2) = anon_checks vb xs t1
      in (t2, l1 @ l2))"

lemma anon_put:
  assumes "anon_inv t"
  shows "anon_inv (fst (anon_baseline_check vb pid comm count jit t))"
    and "anon_map t pid \<noteq> None \<or> 0 < slots_free ab_in_use t \<Longrightarrow>
      anon_map (fst (anon_baseline_check vb pid comm count jit t)) = (anon_map t)(pid \<mapsto> count)"
  using anon.invar_put [OF assms TrueI, where k = pid and v = count and vb = vb and comm = "\<lambda>_. comm" and jit = "\<lambda>_. jit"]
    anon.lookup_put [OF assms TrueI, where k = pid and v = count and vb = vb and comm = "\<lambda>_. comm" and jit = "\<lambda>_. jit"]
  by auto

lemma anon_checks_tracks:
  assumes "anon_inv t" "finite K" "dom (anon_map t) \<subseteq> K" "fst ` set xs \<subseteq> K" "card K \<le> AC_MAX_PROTS"
    "distinct (map fst xs)"
  shows "anon_inv (fst (anon_checks vb xs t)) \<and>
    anon_map (fst (anon_checks vb xs t)) = anon_map t ++ map_of (map (\<lambda>(p, c, n, j). (p, n)) xs) \<and>
    snd (anon_checks vb xs t) =
      concat (map (\<lambda>(p, c, n, j). case anon_map t p of None \<Rightarrow> [] | Some old \<Rightarrow> anon_growth_log vb p c old n j) xs)"
  using assms
proof (induction xs arbitrary: t)
  case Nil
  then show ?case by simp
next
  case (Cons x xs)
  obtain pid comm n jit where x: "x = (pid, comm, n, jit)" by (rule prod_cases4)
  let ?t = "fst (anon_baseline_check vb pid comm n jit t)"
  have "insert pid (dom (anon_map t)) \<subseteq> K" using Cons.prems(3,4) x by simp
  then have "card (insert pid (dom (anon_map t))) \<le> AC_MAX_PROTS"
    using card_mono [OF Cons.prems(2), of "insert pid (dom (anon_map t))"] Cons.prems(5) by linarith
  then have room: "anon_map t pid \<noteq> None \<or> 0 < slots_free ab_in_use t"
    by (rule anon.room_for_new [OF Cons.prems(1)])
  have map1: "anon_map ?t = (anon_map t)(pid \<mapsto> n)" and inv1: "anon_inv ?t"
    using anon_put [OF Cons.prems(1)] room by auto
  have "dom (anon_map ?t) = insert pid (dom (anon_map t))" unfolding map1 by auto
  then have dom1: "dom (anon_map ?t) \<subseteq> K" using Cons.prems(3,4) x by simp
  have IH: "anon_inv (fst (anon_checks vb xs ?t)) \<and>
    anon_map (fst (anon_checks vb xs ?t)) = anon_map ?t ++ map_of (map (\<lambda>(p, c, n, j). (p, n)) xs) \<and>
    snd (anon_checks vb xs ?t) =
      concat (map (\<lambda>(p, c, n, j). case anon_map ?t p of None \<Rightarrow> [] | Some old \<Rightarrow> anon_growth_log vb p c old n j) xs)"
    by (rule Cons.IH) (use Cons.prems x inv1 dom1 in simp_all)
  have new: "pid \<notin> fst ` set xs" using Cons.prems(6) x by simp
  have same: "map (\<lambda>(p, c, n, j). case anon_map ?t p of None \<Rightarrow> [] | Some old \<Rightarrow> anon_growth_log vb p c old n j) xs
    = map (\<lambda>(p, c, n, j). case anon_map t p of None \<Rightarrow> [] | Some old \<Rightarrow> anon_growth_log vb p c old n j) xs"
    by (rule map_cong [OF refl]) (use new map1 in \<open>force split: option.split\<close>)
  have "map_of (map (\<lambda>(p, c, n, j). (p, n)) xs) pid = None"
    using new by (force simp: map_of_eq_None_iff)
  then have maps: "anon_map ?t ++ map_of (map (\<lambda>(p, c, n, j). (p, n)) xs)
      = anon_map t ++ map_of (map (\<lambda>(p, c, n, j). (p, n)) (x # xs))"
    using map1 x by (auto simp: map_add_def fun_eq_iff split: option.split)
  have step: "anon_checks vb (x # xs) t = (fst (anon_checks vb xs ?t),
      snd (anon_baseline_check vb pid comm n jit t) @ snd (anon_checks vb xs ?t))"
    by (simp add: x case_prod_beta Let_def)
  show ?case
    unfolding step fst_conv snd_conv
  proof (intro conjI)
    show "anon_map (fst (anon_checks vb xs ?t)) = anon_map t ++ map_of (map (\<lambda>(p, c, n, j). (p, n)) (x # xs))"
      using IH maps by (simp only:)
  qed (use IH same anon_check_log [OF Cons.prems(1)] in \<open>simp_all add: x\<close>)
qed

end
