(* ===== verification/Daemon_Environ.thy ===== *)
theory Daemon_Environ
  imports Daemon_Tables
begin

text \<open>
  The environment checks of the daemon: reading \<open>/proc/<pid>/environ\<close> in pieces and looking up
  several variables in one pass (\<open>ac_read_environ_vars\<close>), the \<open>LD_PRELOAD\<close> and Vulkan layer checks
  built on it, in their command-line and periodic forms, and the interval settings read from the
  daemon's own environment (\<open>ac_env_interval\<close>).

  The lemmas show that the lookup finds exactly the first entry of each name, whatever the pieces
  the kernel hands out, that an environment too large for the buffer is never reported as
  conclusive, and that a process that stays protected is warned about at most once.
\<close>

subsection \<open>Reading the environment of a process\<close>

definition AC_ENVIRON_BUF :: nat where [ac_consts]: "AC_ENVIRON_BUF = 256 * 1024"
definition AC_ENVIRON_VAL_LEN :: nat where [ac_consts]: "AC_ENVIRON_VAL_LEN = 512"

record ac_environ_query =
  eq_name :: string
  eq_value :: string
  eq_found :: bool

text \<open>The results of the successive \<open>read\<close> calls: None is an error, an empty piece or the end of the
  list is the end of the file.\<close>

fun environ_read :: "nat \<Rightarrow> string \<Rightarrow> string option list \<Rightarrow> string option" where
  "environ_read cap buf rs =
     (if length buf < cap then
        (case rs of
           [] \<Rightarrow> Some buf
         | None # _ \<Rightarrow> None
         | Some s # rs' \<Rightarrow>
             if s = [] then Some buf else environ_read cap (buf @ take (cap - length buf) s) rs')
      else Some buf)"

declare environ_read.simps [simp del]

definition match_var :: "string \<Rightarrow> ac_environ_query \<Rightarrow> ac_environ_query" where
  "match_var entry q =
     (let nlen = length (eq_name q)
      in if \<not> eq_found q \<and> nlen < length entry \<and> strncmp_eq entry (eq_name q) nlen \<and> entry ! nlen = CHR ''=''
         then q\<lparr>eq_value := snprintf AC_ENVIRON_VAL_LEN (drop (nlen + 1) entry), eq_found := True\<rparr> else q)"

function environ_loop :: "string \<Rightarrow> ac_environ_query list \<Rightarrow> ac_environ_query list" where
  "environ_loop buf vars =
     (if buf = [] then vars
      else let entry = cstr buf
           in if entry = [] then vars
              else environ_loop (drop (length entry + 1) buf) (map (match_var entry) vars))"
  by pat_completeness auto
termination by (relation "measure (length \<circ> fst)") auto

declare environ_loop.simps [simp del]

text \<open>None stands for a file that cannot be opened, or no memory for the buffer.\<close>

definition ac_read_environ_vars ::
  "string option list option \<Rightarrow> ac_environ_query list \<Rightarrow> bool \<times> ac_environ_query list"
where
  "ac_read_environ_vars src vars0 =
     (let vars = map (\<lambda>q. q\<lparr>eq_found := False\<rparr>) vars0
      in case src of
           None \<Rightarrow> (False, vars)
         | Some rs \<Rightarrow>
             (case environ_read (AC_ENVIRON_BUF - 1) [] rs of
                None \<Rightarrow> (False, vars)
              | Some buf \<Rightarrow>
                  if buf = [] then (True, vars)
                  else let truncated = (AC_ENVIRON_BUF - 1 \<le> length buf)
                       in (\<not> truncated, environ_loop buf vars)))"

definition zero_query :: "string \<Rightarrow> ac_environ_query" where
  "zero_query name = \<lparr>eq_name = name, eq_value = [], eq_found = False\<rparr>"

text \<open>-1, 0 or 1, and the value.\<close>

definition ac_read_ld_preload :: "string option list option \<Rightarrow> nat \<Rightarrow> int \<times> string" where
  "ac_read_ld_preload src outsz =
     (case ac_read_environ_vars src [zero_query ''LD_PRELOAD''] of
        (rc, qs) \<Rightarrow>
          if \<not> rc then (-1, [])
          else if \<not> eq_found (hd qs) then (0, [])
          else (1, snprintf outsz (eq_value (hd qs))))"

definition AC_VK_LAYER_ENV_VARS :: "string list" where
  "AC_VK_LAYER_ENV_VARS =
     [''VK_INSTANCE_LAYERS'', ''VK_LOADER_LAYERS_ENABLE'', ''VK_LAYER_PATH'', ''VK_ADD_LAYER_PATH'']"

text \<open>The command-line checks: their return value.\<close>

definition check_ld_preload :: "string option list option \<Rightarrow> int" where
  "check_ld_preload src =
     (let rc = fst (ac_read_ld_preload src 512)
      in if rc < 0 then -1 else if rc = 0 then 0 else 1)"

definition check_vk_layer_env :: "string option list option \<Rightarrow> int" where
  "check_vk_layer_env src =
     (case ac_read_environ_vars src (map zero_query AC_VK_LAYER_ENV_VARS) of
        (rc, vars) \<Rightarrow> if \<not> rc then -1 else if list_ex eq_found vars then 1 else 0)"

subsection \<open>The periodic checks\<close>

definition preload_text :: "int \<Rightarrow> string \<Rightarrow> string \<Rightarrow> string" where
  "preload_text pid comm val =
     ''pid '' @ show_int pid @ '' ('' @ comm @ ''): LD_PRELOAD='' @ val
     @ '' set at exec -- common for legitimate overlay/compat tools (MangoHud, gamemode, gamescope)''
     @ '' as well as library-injection hooking; informational only, not a verdict on its own''"

fun preload_loop ::
  "bool \<Rightarrow> (int \<Rightarrow> string option list option) \<Rightarrow> ac_prot_item list \<Rightarrow> ac_preload_warned list \<Rightarrow>
     ac_preload_warned list \<times> log_effect list"
where
  "preload_loop vb env [] t = (t, [])"
| "preload_loop vb env (it # its) t =
     (if preload_already_warned (pi_pid it) t then preload_loop vb env its t
      else case ac_read_ld_preload (env (pi_pid it)) 512 of
             (rc, val) \<Rightarrow>
               if rc \<noteq> 1 then preload_loop vb env its t
               else let (t', l) = preload_loop vb env its (preload_mark_warned (pi_pid it) t)
                    in (t', logmsg vb LOG_WARNING (preload_text (pi_pid it) (pi_comm it) val) @ l))"

text \<open>None: the ioctl that lists the protected processes failed.\<close>

definition check_ld_preload_periodic ::
  "bool \<Rightarrow> (int \<Rightarrow> string option list option) \<Rightarrow> ac_prot_list option \<Rightarrow> ac_preload_warned list \<Rightarrow>
     ac_preload_warned list \<times> log_effect list"
where
  "check_ld_preload_periodic vb env pl_opt t =
     (case pl_opt of
        None \<Rightarrow> (t, [])
      | Some pl \<Rightarrow> preload_loop vb env (take (pl_count pl) (pl_items pl)) (preload_warned_forget_stale pl t))"

definition vklayer_text :: "int \<Rightarrow> string \<Rightarrow> ac_environ_query \<Rightarrow> string" where
  "vklayer_text pid comm q =
     ''pid '' @ show_int pid @ '' ('' @ comm @ ''): '' @ eq_name q @ ''='' @ eq_value q
     @ '' set at exec -- common for legitimate overlay tools (MangoHud) as well as''
     @ '' Vulkan-layer-based hooking; informational only, not a verdict on its own''"

fun vklayer_loop ::
  "bool \<Rightarrow> (int \<Rightarrow> string option list option) \<Rightarrow> ac_prot_item list \<Rightarrow> ac_vklayer_warned list \<Rightarrow>
     ac_vklayer_warned list \<times> log_effect list"
where
  "vklayer_loop vb env [] t = (t, [])"
| "vklayer_loop vb env (it # its) t =
     (if vklayer_already_warned (pi_pid it) t then vklayer_loop vb env its t
      else case ac_read_environ_vars (env (pi_pid it)) (map zero_query AC_VK_LAYER_ENV_VARS) of
             (rc, vars) \<Rightarrow>
               if \<not> rc then vklayer_loop vb env its t
               else let (t', l) = vklayer_loop vb env its (vklayer_mark_warned (pi_pid it) t)
                    in (t', concat (map (\<lambda>q. logmsg vb LOG_WARNING (vklayer_text (pi_pid it) (pi_comm it) q))
                                     (filter eq_found vars)) @ l))"

definition check_vk_layers_periodic ::
  "bool \<Rightarrow> (int \<Rightarrow> string option list option) \<Rightarrow> ac_prot_list option \<Rightarrow> ac_vklayer_warned list \<Rightarrow>
     ac_vklayer_warned list \<times> log_effect list"
where
  "check_vk_layers_periodic vb env pl_opt t =
     (case pl_opt of
        None \<Rightarrow> (t, [])
      | Some pl \<Rightarrow> vklayer_loop vb env (take (pl_count pl) (pl_items pl)) (vklayer_warned_forget_stale pl t))"

subsection \<open>Interval settings\<close>

definition ac_env_interval :: "string option \<Rightarrow> int \<Rightarrow> int" where
  "ac_env_interval e default_secs =
     (case e of
        None \<Rightarrow> default_secs
      | Some s \<Rightarrow>
          if s = [] then default_secs
          else let r = strtol s
               in if sr_range r \<or> sr_end r \<noteq> [] \<or> \<not> sr_any r \<or> sr_val r \<le> 0 \<or> INT_MAX < sr_val r
                  then default_secs else sr_val r)"

definition ac_baseline_check_interval :: "(string \<Rightarrow> string option) \<Rightarrow> int" where
  "ac_baseline_check_interval getenv = ac_env_interval (getenv ''AC_BASELINE_CHECK_INTERVAL'') 60"

definition ac_scan_check_interval :: "(string \<Rightarrow> string option) \<Rightarrow> int" where
  "ac_scan_check_interval getenv = ac_env_interval (getenv ''AC_SCAN_CHECK_INTERVAL'') 30"

definition ac_render_hook_check_interval :: "(string \<Rightarrow> string option) \<Rightarrow> int" where
  "ac_render_hook_check_interval getenv = ac_env_interval (getenv ''AC_RENDER_HOOK_CHECK_INTERVAL'') 30"

definition ac_ld_preload_check_interval :: "(string \<Rightarrow> string option) \<Rightarrow> int" where
  "ac_ld_preload_check_interval getenv = ac_env_interval (getenv ''AC_LD_PRELOAD_CHECK_INTERVAL'') 10"

definition ac_vk_layer_check_interval :: "(string \<Rightarrow> string option) \<Rightarrow> int" where
  "ac_vk_layer_check_interval getenv = ac_env_interval (getenv ''AC_VK_LAYER_CHECK_INTERVAL'') 10"

definition ac_implicit_layer_check_interval :: "(string \<Rightarrow> string option) \<Rightarrow> int" where
  "ac_implicit_layer_check_interval getenv = ac_env_interval (getenv ''AC_IMPLICIT_LAYER_CHECK_INTERVAL'') 30"

subsection \<open>What the lookup finds\<close>

text \<open>The environment block as \<open>execve\<close> lays it out.\<close>

definition environ_block :: "string list \<Rightarrow> string" where
  "environ_block es = concat (map (\<lambda>e. e @ [NUL]) es)"

definition env_entry_ok :: "string \<Rightarrow> bool" where
  "env_entry_ok e \<longleftrightarrow> e \<noteq> [] \<and> NUL \<notin> set e"

text \<open>The value of a variable: the text after the equals sign of its first entry.\<close>

definition env_value :: "string \<Rightarrow> string list \<Rightarrow> string option" where
  "env_value name es =
     map_option (drop (length name + 1)) (find (\<lambda>e. starts_with (name @ ''='') e) es)"

lemma match_var_eq:
  "match_var entry q =
     (if \<not> eq_found q \<and> starts_with (eq_name q @ ''='') entry
      then q\<lparr>eq_value := snprintf AC_ENVIRON_VAL_LEN (drop (length (eq_name q) + 1) entry), eq_found := True\<rparr> else q)"
proof -
  have "length n < length e \<and> take (length n) e = take (length n) n \<and> e ! length n = CHR ''='' \<longleftrightarrow>
        starts_with (n @ ''='') e" for n e :: string
    unfolding starts_with_def
    by (cases "length n < length e") (auto simp: take_Suc_conv_app_nth)
  then show ?thesis unfolding match_var_def Let_def strncmp_eq_def by (metis (no_types, lifting))
qed

lemma cstr_append_NUL: "NUL \<notin> set e \<Longrightarrow> cstr (e @ NUL # r) = e"
  by (auto simp: cstr_def takeWhile_append)

lemma environ_loop_block:
  assumes "\<forall>e \<in> set es. env_entry_ok e"
  shows "environ_loop (environ_block es) vars = map (\<lambda>q. fold match_var es q) vars"
  using assms
proof (induction es arbitrary: vars)
  case Nil
  then show ?case by (simp add: environ_block_def environ_loop.simps)
next
  case (Cons e es)
  then have e: "e \<noteq> []" "cstr (e @ NUL # environ_block es) = e"
    by (auto simp: env_entry_ok_def intro: cstr_append_NUL)
  have "environ_block (e # es) = e @ NUL # environ_block es" by (simp add: environ_block_def)
  then have "environ_loop (environ_block (e # es)) vars = environ_loop (environ_block es) (map (match_var e) vars)"
    using e by (simp add: environ_loop.simps [of "e @ NUL # environ_block es"])
  also have "\<dots> = map (\<lambda>q. fold match_var es q) (map (match_var e) vars)"
    by (rule Cons.IH) (use Cons.prems in simp)
  finally show ?case by simp
qed

lemma fold_match_found: "eq_found q \<Longrightarrow> fold match_var es q = q"
  by (induction es) (simp_all add: match_var_eq)

lemma fold_match_var:
  assumes "\<not> eq_found q"
  shows "fold match_var es q =
    (case env_value (eq_name q) es of
       None \<Rightarrow> q
     | Some v \<Rightarrow> q\<lparr>eq_value := snprintf AC_ENVIRON_VAL_LEN v, eq_found := True\<rparr>)"
  using assms
proof (induction es)
  case (Cons e es)
  show ?case
  proof (cases "starts_with (eq_name q @ ''='') e")
    case True
    with Cons.prems show ?thesis by (simp add: match_var_eq [of e q] env_value_def fold_match_found)
  next
    case False
    with Cons show ?thesis by (simp add: match_var_eq [of e q] env_value_def)
  qed
qed (simp add: env_value_def)

text \<open>Any division of the file into pieces gives the same buffer.\<close>

lemma environ_read_pieces:
  assumes "\<forall>s \<in> set ss. s \<noteq> []" "length buf \<le> cap"
  shows "environ_read cap buf (map Some ss) = Some (buf @ take (cap - length buf) (concat ss))"
  using assms
proof (induction ss arbitrary: buf)
  case Nil
  then show ?case by (simp add: environ_read.simps)
next
  case (Cons s ss)
  let ?b = "buf @ take (cap - length buf) s"
  have "environ_read cap ?b (map Some ss) = Some (?b @ take (cap - length ?b) (concat ss))"
    using Cons.prems by (intro Cons.IH) auto
  moreover have "cap - length ?b = cap - length buf - length s" by auto
  ultimately show ?case using Cons.prems by (auto simp: environ_read.simps [of cap buf])
qed

text \<open>The answer to one query.\<close>

definition query_answer :: "string list \<Rightarrow> ac_environ_query \<Rightarrow> ac_environ_query" where
  "query_answer es q =
     (case env_value (eq_name q) es of
        None \<Rightarrow> q\<lparr>eq_found := False\<rparr>
      | Some v \<Rightarrow> q\<lparr>eq_value := take 511 v, eq_found := True\<rparr>)"

lemma read_environ_block:
  assumes "\<forall>s \<in> set ss. s \<noteq> []" "concat ss = environ_block es" "\<forall>e \<in> set es. env_entry_ok e"
  shows "length (environ_block es) < AC_ENVIRON_BUF - 1 \<Longrightarrow>
           ac_read_environ_vars (Some (map Some ss)) vars = (True, map (query_answer es) vars)"
    and "AC_ENVIRON_BUF - 1 \<le> length (environ_block es) \<Longrightarrow>
           \<not> fst (ac_read_environ_vars (Some (map Some ss)) vars)"
proof -
  have read: "environ_read (AC_ENVIRON_BUF - 1) [] (map Some ss) = Some (take (AC_ENVIRON_BUF - 1) (environ_block es))"
    using environ_read_pieces [OF assms(1), of "[]"] assms(2) by simp
  {
    assume small: "length (environ_block es) < AC_ENVIRON_BUF - 1"
    have "environ_loop (environ_block es) (map (\<lambda>q. q\<lparr>eq_found := False\<rparr>) vars) = map (query_answer es) vars"
      using assms(3)
      by (simp add: environ_loop_block fold_match_var query_answer_def snprintf_def AC_ENVIRON_VAL_LEN_def cong: option.case_cong)
    moreover have "map (\<lambda>q. q\<lparr>eq_found := False\<rparr>) vars = map (query_answer es) vars" if "environ_block es = []"
      using that by (cases es) (simp_all add: environ_block_def query_answer_def env_value_def)
    ultimately show "ac_read_environ_vars (Some (map Some ss)) vars = (True, map (query_answer es) vars)"
      using read small by (simp add: ac_read_environ_vars_def Let_def)
  next
    assume "AC_ENVIRON_BUF - 1 \<le> length (environ_block es)"
    then have "take (AC_ENVIRON_BUF - 1) (environ_block es) \<noteq> []"
      "AC_ENVIRON_BUF - 1 \<le> length (take (AC_ENVIRON_BUF - 1) (environ_block es))"
      by (auto simp: ac_consts)
    then show "\<not> fst (ac_read_environ_vars (Some (map Some ss)) vars)"
      using read by (simp add: ac_read_environ_vars_def Let_def)
  }
qed

lemma eq_name_query_answer [simp]: "eq_name (query_answer es q) = eq_name q"
  by (simp add: query_answer_def split: option.split)

subsection \<open>Warning once\<close>

lemma preload_mark:
  assumes "preload_inv t"
  shows "preload_inv (preload_mark_warned pid t)"
    and "preload_map t pid \<noteq> None \<or> 0 < slots_free pw_in_use t \<Longrightarrow>
           preload_map (preload_mark_warned pid t) = (preload_map t)(pid \<mapsto> ())"
  using pre.invar_put [OF assms TrueI, of pid] pre.lookup_put [OF assms TrueI, of pid] by auto

text \<open>Whether a process is warned about in this cycle.\<close>

definition preload_set :: "(int \<Rightarrow> string option list option) \<Rightarrow> int \<Rightarrow> bool" where
  "preload_set env pid \<longleftrightarrow> fst (ac_read_ld_preload (env pid) 512) = 1"

definition preload_warning :: "bool \<Rightarrow> (int \<Rightarrow> string option list option) \<Rightarrow> ac_prot_item \<Rightarrow> log_effect list" where
  "preload_warning vb env it =
     logmsg vb LOG_WARNING (preload_text (pi_pid it) (pi_comm it) (snd (ac_read_ld_preload (env (pi_pid it)) 512)))"

lemma preload_loop_exact:
  assumes "preload_inv t" "finite K" "dom (preload_map t) \<subseteq> K" "pi_pid ` set its \<subseteq> K" "card K \<le> AC_MAX_PROTS"
    "distinct (map pi_pid its)"
  shows "preload_inv (fst (preload_loop vb env its t)) \<and>
    dom (preload_map (fst (preload_loop vb env its t)))
      = dom (preload_map t) \<union> {p \<in> pi_pid ` set its. preload_set env p} \<and>
    snd (preload_loop vb env its t) =
      concat (map (preload_warning vb env)
        (filter (\<lambda>it. preload_map t (pi_pid it) = None \<and> preload_set env (pi_pid it)) its))"
  using assms
proof (induction its arbitrary: t)
  case Nil
  then show ?case by simp
next
  case (Cons it its)
  let ?p = "pi_pid it"
  have rest: "pi_pid ` set its \<subseteq> K" "distinct (map pi_pid its)" "?p \<notin> pi_pid ` set its" "?p \<in> K"
    using Cons.prems(4,6) by auto
  note IH = Cons.IH [OF _ Cons.prems(2) _ rest(1) Cons.prems(5) rest(2)]
  show ?case
  proof (cases "preload_map t ?p = None \<and> preload_set env ?p")
    case False
    have "preload_loop vb env (it # its) t = preload_loop vb env its t"
      using False
      by (auto simp: preload_already_warned_map preload_set_def case_prod_beta)
    moreover have "{p \<in> pi_pid ` set (it # its). preload_set env p} \<union> dom (preload_map t)
        = {p \<in> pi_pid ` set its. preload_set env p} \<union> dom (preload_map t)"
      using False by auto
    ultimately show ?thesis using IH [OF Cons.prems(1,3)] False by auto
  next
    case True
    let ?t = "preload_mark_warned ?p t"
    have "card (insert ?p (dom (preload_map t))) \<le> card K"
      by (rule card_mono [OF Cons.prems(2)]) (use Cons.prems(3) rest in simp)
    then have "preload_map t ?p \<noteq> None \<or> 0 < slots_free pw_in_use t"
      using pre.room_for_new [OF Cons.prems(1)] Cons.prems(5) by fastforce
    then have map1: "preload_map ?t = (preload_map t)(?p \<mapsto> ())" and inv1: "preload_inv ?t"
      using preload_mark [OF Cons.prems(1)] by auto
    have dom1: "dom (preload_map ?t) = insert ?p (dom (preload_map t))" unfolding map1 by auto
    then have "dom (preload_map ?t) \<subseteq> K" using Cons.prems(3) rest by simp
    note IH1 = IH [OF inv1 this]
    have same: "filter (\<lambda>it. preload_map ?t (pi_pid it) = None \<and> preload_set env (pi_pid it)) its
        = filter (\<lambda>it. preload_map t (pi_pid it) = None \<and> preload_set env (pi_pid it)) its"
    proof (rule filter_cong [OF refl])
      fix x
      assume "x \<in> set its"
      then have "pi_pid x \<noteq> ?p" using rest(3) by (metis image_eqI)
      then show "(preload_map ?t (pi_pid x) = None \<and> preload_set env (pi_pid x)) =
          (preload_map t (pi_pid x) = None \<and> preload_set env (pi_pid x))" by (simp add: map1)
    qed
    have "preload_loop vb env (it # its) t =
        (fst (preload_loop vb env its ?t), preload_warning vb env it @ snd (preload_loop vb env its ?t))"
      using True by (simp add: preload_already_warned_map preload_set_def preload_warning_def case_prod_beta Let_def)
    then show ?thesis using IH1 dom1 same True by auto
  qed
qed

lemma vklayer_loop_inv:
  "vklayer_inv t \<Longrightarrow> vklayer_inv (fst (vklayer_loop vb env its t)) \<and> reports_of (snd (vklayer_loop vb env its t)) = []"
proof (induction its arbitrary: t)
  case (Cons it its)
  have quiet: "reports_of (concat (map (\<lambda>q. logmsg vb LOG_WARNING (vklayer_text p c q)) qs)) = []" for p c qs
    by (induction qs) (simp_all add: reports_of_logmsg ac_consts)
  have "vklayer_inv (vklayer_mark_warned (pi_pid it) t)"
    using vkl.invar_put [OF Cons.prems TrueI, of "pi_pid it"] .
  with Cons quiet show ?case by (simp add: case_prod_beta Let_def)
qed simp

lemma preload_loop_quiet: "reports_of (snd (preload_loop vb env its t)) = []"
  by (induction its arbitrary: t) (simp_all add: case_prod_beta Let_def reports_of_logmsg ac_consts)

subsection \<open>Properties\<close>

text \<open>C34. Looking up variables in the environment of a process: for any division of the environment
  block into pieces, every queried variable is found exactly when an entry of that name exists, with
  the value of the first such entry (cut to the value buffer). A block that does not fit the read
  buffer is never reported as read in full.\<close>

theorem environ_vars_exact:
  assumes "\<forall>s \<in> set ss. s \<noteq> []" "concat ss = environ_block es" "\<forall>e \<in> set es. env_entry_ok e"
  shows "if length (environ_block es) < 262143
         then ac_read_environ_vars (Some (map Some ss)) vars = (True, map (query_answer es) vars)
         else \<not> fst (ac_read_environ_vars (Some (map Some ss)) vars)"
  using read_environ_block [OF assms, of vars] by (simp add: ac_consts)

theorem environ_vars_exact_witness:
  "ac_read_environ_vars (Some [Some ''A=1'', Some (NUL # ''LD_PRELOAD=x.so'' @ [NUL])]) [zero_query ''LD_PRELOAD'']
     = (True, [\<lparr>eq_name = ''LD_PRELOAD'', eq_value = ''x.so'', eq_found = True\<rparr>])"
  using environ_vars_exact [of "[''A=1'', NUL # ''LD_PRELOAD=x.so'' @ [NUL]]" "[''A=1'', ''LD_PRELOAD=x.so'']"
      "[zero_query ''LD_PRELOAD'']"]
  by (simp add: environ_block_def env_entry_ok_def NUL_def query_answer_def env_value_def zero_query_def
      starts_with_def)

text \<open>C35. One cycle of the \<open>LD_PRELOAD\<close> check over distinct protected processes: the daemon warns about
  exactly the listed processes that have it set and were not warned about before, remembers exactly
  the listed ones it has ever warned about since they were listed, and reports none of them to the
  server. So a process that stays listed is warned about once.\<close>

theorem preload_cycle_warns_once:
  assumes "preload_inv t" "distinct (listed_pids pl)" "pl_count pl \<le> 64"
  shows "let (t', l) = check_ld_preload_periodic vb env (Some pl) t;
             its = take (pl_count pl) (pl_items pl)
         in preload_inv t' \<and>
            dom (preload_map t') = {p \<in> set (listed_pids pl). preload_map t p \<noteq> None \<or> preload_set env p} \<and>
            l = concat (map (preload_warning vb env)
                  (filter (\<lambda>it. preload_map t (pi_pid it) = None \<and> preload_set env (pi_pid it)) its)) \<and>
            reports_of l = []"
proof -
  let ?its = "take (pl_count pl) (pl_items pl)" and ?K = "set (listed_pids pl)"
  let ?t = "preload_warned_forget_stale pl t"
  have K: "?K = pi_pid ` set ?its" by (simp add: listed_pids_def)
  have lookup: "preload_map ?t = preload_map t |` ?K" by (rule pre.lookup_retain [OF assms(1)])
  have "card ?K \<le> AC_MAX_PROTS"
    using card_length [of "listed_pids pl"] assms(3) by (simp add: listed_pids_def ac_consts)
  then have loop: "preload_inv (fst (preload_loop vb env ?its ?t)) \<and>
    dom (preload_map (fst (preload_loop vb env ?its ?t)))
      = dom (preload_map ?t) \<union> {p \<in> pi_pid ` set ?its. preload_set env p} \<and>
    snd (preload_loop vb env ?its ?t) =
      concat (map (preload_warning vb env)
        (filter (\<lambda>it. preload_map ?t (pi_pid it) = None \<and> preload_set env (pi_pid it)) ?its))"
    using assms(2) pre.invar_retain [OF assms(1)] lookup
    by (intro preload_loop_exact) (auto simp: listed_pids_def)
  have "filter (\<lambda>it. preload_map ?t (pi_pid it) = None \<and> preload_set env (pi_pid it)) ?its
      = filter (\<lambda>it. preload_map t (pi_pid it) = None \<and> preload_set env (pi_pid it)) ?its"
    by (rule filter_cong [OF refl]) (simp add: lookup K restrict_map_def)
  moreover have "dom (preload_map ?t) \<union> {p \<in> pi_pid ` set ?its. preload_set env p}
      = {p \<in> ?K. preload_map t p \<noteq> None \<or> preload_set env p}"
    unfolding lookup by (auto simp: K)
  ultimately show ?thesis
    using loop preload_loop_quiet [of vb env ?its ?t] by (simp add: check_ld_preload_periodic_def case_prod_beta Let_def)
qed

definition demo_list :: ac_prot_list where
  "demo_list = \<lparr>pl_count = 1, pl_items = [\<lparr>pi_pid = 7, pi_jit_allowed = 0, pi_comm = ''game''\<rparr>]\<rparr>"

theorem preload_cycle_warns_once_witness:
  "let (t', l) = check_ld_preload_periodic False (\<lambda>_. Some [Some (''LD_PRELOAD=x'' @ [NUL])]) (Some demo_list)
                   preload_warned_init
   in preload_inv t' \<and> dom (preload_map t') = {7} \<and> reports_of l = []"
proof -
  let ?env = "\<lambda>_ :: int. Some [Some (''LD_PRELOAD=x'' @ [NUL])]"
  have "ac_read_environ_vars (Some (map Some [''LD_PRELOAD=x'' @ [NUL]])) [zero_query ''LD_PRELOAD'']
      = (True, map (query_answer [''LD_PRELOAD=x'']) [zero_query ''LD_PRELOAD''])"
    by (rule read_environ_block(1)) (auto simp: environ_block_def env_entry_ok_def NUL_def ac_consts)
  then have "preload_set ?env 7"
    by (simp add: preload_set_def ac_read_ld_preload_def query_answer_def env_value_def starts_with_def
        zero_query_def)
  then have set7: "{p \<in> set (listed_pids demo_list). preload_map preload_warned_init p \<noteq> None \<or> preload_set ?env p} = {7}"
    by (auto simp: demo_list_def listed_pids_def)
  have "distinct (listed_pids demo_list)" "pl_count demo_list \<le> 64"
    by (simp_all add: demo_list_def listed_pids_def)
  from preload_cycle_warns_once [OF tables_init_ok(2) this, of False ?env]
  show ?thesis unfolding Let_def case_prod_beta set7 by (elim conjE, intro conjI)
qed

lemma strtol_show_nat_end:
  assumes "s = [] \<or> \<not> isdigit (hd s)"
  shows "sr_end (strtol (show_nat n @ s)) = s"
proof -
  obtain c cs where c: "show_nat n = c # cs" using show_nat_hd(2) [of n] by (cases "show_nat n") auto
  with show_nat_hd(1) [of n] isdigit_not_space [of c]
  have "dropWhile isspace (show_nat n @ s) = show_nat n @ s" "c \<noteq> CHR ''-''" "c \<noteq> CHR ''+''" by auto
  with c show ?thesis using takeWhile_digits_show_nat [OF assms, of n] by (simp add: strtol_def Let_def)
qed

text \<open>The interval settings: the result is always a positive \<open>int\<close> when the default is one, a
  number in range is taken as it is, and anything else (a sign in front is allowed, text behind the
  number is not, nor zero, a negative or a too large value) gives the default.\<close>

theorem env_interval_strict:
  assumes "0 < d" "d \<le> INT_MAX"
  shows "0 < ac_env_interval e d \<and> ac_env_interval e d \<le> INT_MAX \<and>
    (0 < n \<longrightarrow> int n \<le> INT_MAX \<longrightarrow> ac_env_interval (Some (show_nat n)) d = int n) \<and>
    (0 < n \<longrightarrow> s \<noteq> [] \<longrightarrow> \<not> isdigit (hd s) \<longrightarrow> ac_env_interval (Some (show_nat n @ s)) d = d) \<and>
    (INT_MAX < int n \<longrightarrow> int n \<le> LONG_MAX \<longrightarrow> ac_env_interval (Some (show_nat n)) d = d)"
proof -
  have "strtol (show_nat n) = \<lparr>sr_val = int n, sr_end = [], sr_any = True, sr_range = False\<rparr>" if "int n \<le> LONG_MAX"
    using strtol_show_nat [OF that, of "[]"] by simp
  moreover have "sr_end (strtol (show_nat n @ s)) = s" if "\<not> isdigit (hd s)" "s \<noteq> []"
    by (rule strtol_show_nat_end) (use that in simp)
  ultimately show ?thesis
    using assms show_nat_hd(2) [of n] by (auto simp: ac_env_interval_def Let_def ac_consts split: option.split)
qed

theorem env_interval_strict_witness:
  "ac_env_interval (Some (show_nat 45)) 30 = 45 \<and> ac_env_interval (Some (show_nat 45 @ ''s'')) 30 = 30"
  using env_interval_strict [of 30 None 45 "''s''"] by (simp add: ac_consts isdigit_def)

end
