(* ===== verification/Daemon_Manifest.thy ===== *)
theory Daemon_Manifest
  imports Daemon_Environ
begin

text \<open>
  Detection of implicit Vulkan layers: the targeted JSON extraction of layer manifests
  (\<open>json_extract_string\<close>, \<open>json_extract_disable_env\<close>), the walk over the manifest directories, the
  layers active for one process, and the periodic check that reports growth of the unrecognised ones.

  Directories, files and the password database are parameters. Pointers into the manifest are the
  text from there to its end. The lemmas show that the extraction always ends, never writes past
  its buffer, and finds the value of the first matching key; that at most 64 layers are collected;
  and that the list of names in the warning is cut at the end of its buffer and nowhere else.
\<close>

subsection \<open>Extracting strings\<close>

text \<open>The copy loop: a backslash makes the next character literal; what does not fit is dropped.\<close>

function copy_quoted :: "nat \<Rightarrow> string \<Rightarrow> string \<Rightarrow> string" where
  "copy_quoted outsz [] out = out"
| "copy_quoted outsz (c # q) out =
     (if c = QUOTE then out
      else let (c', q') = (if c = BACKSLASH \<and> q \<noteq> [] then (hd q, tl q) else (c, q))
           in copy_quoted outsz q' (if length out + 1 < outsz then out @ [c'] else out))"
  by pat_completeness auto
termination by (relation "measure (\<lambda>(n, q, out). length q)") (auto split: if_splits)

declare copy_quoted.simps(2) [simp del]

text \<open>What follows a key: optional space, the given character, optional space.\<close>

definition after_char :: "char \<Rightarrow> string \<Rightarrow> string option" where
  "after_char c q =
     (let r = dropWhile isspace q
      in if r = [] \<or> hd r \<noteq> c then None else Some (tl r))"

definition quoted_key :: "string \<Rightarrow> string" where
  "quoted_key key = QUOTE # key @ [QUOTE]"

function extract_loop :: "string \<Rightarrow> string \<Rightarrow> nat \<Rightarrow> string option" where
  "extract_loop needle p outsz =
     (if p = [] then None
      else case memmem p needle of
             None \<Rightarrow> None
           | Some i \<Rightarrow>
               (case after_char (CHR '':'') (drop (i + length needle) p) of
                  None \<Rightarrow> extract_loop needle (drop (i + 1) p) outsz
                | Some q \<Rightarrow>
                    (case after_char QUOTE q of
                       None \<Rightarrow> extract_loop needle (drop (i + 1) p) outsz
                     | Some v \<Rightarrow> Some (cstr (copy_quoted outsz v [])))))"
  by pat_completeness auto
termination by (relation "measure (\<lambda>(n, p, outsz). length p)") auto

declare extract_loop.simps [simp del]

definition json_extract_string :: "string \<Rightarrow> string \<Rightarrow> nat \<Rightarrow> string option" where
  "json_extract_string json key outsz =
     (if 64 \<le> length (quoted_key key) then None else extract_loop (quoted_key key) json outsz)"

definition json_extract_disable_env :: "string \<Rightarrow> nat \<Rightarrow> string option" where
  "json_extract_disable_env json outsz =
     (case memmem json (quoted_key ''disable_environment'') of
        None \<Rightarrow> None
      | Some i \<Rightarrow>
          map_option (\<lambda>v. cstr (copy_quoted outsz v []))
            (after_char (CHR '':'') (drop (i + length (quoted_key ''disable_environment'')) json)
             \<bind> after_char (CHR ''{'') \<bind> after_char QUOTE))"

subsection \<open>Home directories\<close>

text \<open>\<open>sscanf (line, "Uid: %lu", &v)\<close>: the literal, any space, a number with an optional sign; the
  value wraps to 64 bits (and saturates when it is too large).\<close>

definition scan_uid :: "string \<Rightarrow> u64 option" where
  "scan_uid line =
     (if starts_with ''Uid:'' line
      then let t = dropWhile isspace (drop 4 line);
               u = (if t \<noteq> [] \<and> (hd t = CHR ''-'' \<or> hd t = CHR ''+'') then tl t else t);
               ds = takeWhile isdigit u;
               w = (if 2 ^ 64 \<le> decimal ds then - 1 else if t \<noteq> [] \<and> hd t = CHR ''-''
                    then - of_nat (decimal ds) else of_nat (decimal ds))
           in if ds = [] then None else Some w
      else None)"

text \<open>The loop over the lines of the status file.\<close>

function status_uid :: "string \<Rightarrow> u32" where
  "status_uid file =
     (case fgets 256 file of
        None \<Rightarrow> - 1
      | Some (line, rest) \<Rightarrow> (case scan_uid (cstr line) of Some v \<Rightarrow> ucast v | None \<Rightarrow> status_uid rest))"
  by pat_completeness auto
termination by (relation "measure length") (auto dest: fgets_Some(4))

declare status_uid.simps [simp del]

text \<open>What the file system and the password database answer: the status file of a process, the home
  directory of a user, the names in a directory, and the result of one \<open>read\<close> of a file (None when
  it cannot be opened or there is no memory).\<close>

record layer_fs =
  fs_status :: "int \<Rightarrow> string option"
  fs_home :: "u32 \<Rightarrow> string option"
  fs_dir :: "string \<Rightarrow> string list option"
  fs_read :: "string \<Rightarrow> nat \<Rightarrow> string option"
  fs_environ :: "int \<Rightarrow> string option list option"

definition PATH_MAX :: nat where [ac_consts]: "PATH_MAX = 4096"

definition ac_resolve_pid_home :: "layer_fs \<Rightarrow> int \<Rightarrow> nat \<Rightarrow> string option" where
  "ac_resolve_pid_home fs pid homesz =
     (case fs_status fs pid of
        None \<Rightarrow> None
      | Some file \<Rightarrow>
          let uid = status_uid file
          in if uid = - 1 then None else map_option (snprintf homesz) (fs_home fs uid))"

subsection \<open>Layers\<close>

definition AC_MANIFEST_MAX_BYTES :: nat where [ac_consts]: "AC_MANIFEST_MAX_BYTES = 64 * 1024"
definition AC_MANIFEST_STR_LEN :: nat where [ac_consts]: "AC_MANIFEST_STR_LEN = 256"
definition AC_MAX_IMPLICIT_LAYERS :: nat where [ac_consts]: "AC_MAX_IMPLICIT_LAYERS = 64"

record ac_implicit_layer =
  ly_name :: string
  ly_library_path :: string
  ly_disable_env :: string

definition AC_KNOWN_LAYER_PREFIXES :: "string list" where
  "AC_KNOWN_LAYER_PREFIXES =
     [''VK_LAYER_MANGOHUD'', ''VK_LAYER_OBS_HOOK'', ''VK_LAYER_OBS_hotkeys'', ''VK_LAYER_VKBASALT'',
      ''VK_LAYER_RENDERDOC'', ''VK_LAYER_LATENCYFLEX'', ''VK_LAYER_VALVE_steam_overlay'',
      ''VK_LAYER_VALVE_steam_fossilize'', ''VK_LAYER_GOOGLE_'', ''VK_LAYER_KHRONOS_'', ''VK_LAYER_MESA_'',
      ''VK_LAYER_INTEL_'', ''VK_LAYER_NV_'', ''VK_LAYER_AMD_'']"

definition ac_layer_name_known :: "string \<Rightarrow> bool" where
  "ac_layer_name_known name = list_ex (\<lambda>p. strncmp_eq name p (length p)) AC_KNOWN_LAYER_PREFIXES"

text \<open>One manifest: a layer when both its name and its library are found.\<close>

definition parse_manifest :: "string \<Rightarrow> ac_implicit_layer option" where
  "parse_manifest buf =
     (case json_extract_string buf ''name'' AC_MANIFEST_STR_LEN of
        None \<Rightarrow> None
      | Some name \<Rightarrow>
          (case json_extract_string buf ''library_path'' AC_MANIFEST_STR_LEN of
             None \<Rightarrow> None
           | Some lib \<Rightarrow>
               Some \<lparr>ly_name = name, ly_library_path = lib,
                     ly_disable_env = (case json_extract_disable_env buf AC_MANIFEST_STR_LEN of
                                         None \<Rightarrow> [] | Some d \<Rightarrow> d)\<rparr>))"

definition is_json_name :: "string \<Rightarrow> bool" where
  "is_json_name n \<longleftrightarrow> 5 \<le> length n \<and> drop (length n - 5) n = ''.json''"

definition manifest_layer :: "layer_fs \<Rightarrow> string \<Rightarrow> string \<Rightarrow> ac_implicit_layer option" where
  "manifest_layer fs dir name =
     (if \<not> is_json_name name then None
      else case fs_read fs (snprintf PATH_MAX (dir @ ''/'' @ name)) (AC_MANIFEST_MAX_BYTES - 1) of
             None \<Rightarrow> None
           | Some buf \<Rightarrow> if buf = [] then None else parse_manifest buf)"

fun scan_dir_loop :: "layer_fs \<Rightarrow> string \<Rightarrow> string list \<Rightarrow> ac_implicit_layer list \<Rightarrow> ac_implicit_layer list" where
  "scan_dir_loop fs dir [] layers = layers"
| "scan_dir_loop fs dir (n # ns) layers =
     (if length layers < AC_MAX_IMPLICIT_LAYERS
      then scan_dir_loop fs dir ns
             (case manifest_layer fs dir n of None \<Rightarrow> layers | Some l \<Rightarrow> layers @ [l])
      else layers)"

definition ac_scan_implicit_layer_dir ::
  "layer_fs \<Rightarrow> string \<Rightarrow> ac_implicit_layer list \<Rightarrow> ac_implicit_layer list"
where
  "ac_scan_implicit_layer_dir fs dir layers =
     (case fs_dir fs dir of None \<Rightarrow> layers | Some ns \<Rightarrow> scan_dir_loop fs dir ns layers)"

definition layer_dirs :: "layer_fs \<Rightarrow> int \<Rightarrow> string list" where
  "layer_dirs fs pid =
     (case ac_resolve_pid_home fs pid PATH_MAX of
        None \<Rightarrow> []
      | Some home \<Rightarrow>
          [snprintf (PATH_MAX + 64) (home @ ''/.config/vulkan/implicit_layer.d''),
           snprintf (PATH_MAX + 64) (home @ ''/.local/share/vulkan/implicit_layer.d'')])
     @ [''/etc/vulkan/implicit_layer.d'', ''/usr/local/etc/vulkan/implicit_layer.d'',
        ''/usr/share/vulkan/implicit_layer.d'', ''/usr/local/share/vulkan/implicit_layer.d'']"

definition layer_disabled :: "layer_fs \<Rightarrow> int \<Rightarrow> ac_implicit_layer \<Rightarrow> bool" where
  "layer_disabled fs pid l \<longleftrightarrow>
     ly_disable_env l \<noteq> [] \<and>
     (case ac_read_environ_vars (fs_environ fs pid) [zero_query (ly_disable_env l)] of
        (rc, qs) \<Rightarrow> rc \<and> eq_found (hd qs))"

definition ac_scan_active_implicit_layers :: "layer_fs \<Rightarrow> int \<Rightarrow> nat \<Rightarrow> ac_implicit_layer list" where
  "ac_scan_active_implicit_layers fs pid outcap =
     (let found = fold (ac_scan_implicit_layer_dir fs) (layer_dirs fs pid) []
      in take outcap (filter (\<lambda>l. \<not> layer_disabled fs pid l) found))"

text \<open>The command-line check: 1 when an unrecognised layer is active.\<close>

definition check_implicit_layers :: "layer_fs \<Rightarrow> int \<Rightarrow> int" where
  "check_implicit_layers fs pid =
     (let layers = ac_scan_active_implicit_layers fs pid AC_MAX_IMPLICIT_LAYERS;
          unknown = length (filter (\<lambda>l. \<not> ac_layer_name_known (ly_name l)) layers)
      in if layers = [] then 0 else if 0 < unknown then 1 else 0)"

subsection \<open>The periodic check\<close>

definition layer_label :: "ac_implicit_layer \<Rightarrow> string" where
  "layer_label l = (if ly_name l \<noteq> [] then ly_name l else ''(unnamed)'')"

text \<open>The loop that builds the list of names: the buffer of 512 bytes, the offset of the next write
  (which keeps growing past its end) and the number of names.\<close>

fun names_loop :: "ac_implicit_layer list \<Rightarrow> string \<times> nat \<times> nat \<Rightarrow> string \<times> nat \<times> nat" where
  "names_loop [] st = st"
| "names_loop (l # ls) (names, noff, unknown) =
     (if ac_layer_name_known (ly_name l) then names_loop ls (names, noff, unknown)
      else let piece = (if unknown \<noteq> 0 then '', '' else []) @ layer_label l
           in names_loop ls
                (if noff < 512 then take noff names @ take (511 - noff) piece else names,
                 noff + length piece, Suc unknown))"

fun implicit_loop ::
  "bool \<Rightarrow> layer_fs \<Rightarrow> ac_prot_item list \<Rightarrow> ac_implicit_layer_baseline list \<Rightarrow>
     ac_implicit_layer_baseline list \<times> log_effect list"
where
  "implicit_loop vb fs [] t = (t, [])"
| "implicit_loop vb fs (it # its) t =
     (let layers = ac_scan_active_implicit_layers fs (pi_pid it) AC_MAX_IMPLICIT_LAYERS;
          (names, noff, unknown) = names_loop layers ([], 0, 0);
          (t1, l1) = implicit_layer_check vb (pi_pid it) (pi_comm it) unknown names t;
          (t2, l2) = implicit_loop vb fs its t1
      in (t2, l1 @ l2))"

definition check_implicit_layers_periodic ::
  "bool \<Rightarrow> layer_fs \<Rightarrow> ac_prot_list option \<Rightarrow> ac_implicit_layer_baseline list \<Rightarrow>
     ac_implicit_layer_baseline list \<times> log_effect list"
where
  "check_implicit_layers_periodic vb fs pl_opt t =
     (case pl_opt of
        None \<Rightarrow> (t, [])
      | Some pl \<Rightarrow>
          implicit_loop vb fs (take (pl_count pl) (pl_items pl)) (implicit_layer_baseline_forget_stale pl t))"

subsection \<open>Lemmas\<close>

lemma copy_quoted_bound: "0 < n \<Longrightarrow> length out < n \<Longrightarrow> length (copy_quoted n q out) < n"
proof (induction n q out rule: copy_quoted.induct)
  case (2 n c q out)
  then show ?case by (auto simp: copy_quoted.simps(2) Let_def split: if_splits)
qed simp

lemma length_cstr: "length (cstr s) \<le> length s"
  by (simp add: cstr_def length_takeWhile_le)

lemma extract_loop_bound: "0 < n \<Longrightarrow> extract_loop needle p n = Some v \<Longrightarrow> length v < n \<and> NUL \<notin> set v"
proof (induction needle p n rule: extract_loop.induct)
  case (1 needle p n)
  have "length (cstr (copy_quoted n q [])) < n" for q
    using copy_quoted_bound [of n "[]" q] length_cstr [of "copy_quoted n q []"] "1.prems"(1) by simp
  with 1 show ?case
    by (subst (asm) extract_loop.simps [of needle p n])
      (auto simp: NUL_notin_cstr split: if_splits option.splits)
qed

text \<open>A value without quotes, backslashes and NUL is copied as it stands.\<close>

lemma copy_quoted_plain:
  assumes "QUOTE \<notin> set v" "BACKSLASH \<notin> set v" "length out < n"
  shows "copy_quoted n (v @ QUOTE # rest) out = take (n - 1) (out @ v)"
  using assms
proof (induction v arbitrary: out)
  case Nil
  then show ?case by (simp add: copy_quoted.simps(2))
next
  case (Cons c v)
  then have step: "copy_quoted n ((c # v) @ QUOTE # rest) out =
      copy_quoted n (v @ QUOTE # rest) (if length out + 1 < n then out @ [c] else out)"
    by (auto simp: copy_quoted.simps(2) Let_def)
  show ?case
  proof (cases "length out + 1 < n")
    case True
    then show ?thesis
      unfolding step using Cons.IH [of "out @ [c]"] Cons.prems by (simp del: take_append)
  next
    case False
    then have "n = Suc (length out)" using Cons.prems by simp
    then show ?thesis unfolding step using Cons by simp
  qed
qed

lemma after_char_spaces:
  assumes "\<forall>x \<in> set ws. isspace x" "\<not> isspace c"
  shows "after_char c (ws @ c # r) = Some r"
  using assms by (simp add: after_char_def dropWhile_append2)

lemma extract_first:
  assumes "\<And>i. i < length a \<Longrightarrow> \<not> starts_with needle (drop i (a @ needle @ b))" "needle \<noteq> []"
    "b = w1 @ CHR '':'' # w2 @ QUOTE # v @ QUOTE # rest" "\<forall>x \<in> set (w1 @ w2). isspace x"
    "QUOTE \<notin> set v" "BACKSLASH \<notin> set v" "NUL \<notin> set v" "0 < n"
  shows "extract_loop needle (a @ needle @ b) n = Some (take (n - 1) v)"
proof -
  have "memmem (a @ needle @ b) needle = Some (length a)" by (rule memmem_append) (use assms(1) in auto)
  moreover have "after_char (CHR '':'') b = Some (w2 @ QUOTE # v @ QUOTE # rest)"
    unfolding assms(3) by (rule after_char_spaces) (use assms(4) in \<open>auto simp: isspace_def\<close>)
  moreover have "after_char QUOTE (w2 @ QUOTE # v @ QUOTE # rest) = Some (v @ QUOTE # rest)"
    by (rule after_char_spaces) (use assms(4) in \<open>auto simp: isspace_def QUOTE_def\<close>)
  moreover have "copy_quoted n (v @ QUOTE # rest) [] = take (n - 1) v"
    using copy_quoted_plain [OF assms(5,6), of "[]" n rest] assms(8) by simp
  moreover have "cstr (take (n - 1) v) = take (n - 1) v"
    by (rule cstr_id) (use assms(7) in \<open>auto dest: in_set_takeD\<close>)
  ultimately show ?thesis
    using assms(2) by (simp add: extract_loop.simps [of needle "a @ needle @ b" n])
qed

lemma scan_dir_loop_bound:
  "length layers \<le> AC_MAX_IMPLICIT_LAYERS \<Longrightarrow> length (scan_dir_loop fs dir ns layers) \<le> AC_MAX_IMPLICIT_LAYERS"
  by (induction ns arbitrary: layers) (auto split: option.split)

lemma scan_dirs_bound:
  "length layers \<le> AC_MAX_IMPLICIT_LAYERS \<Longrightarrow>
     length (fold (ac_scan_implicit_layer_dir fs) dirs layers) \<le> AC_MAX_IMPLICIT_LAYERS"
  by (induction dirs arbitrary: layers)
    (auto simp: ac_scan_implicit_layer_dir_def scan_dir_loop_bound split: option.split)

text \<open>What the loop over the names computes.\<close>

definition unknown_labels :: "ac_implicit_layer list \<Rightarrow> string list" where
  "unknown_labels ls = map layer_label (filter (\<lambda>l. \<not> ac_layer_name_known (ly_name l)) ls)"

fun join :: "string \<Rightarrow> string list \<Rightarrow> string" where
  "join sep [] = []"
| "join sep [x] = x"
| "join sep (x # y # ys) = x @ sep @ join sep (y # ys)"

lemma join_snoc: "join sep (xs @ [x]) = (if xs = [] then x else join sep xs @ sep @ x)"
  by (induction sep xs rule: join.induct) auto

lemma names_loop_eq:
  "names_loop ls (take 511 (join '', '' done), length (join '', '' done), length done) =
     (take 511 (join '', '' (done @ unknown_labels ls)), length (join '', '' (done @ unknown_labels ls)),
      length (done @ unknown_labels ls))"
proof (induction ls arbitrary: "done")
  case Nil
  then show ?case by (simp add: unknown_labels_def)
next
  case (Cons l ls)
  show ?case
  proof (cases "ac_layer_name_known (ly_name l)")
    case True
    then show ?thesis using Cons by (simp add: unknown_labels_def)
  next
    case False
    let ?piece = "(if length done \<noteq> 0 then '', '' else []) @ layer_label l"
    have j: "join '', '' (done @ [layer_label l]) = join '', '' done @ ?piece"
      by (simp add: join_snoc)
    have names: "(if length (join '', '' done) < 512
           then take (length (join '', '' done)) (take 511 (join '', '' done)) @ take (511 - length (join '', '' done)) ?piece
           else take 511 (join '', '' done)) = take 511 (join '', '' (done @ [layer_label l]))"
      unfolding j by (auto simp: min_def)
    have "names_loop (l # ls) (take 511 (join '', '' done), length (join '', '' done), length done) =
        names_loop ls (take 511 (join '', '' (done @ [layer_label l])), length (join '', '' (done @ [layer_label l])),
          length (done @ [layer_label l]))"
      using False unfolding names [symmetric] by (simp add: j Let_def)
    moreover have "unknown_labels (l # ls) = layer_label l # unknown_labels ls"
      using False by (simp add: unknown_labels_def)
    ultimately show ?thesis using Cons [of "done @ [layer_label l]"] by simp
  qed
qed

lemma names_loop_exact:
  "names_loop ls ([], 0, 0) =
     (take 511 (join '', '' (unknown_labels ls)), length (join '', '' (unknown_labels ls)), length (unknown_labels ls))"
  using names_loop_eq [of ls "[]"] by simp

lemma implicit_loop_inv:
  "implicit_inv t \<Longrightarrow> implicit_inv (fst (implicit_loop vb fs its t)) \<and> reports_of (snd (implicit_loop vb fs its t)) = []"
proof (induction its arbitrary: t)
  case (Cons it its)
  have "implicit_inv (fst (implicit_layer_check vb pid comm n names t))" for pid comm n names
    using impl.invar_put [OF Cons.prems TrueI, where k = pid and v = n and vb = vb and comm = "\<lambda>_. comm"
        and names = "\<lambda>_. names"] .
  moreover have "reports_of (snd (implicit_layer_check vb pid comm n names t)) = []" for pid comm n names
    using Cons.prems by (simp add: implicit_check_log reports_of_logmsg ac_consts split: option.split)
  ultimately show ?case using Cons.IH by (simp add: case_prod_beta Let_def)
qed simp

subsection \<open>Properties\<close>

text \<open>C36. Extracting a key of a manifest: whatever the text, a result fits its buffer and is a proper
  string; and when the first occurrence of the quoted key is followed by a colon and a plain quoted
  value, with any space between, the result is that value, cut to the buffer.\<close>

theorem manifest_extract:
  assumes "0 < n" "length key < 62"
    "\<And>i. i < length a \<Longrightarrow> \<not> starts_with (quoted_key key) (drop i (a @ quoted_key key @ b))"
    "b = w1 @ CHR '':'' # w2 @ QUOTE # v @ QUOTE # rest" "\<forall>x \<in> set (w1 @ w2). isspace x"
    "\<forall>x \<in> set v. plain_char x"
  shows "json_extract_string (a @ quoted_key key @ b) key n = Some (take (n - 1) v) \<and>
    (json_extract_string any key n = Some r \<longrightarrow> length r < n \<and> NUL \<notin> set r)"
proof -
  have v: "QUOTE \<notin> set v" "BACKSLASH \<notin> set v" "NUL \<notin> set v"
    using assms(6) by (auto simp: plain_char_def NUL_def)
  have "extract_loop (quoted_key key) (a @ quoted_key key @ b) n = Some (take (n - 1) v)"
    by (rule extract_first [OF assms(3) _ assms(4,5) v assms(1)]) (simp_all add: quoted_key_def)
  then show ?thesis
    using assms(2) extract_loop_bound [OF assms(1), of "quoted_key key" any r]
    by (auto simp: json_extract_string_def quoted_key_def split: if_splits)
qed

theorem manifest_extract_witness:
  "json_extract_string (''{'' @ quoted_key ''name'' @ '' : '' @ QUOTE # ''VK_L'' @ QUOTE # ''}'') ''name'' 4 = Some ''VK_''"
proof -
  have "\<not> starts_with (quoted_key ''name'') (drop i (''{'' @ quoted_key ''name'' @ '' : '' @ QUOTE # ''VK_L'' @ QUOTE # ''}''))"
    if "i < length ''{''" for i
    using that by (simp add: starts_with_def quoted_key_def QUOTE_def)
  from manifest_extract [of 4 "''name''", OF _ _ this, of "'' ''" "'' ''" "''VK_L''" "''}''"] show ?thesis
    by (simp add: isspace_def plain_char_def QUOTE_def BACKSLASH_def)
qed

text \<open>The list of layer names in the warning is the comma-separated list of the unrecognised names,
  cut at the 511 characters its buffer holds, although the write offset keeps growing past the end;
  and the count is the number of those names.\<close>

theorem layer_names_cut:
  "names_loop ls ([], 0, 0) =
     (snprintf 512 (join '', '' (unknown_labels ls)), length (join '', '' (unknown_labels ls)),
      length (unknown_labels ls))"
  by (simp add: names_loop_exact snprintf_def)

text \<open>The extraction takes the first key of that name anywhere in the manifest: the name of an
  extension listed before the layer's own name is reported as the layer's.\<close>

definition nested_manifest :: string where
  "nested_manifest =
     ''{'' @ quoted_key ''instance_extensions'' @ '':[{'' @ json_field ''name'' ''VK_LAYER_MESA_x'' @ ''}],''
     @ json_field ''name'' ''VK_LAYER_CHEAT'' @ '','' @ json_field ''library_path'' ''/tmp/c.so'' @ ''}''"

lemma nested_name_taken:
  "map_option (\<lambda>l. (ly_name l, ac_layer_name_known (ly_name l))) (parse_manifest nested_manifest)
     = Some (''VK_LAYER_MESA_x'', True)"
  by code_simp

end
