(* ===== verification/Render_Hooks.thy ===== *)
theory Render_Hooks
  imports Fd_Snapshots Daemon_Report
begin

text \<open>
  The render hook check of the daemon: finding a symbol in the section headers of a shared library
  (\<open>elf_find_symbol_offset\<close>), comparing its bytes in the file with those in the memory of the process
  (\<open>compare_render_symbol\<close>), and locating the graphics libraries among the mappings of a process
  (\<open>find_libs_by_basenames\<close>).

  A file is its bytes; \<open>pread\<close> gives what lies in range and fails at an offset that is negative as
  an \<open>off_t\<close>; \<open>malloc\<close> may fail. A string comparison that runs past the end of its table is a
  result of its own, so that the reads outside the tables are visible in the model.
\<close>

subsection \<open>Fields of ELF structures\<close>

definition le_nat :: "u8 list \<Rightarrow> nat" where
  "le_nat bs = foldr (\<lambda>b a. unat b + 256 * a) bs 0"

definition field :: "nat \<Rightarrow> nat \<Rightarrow> u8 list \<Rightarrow> nat" where
  "field off n bs = le_nat (take n (drop off bs))"

record elf_ehdr =
  e_ident :: "u8 list"
  e_shoff :: nat
  e_shentsize :: nat
  e_shnum :: nat
  e_shstrndx :: nat

definition decode_ehdr :: "u8 list \<Rightarrow> elf_ehdr" where
  "decode_ehdr bs = \<lparr>e_ident = take 16 bs, e_shoff = field 40 8 bs, e_shentsize = field 58 2 bs,
     e_shnum = field 60 2 bs, e_shstrndx = field 62 2 bs\<rparr>"

record elf_shdr =
  sh_name :: nat
  sh_type :: nat
  sh_offset :: nat
  sh_size :: nat
  sh_entsize :: nat

definition decode_shdr :: "u8 list \<Rightarrow> elf_shdr" where
  "decode_shdr bs = \<lparr>sh_name = field 0 4 bs, sh_type = field 4 4 bs, sh_offset = field 24 8 bs,
     sh_size = field 32 8 bs, sh_entsize = field 56 8 bs\<rparr>"

record elf_sym =
  st_name :: nat
  st_value :: nat
  st_size :: nat

definition decode_sym :: "u8 list \<Rightarrow> elf_sym" where
  "decode_sym bs = \<lparr>st_name = field 0 4 bs, st_value = field 8 8 bs, st_size = field 16 8 bs\<rparr>"

definition EHDR_SIZE :: nat where [ac_consts]: "EHDR_SIZE = 64"
definition SHDR_SIZE :: nat where [ac_consts]: "SHDR_SIZE = 64"
definition SYM_SIZE :: nat where [ac_consts]: "SYM_SIZE = 24"
definition SHT_STRTAB :: nat where [ac_consts]: "SHT_STRTAB = 3"
definition SHT_DYNSYM :: nat where [ac_consts]: "SHT_DYNSYM = 11"
definition AC_ELF_MAX_SHNUM :: nat where [ac_consts]: "AC_ELF_MAX_SHNUM = 2048"
definition AC_ELF_MAX_STRTAB :: nat where [ac_consts]: "AC_ELF_MAX_STRTAB = 4 * 1024 * 1024"
definition AC_ELF_MAX_SYMS :: nat where [ac_consts]: "AC_ELF_MAX_SYMS = 500000"
definition AC_HOOK_CHECK_DEFAULT_BYTES :: nat where [ac_consts]: "AC_HOOK_CHECK_DEFAULT_BYTES = 32"
definition AC_HOOK_CHECK_MIN_BYTES :: nat where [ac_consts]: "AC_HOOK_CHECK_MIN_BYTES = 8"
definition AC_HOOK_CHECK_MAX_BYTES :: nat where [ac_consts]: "AC_HOOK_CHECK_MAX_BYTES = 512"

subsection \<open>Finding a symbol\<close>

text \<open>A complete read of \<open>n\<close> bytes at an offset.\<close>

definition pread_all :: "u8 list \<Rightarrow> nat \<Rightarrow> nat \<Rightarrow> u8 list option" where
  "pread_all file n off =
     (if off < 2 ^ 63 \<and> length (take n (drop off file)) = n then Some (take n (drop off file)) else None)"

text \<open>\<open>strcmp\<close> of a string in a table with a literal: None when it reads past the end of the table.\<close>

fun strcmp_at :: "u8 list \<Rightarrow> string \<Rightarrow> bool option" where
  "strcmp_at [] s = None"
| "strcmp_at (b # bs) [] = Some (b = 0)"
| "strcmp_at (b # bs) (c # cs) = (if b = byte c then strcmp_at bs cs else Some False)"

datatype elf_result = ElfFail | ElfOverread | ElfFound nat nat

text \<open>The loop over the section headers: the last sections of the two names win.\<close>

fun sections_loop ::
  "u8 list \<Rightarrow> elf_shdr list \<Rightarrow> elf_shdr option \<times> elf_shdr option \<Rightarrow> (elf_shdr option \<times> elf_shdr option) option"
where
  "sections_loop tab [] st = Some st"
| "sections_loop tab (s # ss) (dynsym, dynstr) =
     (if length tab \<le> sh_name s then sections_loop tab ss (dynsym, dynstr)
      else if sh_type s = SHT_DYNSYM then
        (case strcmp_at (drop (sh_name s) tab) ''.dynsym'' of
           None \<Rightarrow> None
         | Some eq \<Rightarrow> sections_loop tab ss (if eq then (Some s, dynstr) else (dynsym, dynstr)))
      else if sh_type s = SHT_STRTAB then
        (case strcmp_at (drop (sh_name s) tab) ''.dynstr'' of
           None \<Rightarrow> None
         | Some eq \<Rightarrow> sections_loop tab ss (if eq then (dynsym, Some s) else (dynsym, dynstr)))
      else sections_loop tab ss (dynsym, dynstr))"

fun symbols_loop :: "u8 list \<Rightarrow> string \<Rightarrow> elf_sym list \<Rightarrow> elf_result" where
  "symbols_loop tab symbol [] = ElfFail"
| "symbols_loop tab symbol (y # ys) =
     (if st_name y = 0 \<or> length tab \<le> st_name y \<or> st_value y = 0 then symbols_loop tab symbol ys
      else case strcmp_at (drop (st_name y) tab) symbol of
             None \<Rightarrow> ElfOverread
           | Some eq \<Rightarrow> if eq then ElfFound (st_value y) (st_size y) else symbols_loop tab symbol ys)"

text \<open>An array of structures of \<open>sz\<close> bytes.\<close>

definition array_of :: "(u8 list \<Rightarrow> 'a) \<Rightarrow> nat \<Rightarrow> nat \<Rightarrow> u8 list \<Rightarrow> 'a list" where
  "array_of decode sz n bs = map (\<lambda>i. decode (take sz (drop (i * sz) bs))) [0..<n]"

definition ehdr_ok :: "elf_ehdr \<Rightarrow> bool" where
  "ehdr_ok eh \<longleftrightarrow>
     take 4 (e_ident eh) = [0x7f, 0x45, 0x4c, 0x46] \<and> e_ident eh ! 4 = 2 \<and> e_ident eh ! 5 = 1 \<and>
     e_shentsize eh = SHDR_SIZE \<and> e_shnum eh \<noteq> 0 \<and> e_shnum eh \<le> AC_ELF_MAX_SHNUM \<and>
     e_shstrndx eh < e_shnum eh"

text \<open>The part after the section headers are read and the two sections are known.\<close>

definition elf_symbols :: "(nat \<Rightarrow> bool) \<Rightarrow> u8 list \<Rightarrow> string \<Rightarrow> elf_shdr \<Rightarrow> elf_shdr \<Rightarrow> elf_result" where
  "elf_symbols malloc file symbol dynsym dynstr =
     (let nsyms = (sh_size dynsym div SYM_SIZE) mod 2 ^ 32
      in if sh_entsize dynsym \<noteq> SYM_SIZE \<or> sh_size dynstr = 0 \<or> AC_ELF_MAX_STRTAB < sh_size dynstr then ElfFail
         else if nsyms = 0 \<or> AC_ELF_MAX_SYMS < nsyms then ElfFail
         else if \<not> malloc (sh_size dynsym) \<or> \<not> malloc (sh_size dynstr) then ElfFail
         else case pread_all file (sh_size dynsym) (sh_offset dynsym) of
                None \<Rightarrow> ElfFail
              | Some symbytes \<Rightarrow>
                  (case pread_all file (sh_size dynstr) (sh_offset dynstr) of
                     None \<Rightarrow> ElfFail
                   | Some strbytes \<Rightarrow>
                       symbols_loop strbytes symbol (array_of decode_sym SYM_SIZE nsyms symbytes)))"

definition elf_find_symbol_offset :: "(nat \<Rightarrow> bool) \<Rightarrow> u8 list \<Rightarrow> string \<Rightarrow> elf_result" where
  "elf_find_symbol_offset malloc file symbol =
     (case pread_all file EHDR_SIZE 0 of
        None \<Rightarrow> ElfFail
      | Some hb \<Rightarrow>
          let eh = decode_ehdr hb
          in if \<not> ehdr_ok eh then ElfFail
             else if \<not> malloc (e_shnum eh * SHDR_SIZE) then ElfFail
             else case pread_all file (e_shnum eh * SHDR_SIZE) (e_shoff eh) of
                    None \<Rightarrow> ElfFail
                  | Some sb \<Rightarrow>
                      let shdrs = array_of decode_shdr SHDR_SIZE (e_shnum eh) sb;
                          shstr = shdrs ! e_shstrndx eh
                      in if sh_size shstr = 0 \<or> AC_ELF_MAX_STRTAB < sh_size shstr then ElfFail
                         else if \<not> malloc (sh_size shstr) then ElfFail
                         else case pread_all file (sh_size shstr) (sh_offset shstr) of
                                None \<Rightarrow> ElfFail
                              | Some tab \<Rightarrow>
                                  (case sections_loop tab shdrs (None, None) of
                                     None \<Rightarrow> ElfOverread
                                   | Some (Some dynsym, Some dynstr) \<Rightarrow>
                                       elf_symbols malloc file symbol dynsym dynstr
                                   | Some _ \<Rightarrow> ElfFail))"

subsection \<open>Comparing with memory\<close>

definition check_len :: "nat \<Rightarrow> nat" where
  "check_len sz =
     (if sz = 0 then AC_HOOK_CHECK_DEFAULT_BYTES
      else if sz < AC_HOOK_CHECK_MIN_BYTES then AC_HOOK_CHECK_MIN_BYTES
      else if AC_HOOK_CHECK_MAX_BYTES < sz then AC_HOOK_CHECK_MAX_BYTES
      else sz)"

definition ns_path :: "int \<Rightarrow> string \<Rightarrow> string" where
  "ns_path pid libpath = snprintf (AC_VMA_PATH + 32) (''/proc/'' @ show_int pid @ ''/root'' @ libpath)"

text \<open>The files as the daemon sees them, the memory of a process (None: it cannot be opened; the
  function gives the bytes at an address, fewer when they are not all readable), and \<open>malloc\<close>.\<close>

record render_env =
  r_open :: "string \<Rightarrow> u8 list option"
  r_mem :: "int \<Rightarrow> (u64 \<Rightarrow> nat \<Rightarrow> u8 list) option"
  r_malloc :: "nat \<Rightarrow> bool"

text \<open>The status: 1 hooked, 0 clean, -1 inconclusive. A comparison that ran past a table has no
  defined outcome and is None.\<close>

definition compare_render_symbol :: "render_env \<Rightarrow> int \<Rightarrow> string \<Rightarrow> u64 \<Rightarrow> string \<Rightarrow> int option" where
  "compare_render_symbol e pid libpath lib_base symbol =
     (case r_open e (ns_path pid libpath) of
        None \<Rightarrow> Some (-1)
      | Some file \<Rightarrow>
          (case elf_find_symbol_offset (r_malloc e) file symbol of
             ElfFail \<Rightarrow> Some (-1)
           | ElfOverread \<Rightarrow> None
           | ElfFound offset sz \<Rightarrow>
               let checklen = check_len sz
               in (case pread_all file checklen offset of
                     None \<Rightarrow> Some (-1)
                   | Some expected \<Rightarrow>
                       (case r_mem e pid of
                          None \<Rightarrow> Some (-1)
                        | Some mem \<Rightarrow>
                            let actual = mem (lib_base + of_nat offset) checklen
                            in if length actual \<noteq> checklen then Some (-1)
                               else Some (if expected \<noteq> actual then 1 else 0)))))"

subsection \<open>Locating the libraries\<close>

definition AC_RENDER_APIS :: "(string \<times> string \<times> string) list" where
  "AC_RENDER_APIS =
     [(''libvulkan.so'', ''vkQueuePresentKHR'', ''Vulkan''),
      (''libGL.so'', ''glXSwapBuffers'', ''GLX/OpenGL''),
      (''libEGL.so'', ''eglSwapBuffers'', ''EGL'')]"

record ac_lib_result =
  lr_found :: bool
  lr_base :: u64
  lr_path :: string

definition no_lib :: ac_lib_result where
  "no_lib = \<lparr>lr_found = False, lr_base = 0, lr_path = []\<rparr>"

definition basename :: "string \<Rightarrow> string" where
  "basename path = (case split_last (CHR ''/'') path of None \<Rightarrow> path | Some (_, b) \<Rightarrow> b)"

definition update_lib :: "ac_vma_info \<Rightarrow> string \<Rightarrow> ac_lib_result \<Rightarrow> ac_lib_result" where
  "update_lib vi pfx r =
     (if strncmp_eq (basename (vi_path vi)) pfx (length pfx) \<and> (\<not> lr_found r \<or> vi_start vi < lr_base r)
      then \<lparr>lr_found = True, lr_base = vi_start vi, lr_path = snprintf AC_VMA_PATH (vi_path vi)\<rparr> else r)"

text \<open>One mapping against all pfxs.\<close>

definition libs_step :: "string list \<Rightarrow> ac_vma_info \<Rightarrow> ac_lib_result list \<Rightarrow> ac_lib_result list" where
  "libs_step pfxs vi results =
     (if \<not> vi_is_file vi \<or> vi_path vi = [] then results
      else map2 (update_lib vi) pfxs results)"

text \<open>The pass over the mappings the device returned; None when the scan could not be started.\<close>

definition find_libs_by_basenames :: "string list \<Rightarrow> ac_vma_info list option \<Rightarrow> ac_lib_result list option" where
  "find_libs_by_basenames pfxs vmas =
     map_option (\<lambda>vs. fold (libs_step pfxs) vs (replicate (length pfxs) no_lib)) vmas"

text \<open>Statuses and library paths: -2 not loaded, -1 inconclusive, 0 clean, 1 hooked.\<close>

definition render_hook_statuses_for ::
  "render_env \<Rightarrow> int \<Rightarrow> ac_vma_info list option \<Rightarrow> (int option \<times> string) list"
where
  "render_hook_statuses_for e pid vmas =
     (case find_libs_by_basenames (map fst AC_RENDER_APIS) vmas of
        None \<Rightarrow> map (\<lambda>_. (Some (-1), [])) AC_RENDER_APIS
      | Some results \<Rightarrow>
          map2 (\<lambda>(pfx, symbol, label) r.
              if \<not> lr_found r then (Some (-2), [])
              else (compare_render_symbol e pid (lr_path r) (lr_base r) symbol, snprintf AC_VMA_PATH (lr_path r)))
            AC_RENDER_APIS results)"

text \<open>The command-line check: whether any library is hooked.\<close>

definition check_render_hooks :: "render_env \<Rightarrow> int \<Rightarrow> ac_vma_info list option \<Rightarrow> bool" where
  "check_render_hooks e pid vmas = list_ex (\<lambda>(s, _). s = Some 1) (render_hook_statuses_for e pid vmas)"

definition render_text :: "int \<Rightarrow> string \<Rightarrow> string \<Rightarrow> string \<Rightarrow> string" where
  "render_text pid comm libpath symbol =
     ''pid '' @ show_int pid @ '' ('' @ comm @ ''): render hook detected in '' @ libpath @ '' ('' @ symbol
     @ '' differs from a freshly-loaded reference copy -- possible ESP/overlay/render hijack)''"

text \<open>What the periodic check logs for one process.\<close>

definition render_hook_log ::
  "bool \<Rightarrow> render_env \<Rightarrow> int \<Rightarrow> string \<Rightarrow> ac_vma_info list option \<Rightarrow> log_effect list"
where
  "render_hook_log vb e pid comm vmas =
     concat (map2 (\<lambda>(pfx, symbol, label) (s, libpath).
         if s = Some 1 then logmsg vb LOG_CRIT (render_text pid comm libpath symbol) else [])
       AC_RENDER_APIS (render_hook_statuses_for e pid vmas))"

subsection \<open>Reads and strings\<close>

lemma pread_all_Some:
  "pread_all file n off = Some bs \<longleftrightarrow> off < 2 ^ 63 \<and> bs = take n (drop off file) \<and> length bs = n"
  by (auto simp: pread_all_def)

lemma strcmp_at_True: "strcmp_at tab s = Some True \<longleftrightarrow> starts_with (map byte s @ [0]) tab"
proof (induction tab s rule: strcmp_at.induct)
  case (3 b bs c cs)
  then show ?case by (auto simp: starts_with_def)
qed (auto simp: starts_with_def)

lemma strcmp_at_None:
  assumes "strcmp_at tab s = None" "0 \<notin> byte ` set s"
  shows "0 \<notin> set tab"
  using assms by (induction tab s rule: strcmp_at.induct) (auto split: if_splits)

lemma starts_with_drop_take:
  assumes "starts_with p (drop k (take n (drop off file)))"
  shows "starts_with p (drop (off + k) file)"
proof -
  obtain r where r: "drop k (take n (drop off file)) = p @ r" using assms by (auto simp: starts_with_iff)
  have "drop (off + k) file = drop k (take n (drop off file)) @ drop (n - k) (drop (off + k) file)"
    by (metis add.commute append_take_drop_id drop_drop drop_take)
  then show ?thesis using r by (metis append.assoc starts_with_append)
qed

lemma symbols_loop_Found:
  assumes "symbols_loop tab symbol ys = ElfFound off sz"
  obtains i where "i < length ys" "st_value (ys ! i) = off" "st_size (ys ! i) = sz" "off \<noteq> 0"
    "st_name (ys ! i) \<noteq> 0" "starts_with (map byte symbol @ [0]) (drop (st_name (ys ! i)) tab)"
proof -
  have "\<exists>i < length ys. st_value (ys ! i) = off \<and> st_size (ys ! i) = sz \<and> off \<noteq> 0 \<and>
      st_name (ys ! i) \<noteq> 0 \<and> starts_with (map byte symbol @ [0]) (drop (st_name (ys ! i)) tab)"
    using assms
  proof (induction ys)
    case (Cons y ys)
    show ?case
    proof (cases "symbols_loop tab symbol ys = ElfFound off sz")
      case True
      then show ?thesis using Cons.IH by force
    next
      case False
      with Cons.prems show ?thesis
        by (intro exI [of _ 0]) (auto simp: strcmp_at_True split: if_splits option.splits)
    qed
  qed simp
  then show thesis using that by blast
qed

lemma symbols_loop_Overread:
  "symbols_loop tab symbol ys = ElfOverread \<Longrightarrow> \<exists>k < length tab. strcmp_at (drop k tab) symbol = None"
  by (induction ys) (auto simp: not_le split: if_splits option.splits)

lemma sections_loop_None:
  "sections_loop tab ss st = None \<Longrightarrow>
     \<exists>k < length tab. strcmp_at (drop k tab) ''.dynsym'' = None \<or> strcmp_at (drop k tab) ''.dynstr'' = None"
proof (induction tab ss st rule: sections_loop.induct)
  case (2 tab s ss dynsym dynstr)
  then show ?case by (auto simp: not_le split: if_splits option.splits)
qed simp

text \<open>A section header whose name in the table is the given one.\<close>

definition section_named :: "u8 list \<Rightarrow> nat \<Rightarrow> string \<Rightarrow> elf_shdr \<Rightarrow> bool" where
  "section_named tab ty name s \<longleftrightarrow> sh_type s = ty \<and> starts_with (map byte name @ [0]) (drop (sh_name s) tab)"

lemma sections_loop_Some:
  assumes "sections_loop tab ss st = Some (a, b)"
  shows "(a = fst st \<or> (\<exists>s \<in> set ss. a = Some s \<and> section_named tab SHT_DYNSYM ''.dynsym'' s)) \<and>
         (b = snd st \<or> (\<exists>s \<in> set ss. b = Some s \<and> section_named tab SHT_STRTAB ''.dynstr'' s))"
  using assms
proof (induction ss arbitrary: st)
  case (Cons s ss)
  obtain d e where st: "st = (d, e)" by fastforce
  consider "sections_loop tab ss (d, e) = Some (a, b)"
    | "sections_loop tab ss (Some s, e) = Some (a, b)" "section_named tab SHT_DYNSYM ''.dynsym'' s"
    | "sections_loop tab ss (d, Some s) = Some (a, b)" "section_named tab SHT_STRTAB ''.dynstr'' s"
    using Cons.prems unfolding st section_named_def strcmp_at_True [symmetric]
    by (auto split: if_splits option.splits)
  then show ?case
  proof cases
    case 1
    from Cons.IH [OF this] show ?thesis unfolding st by auto
  next
    case 2
    from Cons.IH [OF this(1)] 2(2) show ?thesis unfolding st by auto
  next
    case 3
    from Cons.IH [OF this(1)] 3(2) show ?thesis unfolding st by auto
  qed
qed simp

text \<open>Bytes of the file at an offset.\<close>

definition file_has :: "u8 list \<Rightarrow> nat \<Rightarrow> u8 list \<Rightarrow> bool" where
  "file_has file off bs \<longleftrightarrow> starts_with bs (drop off file)"

lemma elf_symbols_Found:
  assumes "elf_symbols malloc file symbol dynsym dynstr = ElfFound off sz"
  shows "off \<noteq> 0 \<and> (\<exists>i y. i < sh_size dynsym div 24 \<and> y = decode_sym (take 24 (drop (sh_offset dynsym + 24 * i) file)) \<and>
     st_value y = off \<and> st_size y = sz \<and>
     file_has file (sh_offset dynstr + st_name y) (map byte symbol @ [0]))"
proof -
  define nsyms where "nsyms = (sh_size dynsym div SYM_SIZE) mod 2 ^ 32"
  let ?sb = "take (sh_size dynsym) (drop (sh_offset dynsym) file)"
  let ?tab = "take (sh_size dynstr) (drop (sh_offset dynstr) file)"
  have loop: "symbols_loop ?tab symbol (array_of decode_sym SYM_SIZE nsyms ?sb) = ElfFound off sz"
    using assms unfolding elf_symbols_def Let_def nsyms_def [symmetric]
    by (auto simp: pread_all_Some split: if_splits option.splits)
  obtain i where i: "i < length (array_of decode_sym SYM_SIZE nsyms ?sb)"
    "st_value (array_of decode_sym SYM_SIZE nsyms ?sb ! i) = off" "st_size (array_of decode_sym SYM_SIZE nsyms ?sb ! i) = sz"
    "off \<noteq> 0"
    "starts_with (map byte symbol @ [0]) (drop (st_name (array_of decode_sym SYM_SIZE nsyms ?sb ! i)) ?tab)"
    by (rule symbols_loop_Found [OF loop]) blast
  let ?y = "decode_sym (take SYM_SIZE (drop (i * SYM_SIZE) ?sb))"
  have n: "i < nsyms" "array_of decode_sym SYM_SIZE nsyms ?sb ! i = ?y" using i(1) by (simp_all add: array_of_def)
  have "nsyms \<le> sh_size dynsym div SYM_SIZE" by (simp add: nsyms_def)
  then have lt: "i < sh_size dynsym div 24" using n(1) by (simp add: ac_consts)
  then have "24 * Suc i \<le> sh_size dynsym" by (metis Suc_leI mult.commute mult_le_mono1 order_trans div_times_less_eq_dividend)
  then have "take SYM_SIZE (drop (i * SYM_SIZE) ?sb) = take 24 (drop (sh_offset dynsym + 24 * i) file)"
    by (simp add: ac_consts drop_take min_def mult.commute add.commute)
  then show ?thesis
    using i n lt starts_with_drop_take [of _ "st_name ?y" "sh_size dynstr" "sh_offset dynstr" "file"]
    unfolding file_has_def by (metis (no_types, lifting))
qed

lemma elf_symbols_Overread:
  assumes "elf_symbols malloc file symbol dynsym dynstr = ElfOverread"
  shows "\<exists>n off tab k. pread_all file n off = Some tab \<and> k < length tab \<and> strcmp_at (drop k tab) symbol = None"
  using assms symbols_loop_Overread unfolding elf_symbols_def Let_def
  by (auto split: if_splits option.splits) blast

lemma elf_find_Found:
  assumes "elf_find_symbol_offset malloc file symbol = ElfFound off sz"
  shows "\<exists>tab dynsym dynstr. section_named tab SHT_DYNSYM ''.dynsym'' dynsym \<and>
     section_named tab SHT_STRTAB ''.dynstr'' dynstr \<and>
     elf_symbols malloc file symbol dynsym dynstr = ElfFound off sz"
proof -
  obtain tab ss dynsym dynstr where
    "sections_loop tab ss (None, None) = Some (Some dynsym, Some dynstr)"
    "elf_symbols malloc file symbol dynsym dynstr = ElfFound off sz"
    using assms unfolding elf_find_symbol_offset_def Let_def
    by (auto split: if_splits option.splits)
  with sections_loop_Some [OF this(1)] show ?thesis by auto
qed

lemma elf_find_Overread:
  assumes "elf_find_symbol_offset malloc file symbol = ElfOverread"
  shows "\<exists>n off tab k s. pread_all file n off = Some tab \<and> k < length tab \<and> strcmp_at (drop k tab) s = None \<and>
     s \<in> {''.dynsym'', ''.dynstr'', symbol}"
proof -
  consider n off tab ss st where "pread_all file n off = Some tab" "sections_loop tab ss st = None"
    | dynsym dynstr where "elf_symbols malloc file symbol dynsym dynstr = ElfOverread"
    using assms unfolding elf_find_symbol_offset_def Let_def
    by (auto split: if_splits option.splits)
  then show ?thesis
  proof cases
    case 1
    with sections_loop_None [OF 1(2)] show ?thesis by blast
  next
    case 2
    from elf_symbols_Overread [OF 2] show ?thesis by blast
  qed
qed

text \<open>The length compared is within the buffers.\<close>

lemma check_len_bounds: "8 \<le> check_len sz" "check_len sz \<le> 512"
  by (simp_all add: check_len_def ac_consts)

text \<open>The path through the root of the process is never cut.\<close>

lemma ns_path_full:
  assumes "- (2 ^ 31) \<le> pid" "pid < 2 ^ 31" "length libpath < AC_VMA_PATH"
  shows "ns_path pid libpath = ''/proc/'' @ show_int pid @ ''/root'' @ libpath"
proof -
  have "nat pid < 10 ^ 10" "nat (- pid) < 10 ^ 10" using assms by auto
  then have "length (show_int pid) \<le> 11"
    using length_show_nat [of "nat pid" 10] length_show_nat [of "nat (- pid)" 10] by (simp add: show_int_def)
  then show ?thesis using assms(3) by (simp add: ns_path_def snprintf_def ac_consts)
qed

subsection \<open>The lowest mapping of a library\<close>

definition lib_mapping :: "string \<Rightarrow> ac_vma_info \<Rightarrow> bool" where
  "lib_mapping pfx vi \<longleftrightarrow> vi_is_file vi \<and> vi_path vi \<noteq> [] \<and> starts_with pfx (basename (vi_path vi))"

definition lib_spec :: "string \<Rightarrow> ac_vma_info list \<Rightarrow> ac_lib_result \<Rightarrow> bool" where
  "lib_spec pfx vs r \<longleftrightarrow>
     (if \<exists>vi \<in> set vs. lib_mapping pfx vi
      then lr_found r \<and> (\<forall>vi \<in> set vs. lib_mapping pfx vi \<longrightarrow> lr_base r \<le> vi_start vi) \<and>
           (\<exists>vi \<in> set vs. lib_mapping pfx vi \<and> lr_base r = vi_start vi \<and> lr_path r = snprintf AC_VMA_PATH (vi_path vi))
      else r = no_lib)"

lemma libs_step_map:
  "length rs = length pfxs \<Longrightarrow> libs_step pfxs vi rs =
     map2 (\<lambda>p r. if lib_mapping p vi \<and> (\<not> lr_found r \<or> vi_start vi < lr_base r)
            then \<lparr>lr_found = True, lr_base = vi_start vi, lr_path = snprintf AC_VMA_PATH (vi_path vi)\<rparr> else r) pfxs rs"
  by (rule nth_equalityI)
    (auto simp: libs_step_def update_lib_def lib_mapping_def strncmp_eq_def starts_with_def)

lemma lib_spec_step:
  assumes "lib_spec p vs r"
  shows "lib_spec p (vs @ [vi])
    (if lib_mapping p vi \<and> (\<not> lr_found r \<or> vi_start vi < lr_base r)
     then \<lparr>lr_found = True, lr_base = vi_start vi, lr_path = snprintf AC_VMA_PATH (vi_path vi)\<rparr> else r)"
proof (cases "\<exists>v \<in> set vs. lib_mapping p v")
  case True
  with assms show ?thesis by (auto simp: lib_spec_def not_less)
next
  case False
  with assms show ?thesis by (auto simp: lib_spec_def no_lib_def)
qed

lemma fold_libs:
  assumes "length rs = length pfxs" "\<forall>k < length pfxs. lib_spec (pfxs ! k) done (rs ! k)"
  shows "length (fold (libs_step pfxs) vs rs) = length pfxs \<and>
    (\<forall>k < length pfxs. lib_spec (pfxs ! k) (done @ vs) (fold (libs_step pfxs) vs rs ! k))"
  using assms
proof (induction vs arbitrary: rs "done")
  case (Cons vi vs)
  have len: "length (libs_step pfxs vi rs) = length pfxs" using Cons.prems(1) by (simp add: libs_step_map)
  have "\<forall>k < length pfxs. lib_spec (pfxs ! k) (done @ [vi]) (libs_step pfxs vi rs ! k)"
    using Cons.prems lib_spec_step by (simp add: libs_step_map)
  from Cons.IH [OF len this] show ?case by simp
qed simp

subsection \<open>A small library file\<close>

definition shdr_bytes :: "u8 \<Rightarrow> u8 \<Rightarrow> u8 \<Rightarrow> u8 \<Rightarrow> u8 \<Rightarrow> u8 list" where
  "shdr_bytes name ty off sz ent =
     [name, 0, 0, 0, ty, 0, 0, 0] @ replicate 16 0 @ [off, 1, 0, 0, 0, 0, 0, 0] @ [sz, 0, 0, 0, 0, 0, 0, 0]
     @ replicate 16 0 @ [ent, 0, 0, 0, 0, 0, 0, 0]"

definition demo_ehdr :: "u8 list" where
  "demo_ehdr = [0x7f, 0x45, 0x4c, 0x46, 2, 1] @ replicate 34 0 @ [64, 0, 0, 0, 0, 0, 0, 0] @ replicate 10 0
     @ [64, 0, 3, 0, 0, 0]"

definition demo_names :: "u8 list" where
  "demo_names = [0, 0] @ map byte ''.dynsym'' @ [0] @ map byte ''.dynstr'' @ [0]"

definition demo_sym :: "u8 list" where
  "demo_sym = [2, 0, 0, 0, 0, 0, 0, 0] @ [0x2e, 1, 0, 0, 0, 0, 0, 0] @ [8, 0, 0, 0, 0, 0, 0, 0]"

text \<open>Three sections (the section names, one symbol \<open>f\<close>, its name), the last of them \<open>strsz\<close> bytes long,
  and eight bytes of code at offset 302.\<close>

definition demo_elf :: "nat \<Rightarrow> u8 list" where
  "demo_elf strsz =
     demo_ehdr @ shdr_bytes 0 3 0 18 0 @ shdr_bytes 2 11 18 24 24 @ shdr_bytes 10 3 42 (of_nat strsz) 0
     @ demo_names @ demo_sym @ [0, 0, byte CHR ''f'', 0] @ replicate 8 0x90"

lemma demo_lengths [simp]:
  "length (shdr_bytes a b c d e) = 64" "length demo_ehdr = 64" "length demo_names = 18" "length demo_sym = 24"
  by (simp_all add: shdr_bytes_def demo_ehdr_def demo_names_def demo_sym_def)

lemma demo_ehdr_decoded:
  "e_shoff (decode_ehdr demo_ehdr) = 64" "e_shnum (decode_ehdr demo_ehdr) = 3" "e_shstrndx (decode_ehdr demo_ehdr) = 0"
  "ehdr_ok (decode_ehdr demo_ehdr)"
  by (simp_all add: ehdr_ok_def decode_ehdr_def demo_ehdr_def field_def le_nat_def ac_consts)

lemma demo_shdrs_decoded:
  "decode_shdr (shdr_bytes 0 3 0 18 0) = \<lparr>sh_name = 0, sh_type = 3, sh_offset = 256, sh_size = 18, sh_entsize = 0\<rparr>"
  "decode_shdr (shdr_bytes 2 11 18 24 24) = \<lparr>sh_name = 2, sh_type = 11, sh_offset = 274, sh_size = 24, sh_entsize = 24\<rparr>"
  "decode_shdr (shdr_bytes 10 3 42 4 0) = \<lparr>sh_name = 10, sh_type = 3, sh_offset = 298, sh_size = 4, sh_entsize = 0\<rparr>"
  "decode_shdr (shdr_bytes 10 3 42 3 0) = \<lparr>sh_name = 10, sh_type = 3, sh_offset = 298, sh_size = 3, sh_entsize = 0\<rparr>"
  by (simp_all add: decode_shdr_def shdr_bytes_def field_def le_nat_def)

lemma demo_sym_decoded: "decode_sym demo_sym = \<lparr>st_name = 2, st_value = 302, st_size = 8\<rparr>"
  by (simp add: decode_sym_def demo_sym_def field_def le_nat_def)

lemma demo_sections:
  "strcmp_at (drop 2 demo_names) ''.dynsym'' = Some True" "strcmp_at (drop 10 demo_names) ''.dynstr'' = Some True"
  "strcmp_at (drop 0 demo_names) ''.dynstr'' = Some False"
  by (simp_all add: demo_names_def byte_def)

lemma demo_shdr_array:
  "array_of decode_shdr 64 3 (shdr_bytes 0 3 0 18 0 @ shdr_bytes 2 11 18 24 24 @ shdr_bytes 10 3 42 (of_nat n) 0)
     = [decode_shdr (shdr_bytes 0 3 0 18 0), decode_shdr (shdr_bytes 2 11 18 24 24), decode_shdr (shdr_bytes 10 3 42 (of_nat n) 0)]"
  by (simp add: array_of_def upt_rec)

lemma demo_find:
  assumes "n = 4 \<or> n = 3"
  shows "elf_find_symbol_offset (\<lambda>_. True) (demo_elf n) symbol =
    symbols_loop (take n [0, 0, byte CHR ''f'', 0]) symbol [\<lparr>st_name = 2, st_value = 302, st_size = 8\<rparr>]"
proof -
  have reads: "pread_all (demo_elf n) 64 0 = Some demo_ehdr"
    "pread_all (demo_elf n) 192 64
       = Some (shdr_bytes 0 3 0 18 0 @ shdr_bytes 2 11 18 24 24 @ shdr_bytes 10 3 42 (of_nat n) 0)"
    "pread_all (demo_elf n) 18 256 = Some demo_names" "pread_all (demo_elf n) 24 274 = Some demo_sym"
    "pread_all (demo_elf n) n 298 = Some (take n [0, 0, byte CHR ''f'', 0])"
    using assms by (auto simp: pread_all_def demo_elf_def)
  have sh: "decode_shdr (shdr_bytes 10 3 42 (of_nat n) 0) = \<lparr>sh_name = 10, sh_type = 3, sh_offset = 298, sh_size = n, sh_entsize = 0\<rparr>"
    using assms demo_shdrs_decoded by auto
  have sections: "sections_loop demo_names [decode_shdr (shdr_bytes 0 3 0 18 0), decode_shdr (shdr_bytes 2 11 18 24 24),
      decode_shdr (shdr_bytes 10 3 42 (of_nat n) 0)] (None, None)
    = Some (Some (decode_shdr (shdr_bytes 2 11 18 24 24)), Some (decode_shdr (shdr_bytes 10 3 42 (of_nat n) 0)))"
    using demo_sections by (simp add: sh demo_shdrs_decoded(1,2) ac_consts)
  have "elf_symbols (\<lambda>_. True) (demo_elf n) symbol (decode_shdr (shdr_bytes 2 11 18 24 24))
      (decode_shdr (shdr_bytes 10 3 42 (of_nat n) 0))
    = symbols_loop (take n [0, 0, byte CHR ''f'', 0]) symbol [\<lparr>st_name = 2, st_value = 302, st_size = 8\<rparr>]"
    using assms reads by (auto simp: elf_symbols_def sh demo_shdrs_decoded(2) ac_consts array_of_def demo_sym_decoded)
  then show ?thesis
    using reads sections
    by (simp add: elf_find_symbol_offset_def demo_ehdr_decoded demo_shdr_array demo_shdrs_decoded(1) ac_consts Let_def)
qed

lemma demo_lib_found: "elf_find_symbol_offset (\<lambda>_. True) (demo_elf 4) ''f'' = ElfFound 302 8"
  by (simp add: demo_find byte_def)

lemma demo_overread: "elf_find_symbol_offset (\<lambda>_. True) (demo_elf 3) ''f'' = ElfOverread"
  by (simp add: demo_find byte_def)

subsection \<open>Properties\<close>



text \<open>The comparison of a name can run past the end of its string table only when that table, as
  read from the file, does not end in a NUL byte; and such a file exists.\<close>

theorem elf_overread_unterminated:
  assumes "NUL \<notin> set symbol" "elf_find_symbol_offset malloc file symbol = ElfOverread"
  shows "(\<exists>n off tab. pread_all file n off = Some tab \<and> tab \<noteq> [] \<and> last tab \<noteq> 0) \<and>
    elf_find_symbol_offset (\<lambda>_. True) (demo_elf 3) ''f'' = ElfOverread"
proof -
  obtain n off tab k s where tab: "pread_all file n off = Some tab" "k < length tab"
    "strcmp_at (drop k tab) s = None" "s \<in> {''.dynsym'', ''.dynstr'', symbol}"
    using elf_find_Overread [OF assms(2)] by blast
  have "0 \<notin> byte ` set s" using assms(1) tab(4) by (auto simp: byte_zero NUL_def)
  then have "0 \<notin> set (drop k tab)" by (rule strcmp_at_None [OF tab(3)])
  then have "last (drop k tab) \<noteq> 0" using tab(2) by (metis drop_eq_Nil last_in_set leD)
  then have "last tab \<noteq> 0" using tab(2) by simp
  with tab(1,2) demo_overread show ?thesis by (metis list.size(3) not_less_zero)
qed

theorem elf_overread_unterminated_witness:
  "\<exists>n off tab. pread_all (demo_elf 3) n off = Some tab \<and> tab \<noteq> [] \<and> last tab \<noteq> 0"
  using elf_overread_unterminated [OF _ demo_overread] by (simp add: NUL_def)

text \<open>C38. For a symbol of usable size whose bytes are readable in the file and in the memory of the
  process, the check says hooked exactly when one of the bytes of the function differs, and clean
  otherwise; no more than 512 bytes are ever compared.\<close>

theorem render_check_detects:
  assumes "r_open e (ns_path pid libpath) = Some file"
    "elf_find_symbol_offset (r_malloc e) file symbol = ElfFound off sz"
    "8 \<le> sz" "sz \<le> 512" "off < 2 ^ 63" "off + sz \<le> length file"
    "r_mem e pid = Some mem" "length (mem (base + of_nat off) sz) = sz"
  shows "compare_render_symbol e pid libpath base symbol =
    Some (if \<exists>i < sz. file ! (off + i) \<noteq> mem (base + of_nat off) sz ! i then 1 else 0) \<and> check_len n \<le> 512"
proof -
  have len: "check_len sz = sz" using assms(3,4) by (simp add: check_len_def ac_consts)
  have "take sz (drop off file) \<noteq> mem (base + of_nat off) sz \<longleftrightarrow>
      (\<exists>i < sz. file ! (off + i) \<noteq> mem (base + of_nat off) sz ! i)"
    using assms(6,8) by (auto simp: list_eq_iff_nth_eq)
  then show ?thesis
    using assms len check_len_bounds(2) [of n] by (simp add: compare_render_symbol_def pread_all_def Let_def)
qed

definition demo_render :: "u8 list \<Rightarrow> render_env" where
  "demo_render code = \<lparr>r_open = (\<lambda>_. Some (demo_elf 4)), r_mem = (\<lambda>_. Some (\<lambda>_ n. take n code)), r_malloc = \<lambda>_. True\<rparr>"

lemma length_demo_elf: "length (demo_elf n) = 310"
  by (simp add: demo_elf_def)

theorem render_check_detects_witness:
  "compare_render_symbol (demo_render (0xe9 # replicate 7 0x90)) 1 ''/lib/libGL.so'' 0x1000 ''f'' = Some 1 \<and>
   compare_render_symbol (demo_render (replicate 8 0x90)) 1 ''/lib/libGL.so'' 0x1000 ''f'' = Some 0"
proof -
  have code: "drop 302 (demo_elf 4) = replicate 8 0x90" by (simp add: demo_elf_def)
  have nth: "demo_elf 4 ! (302 + i) = 0x90" if "i < 8" for i
  proof -
    have "demo_elf 4 ! (302 + i) = drop 302 (demo_elf 4) ! i" by (rule nth_drop [symmetric]) (simp add: length_demo_elf)
    also have "\<dots> = 0x90" unfolding code using that by (rule nth_replicate)
    finally show ?thesis .
  qed
  have "compare_render_symbol (demo_render c) 1 ''/lib/libGL.so'' 0x1000 ''f'' =
      Some (if \<exists>i < 8. demo_elf 4 ! (302 + i) \<noteq> take 8 c ! i then 1 else 0)" if "length c = 8" for c
    using render_check_detects [of "demo_render c" 1 "''/lib/libGL.so''" "demo_elf 4" "''f''" 302 8 "\<lambda>_ n. take n c" "0x1000"]
      demo_lib_found that by (simp add: demo_render_def length_demo_elf)
  moreover have "\<exists>i < 8. demo_elf 4 ! (302 + i) \<noteq> take 8 (0xe9 # replicate 7 0x90) ! i"
    by (rule exI [of _ 0]) (simp add: nth [of 0, simplified])
  moreover have "\<not> (\<exists>i < 8. demo_elf 4 ! (302 + i) \<noteq> take 8 (replicate 8 0x90) ! i)" using nth by simp
  ultimately show ?thesis by simp
qed

text \<open>Locating a library: it is found exactly when some file mapping has a base name with the given
  beginning; its base is the lowest start of those mappings, and its path the path of one of them.\<close>

theorem find_libs_lowest:
  assumes "find_libs_by_basenames pfxs (Some vs) = Some rs" "k < length pfxs"
  shows "length rs = length pfxs \<and> lib_spec (pfxs ! k) vs (rs ! k)"
proof -
  have init: "length (replicate (length pfxs) no_lib) = length pfxs"
    "\<forall>k < length pfxs. lib_spec (pfxs ! k) [] (replicate (length pfxs) no_lib ! k)"
    by (simp_all add: lib_spec_def)
  have "rs = fold (libs_step pfxs) vs (replicate (length pfxs) no_lib)"
    using assms(1) by (simp add: find_libs_by_basenames_def)
  with fold_libs [OF init, of vs] assms(2) show ?thesis by simp
qed

definition demo_map :: "u64 \<Rightarrow> ac_vma_info" where
  "demo_map a = \<lparr>vi_start = a, vi_end = a + 0x1000, vi_offset = 0, vi_inode = 1, vi_flags = 5, vi_is_file = True,
     vi_path = ''/usr/lib/libGL.so.1''\<rparr>"

theorem find_libs_lowest_witness:
  "find_libs_by_basenames [''libGL.so''] (Some [demo_map 0x5000, demo_map 0x4000])
     = Some [\<lparr>lr_found = True, lr_base = 0x4000, lr_path = ''/usr/lib/libGL.so.1''\<rparr>] \<and>
   lib_spec ''libGL.so'' [demo_map 0x5000, demo_map 0x4000] \<lparr>lr_found = True, lr_base = 0x4000, lr_path = ''/usr/lib/libGL.so.1''\<rparr>"
proof -
  have "find_libs_by_basenames [''libGL.so''] (Some [demo_map 0x5000, demo_map 0x4000])
     = Some [\<lparr>lr_found = True, lr_base = 0x4000, lr_path = ''/usr/lib/libGL.so.1''\<rparr>]"
    by (simp add: find_libs_by_basenames_def libs_step_def update_lib_def demo_map_def basename_def split_last_def
        strncmp_eq_def no_lib_def snprintf_def ac_consts)
  with find_libs_lowest [OF this, of 0] show ?thesis by simp
qed

end
