(* ===== verification/Sha256.thy ===== *)
theory Sha256
  imports AC_Prelude "HOL-Library.Monad_Syntax"
begin

unbundle bit_operations_syntax

text \<open>
  The SHA-256 implementation of src/src/sha256.c and its agreement with FIPS 180-4.

  The context is the C structure: the eight chaining words, the byte count, the 64-byte buffer and its
  fill level. The two loops that are not counted, in \<open>ac_sha256_update\<close> and \<open>ac_sha256_final\<close>, are
  partial functions whose value is \<^term>\<open>None\<close> if they do not end; that they end is proved.
\<close>

subsection \<open>The implementation\<close>

text \<open>The rows of the table as \<open>sha256.c\<close> has them.\<close>

definition K_table :: "u32 list" where
  "K_table = concat [
    [0x428a2f98, 0x71374491, 0xb5c0fbcf, 0xe9b5dba5, 0x3956c25b, 0x59f111f1],
    [0x923f82a4, 0xab1c5ed5, 0xd807aa98, 0x12835b01, 0x243185be, 0x550c7dc3],
    [0x72be5d74, 0x80deb1fe, 0x9bdc06a7, 0xc19bf174, 0xe49b69c1, 0xefbe4786],
    [0x0fc19dc6, 0x240ca1cc, 0x2de92c6f, 0x4a7484aa, 0x5cb0a9dc, 0x76f988da],
    [0x983e5152, 0xa831c66d, 0xb00327c8, 0xbf597fc7, 0xc6e00bf3, 0xd5a79147],
    [0x06ca6351, 0x14292967, 0x27b70a85, 0x2e1b2138, 0x4d2c6dfc, 0x53380d13],
    [0x650a7354, 0x766a0abb, 0x81c2c92e, 0x92722c85, 0xa2bfe8a1, 0xa81a664b],
    [0xc24b8b70, 0xc76c51a3, 0xd192e819, 0xd6990624, 0xf40e3585, 0x106aa070],
    [0x19a4c116, 0x1e376c08, 0x2748774c, 0x34b0bcb5, 0x391c0cb3, 0x4ed8aa4a],
    [0x5b9cca4f, 0x682e6ff3, 0x748f82ee, 0x78a5636f, 0x84c87814, 0x8cc70208],
    [0x90befffa, 0xa4506ceb, 0xbef9a3f7, 0xc67178f2]]"

definition rotr :: "u32 \<Rightarrow> nat \<Rightarrow> u32" where
  "rotr x n = (drop_bit n x OR push_bit (32 - n) x)"

definition be32 :: "u8 list \<Rightarrow> u32" where
  "be32 p = (push_bit 24 (ucast (p ! 0)) OR push_bit 16 (ucast (p ! 1)) OR
             push_bit 8 (ucast (p ! 2)) OR ucast (p ! 3))"

record ac_sha256_ctx =
  sha_h :: "u32 list"
  sha_len :: u64
  sha_buf :: "u8 list"
  sha_buflen :: nat

text \<open>The message schedule \<open>w\<close>: the loop for \<open>i\<close> from 0 to 15, then the loop from 16 to 63.\<close>

definition schedule_start :: "u8 list \<Rightarrow> u32 list" where
  "schedule_start p = map (\<lambda>i. be32 (drop (i * 4) p)) [0..<16]"

definition schedule_word :: "u32 list \<Rightarrow> nat \<Rightarrow> u32" where
  "schedule_word w i =
     (let s0 = rotr (w ! (i - 15)) 7 XOR rotr (w ! (i - 15)) 18 XOR drop_bit 3 (w ! (i - 15));
          s1 = rotr (w ! (i - 2)) 17 XOR rotr (w ! (i - 2)) 19 XOR drop_bit 10 (w ! (i - 2))
      in w ! (i - 16) + s0 + w ! (i - 7) + s1)"

definition schedule :: "u8 list \<Rightarrow> u32 list" where
  "schedule p = fold (\<lambda>i w. w @ [schedule_word w i]) [16..<64] (schedule_start p)"

type_synonym working = "u32 \<times> u32 \<times> u32 \<times> u32 \<times> u32 \<times> u32 \<times> u32 \<times> u32"

definition sha_round :: "u32 \<Rightarrow> u32 \<Rightarrow> working \<Rightarrow> working" where
  "sha_round k w s =
     (case s of (a, b, cc, d, e, f, g, h) \<Rightarrow>
        let S1 = rotr e 6 XOR rotr e 11 XOR rotr e 25;
            ch = (e AND f) XOR (NOT e AND g);
            t1 = h + S1 + ch + k + w;
            S0 = rotr a 2 XOR rotr a 13 XOR rotr a 22;
            maj = (a AND b) XOR (a AND cc) XOR (b AND cc);
            t2 = S0 + maj
        in (t1 + t2, a, b, cc, d + t1, e, f, g))"

definition ac_sha256_block :: "u8 list \<Rightarrow> u32 list \<Rightarrow> u32 list" where
  "ac_sha256_block p hs =
     (let w = schedule p;
          (a, b, cc, d, e, f, g, h) =
            fold (\<lambda>i. sha_round (K_table ! i) (w ! i)) [0..<64]
              (hs ! 0, hs ! 1, hs ! 2, hs ! 3, hs ! 4, hs ! 5, hs ! 6, hs ! 7)
      in [hs ! 0 + a, hs ! 1 + b, hs ! 2 + cc, hs ! 3 + d,
          hs ! 4 + e, hs ! 5 + f, hs ! 6 + g, hs ! 7 + h])"

definition sha_init_words :: "u32 list" where
  "sha_init_words = [0x6a09e667, 0xbb67ae85, 0x3c6ef372, 0xa54ff53a,
                     0x510e527f, 0x9b05688c, 0x1f83d9ab, 0x5be0cd19]"

text \<open>\<open>ac_sha256_init\<close> leaves the buffer as it was.\<close>

definition ac_sha256_init :: "u8 list \<Rightarrow> ac_sha256_ctx" where
  "ac_sha256_init buf = \<lparr>sha_h = sha_init_words, sha_len = 0, sha_buf = buf, sha_buflen = 0\<rparr>"

definition memcpy_at :: "nat \<Rightarrow> 'a list \<Rightarrow> 'a list \<Rightarrow> 'a list" where
  "memcpy_at off src dst = take off dst @ src @ drop (off + length src) dst"

text \<open>One pass of the loop of \<open>ac_sha256_update\<close>: copy what fits, compress a full buffer.\<close>

definition update_step :: "u8 list \<Rightarrow> ac_sha256_ctx \<Rightarrow> ac_sha256_ctx" where
  "update_step src c =
     (let c1 = c\<lparr>sha_buf := memcpy_at (sha_buflen c) src (sha_buf c),
                 sha_buflen := sha_buflen c + length src\<rparr>
      in if sha_buflen c1 = 64
         then c1\<lparr>sha_h := ac_sha256_block (sha_buf c1) (sha_h c1), sha_buflen := 0\<rparr>
         else c1)"

partial_function (option) update_loop :: "u8 list \<Rightarrow> ac_sha256_ctx \<Rightarrow> ac_sha256_ctx option" where
  "update_loop p c =
     (if p = [] then Some c
      else let n = min (64 - sha_buflen c) (length p)
           in update_loop (drop n p) (update_step (take n p) c))"

definition ac_sha256_update :: "u8 list \<Rightarrow> ac_sha256_ctx \<Rightarrow> ac_sha256_ctx option" where
  "ac_sha256_update data c = update_loop data (c\<lparr>sha_len := sha_len c + of_nat (length data)\<rparr>)"

partial_function (option) pad_loop :: "ac_sha256_ctx \<Rightarrow> ac_sha256_ctx option" where
  "pad_loop c =
     (if sha_buflen c \<noteq> 56 then Option.bind (ac_sha256_update [0] c) pad_loop else Some c)"

definition length_bytes :: "u64 \<Rightarrow> u8 list" where
  "length_bytes bits = map (\<lambda>i. ucast (drop_bit (56 - i * 8) bits)) [0..<8]"

definition word_bytes :: "u32 \<Rightarrow> u8 list" where
  "word_bytes x = [ucast (drop_bit 24 x), ucast (drop_bit 16 x), ucast (drop_bit 8 x), ucast x]"

definition ac_sha256_final :: "ac_sha256_ctx \<Rightarrow> u8 list option" where
  "ac_sha256_final c =
     (let lenbuf = length_bytes (sha_len c * 8) in
      do { c1 \<leftarrow> ac_sha256_update [0x80] c;
           c2 \<leftarrow> pad_loop c1;
           c3 \<leftarrow> ac_sha256_update lenbuf c2;
           Some (concat (map word_bytes (take 8 (sha_h c3)))) })"

definition hexd :: string where "hexd = ''0123456789abcdef''"

definition hex_byte :: "u8 \<Rightarrow> string" where
  "hex_byte d = [hexd ! unat (drop_bit 4 d), hexd ! unat (d AND 0xf)]"

definition ac_sha256_hex :: "u8 list \<Rightarrow> u8 list \<Rightarrow> string option" where
  "ac_sha256_hex stack buf =
     do { c \<leftarrow> ac_sha256_update buf (ac_sha256_init stack);
          d \<leftarrow> ac_sha256_final c;
          Some (concat (map hex_byte d)) }"

subsection \<open>The standard\<close>

text \<open>Section 4.1.2: the functions, on the library's rotation.\<close>

definition fips_Ch :: "u32 \<Rightarrow> u32 \<Rightarrow> u32 \<Rightarrow> u32" where
  "fips_Ch x y z = (x AND y) XOR (NOT x AND z)"

definition fips_Maj :: "u32 \<Rightarrow> u32 \<Rightarrow> u32 \<Rightarrow> u32" where
  "fips_Maj x y z = (x AND y) XOR (x AND z) XOR (y AND z)"

definition fips_Sigma0 :: "u32 \<Rightarrow> u32" where
  "fips_Sigma0 x = word_rotr 2 x XOR word_rotr 13 x XOR word_rotr 22 x"

definition fips_Sigma1 :: "u32 \<Rightarrow> u32" where
  "fips_Sigma1 x = word_rotr 6 x XOR word_rotr 11 x XOR word_rotr 25 x"

definition fips_sigma0 :: "u32 \<Rightarrow> u32" where
  "fips_sigma0 x = word_rotr 7 x XOR word_rotr 18 x XOR drop_bit 3 x"

definition fips_sigma1 :: "u32 \<Rightarrow> u32" where
  "fips_sigma1 x = word_rotr 17 x XOR word_rotr 19 x XOR drop_bit 10 x"

text \<open>Section 6.2.2: the schedule as a recursive function and the rounds.\<close>

fun fips_W :: "u8 list \<Rightarrow> nat \<Rightarrow> u32" where
  "fips_W p t =
     (if t < 16 then word_rcat (take 4 (drop (4 * t) p))
      else fips_sigma1 (fips_W p (t - 2)) + fips_W p (t - 7) + fips_sigma0 (fips_W p (t - 15))
           + fips_W p (t - 16))"

declare fips_W.simps [simp del]

fun fips_round :: "u8 list \<Rightarrow> nat \<Rightarrow> u32 list \<Rightarrow> u32 list" where
  "fips_round p t [a, b, c, d, e, f, g, h] =
     (let T1 = h + fips_Sigma1 e + fips_Ch e f g + K_table ! t + fips_W p t;
          T2 = fips_Sigma0 a + fips_Maj a b c
      in [T1 + T2, a, b, c, d + T1, e, f, g])"
| "fips_round p t hs = hs"

definition fips_block :: "u8 list \<Rightarrow> u32 list \<Rightarrow> u32 list" where
  "fips_block p hs = map2 (+) hs (fold (fips_round p) [0..<64] hs)"

text \<open>Section 5.1.1: padding. The length field has 64 bits; the standard covers messages of fewer than
  2^64 bits.\<close>

definition fips_pad :: "u8 list \<Rightarrow> u8 list" where
  "fips_pad msg = msg @ [0x80] @ replicate ((119 - length msg mod 64) mod 64) 0 @
                  length_bytes (of_nat (8 * length msg))"

fun blocks :: "'a list \<Rightarrow> 'a list list" where
  "blocks xs = (if length xs < 64 then [] else take 64 xs # blocks (drop 64 xs))"

declare blocks.simps [simp del]

definition sha256_spec :: "u8 list \<Rightarrow> u8 list" where
  "sha256_spec msg = concat (map word_bytes (fold fips_block (blocks (fips_pad msg)) sha_init_words))"

subsection \<open>The block function\<close>

declare upt_rec_numeral [simp del]

lemma rotr_word_rotr:
  assumes "n < 32"
  shows "rotr x n = word_rotr n x"
proof (rule bit_eqI)
  fix i assume "possible_bit TYPE(u32) i"
  then have i: "i < 32" by simp
  have "bit (word_rotr n x) i \<longleftrightarrow> bit x ((i + n) mod 32)"
    using i by (simp add: bit_word_rotr_iff)
  also have "\<dots> \<longleftrightarrow> bit (rotr x n) i"
    using i assms
    by (cases "i + n < 32") (auto simp: rotr_def bit_simps add.commute mod_if
        dest: bit_imp_le_length)
  finally show "bit (rotr x n) i \<longleftrightarrow> bit (word_rotr n x) i" by simp
qed

lemma be32_rcat: "be32 [a, b, c, d] = word_rcat [a, b, c, d]"
proof (rule bit_eqI)
  fix i assume "possible_bit TYPE(u32) i"
  then have "i < 32" by simp
  then consider "i < 8" | "8 \<le> i" "i < 16" | "16 \<le> i" "i < 24" | "24 \<le> i" "i < 32" by linarith
  then have "bit (be32 [a, b, c, d]) i \<longleftrightarrow>
      bit ([d, c, b, a] ! (i div 8)) (i mod 8)"
    by cases (auto simp: be32_def bit_simps nth_Cons' div_if mod_if le_div_geq le_mod_geq
        dest: bit_imp_le_length)
  moreover have "bit (word_rcat [a, b, c, d] :: u32) i \<longleftrightarrow> bit ([d, c, b, a] ! (i div 8)) (i mod 8)"
    using \<open>i < 32\<close> bit_horner_sum_uint_exp_iff [of "[d, c, b, a]" i]
    by (simp add: word_rcat_def bit_simps less_mult_imp_div_less del: horner_sum_simps)
  ultimately show "bit (be32 [a, b, c, d]) i \<longleftrightarrow> bit (word_rcat [a, b, c, d] :: u32) i" by simp
qed

lemma be32_take:
  assumes "4 \<le> length p"
  shows "be32 p = word_rcat (take 4 p)"
proof -
  obtain a b c d q where "p = a # b # c # d # q"
    using assms by (auto simp: numeral_eq_Suc Suc_le_length_iff)
  then show ?thesis using be32_rcat [of a b c d] by (simp add: be32_def)
qed

lemma schedule_prefix:
  assumes "length p = 64" "n \<le> 48"
  shows "fold (\<lambda>i w. w @ [schedule_word w i]) [16..<16 + n] (schedule_start p) = map (fips_W p) [0..<16 + n]"
  using assms(2)
proof (induction n)
  case 0
  have "be32 (drop (i * 4) p) = fips_W p i" if "i < 16" for i
    using that assms(1) be32_take [of "drop (i * 4) p"]
    by (simp add: fips_W.simps [of p i] mult.commute)
  then show ?case by (simp add: schedule_start_def)
next
  case (Suc n)
  let ?w = "map (fips_W p) [0..<16 + n]"
  have "schedule_word ?w (16 + n) = fips_W p (16 + n)"
    by (simp add: schedule_word_def Let_def fips_W.simps [of p "16 + n"] fips_sigma0_def fips_sigma1_def
        rotr_word_rotr nth_append)
  moreover have "[m..<16 + Suc n] = [m..<16 + n] @ [16 + n]" if "m \<le> 16" for m
    using that unfolding add_Suc_right by (subst upt_Suc_append) simp_all
  ultimately show ?case using Suc by (simp only: fold_append map_append) simp
qed

lemma schedule_eq: "length p = 64 \<Longrightarrow> schedule p = map (fips_W p) [0..<64]"
  using schedule_prefix [of p 48] by (simp add: schedule_def)

definition working_list :: "working \<Rightarrow> u32 list" where
  "working_list s = (case s of (a, b, cc, d, e, f, g, h) \<Rightarrow> [a, b, cc, d, e, f, g, h])"

lemma working_cases:
  fixes s :: working
  obtains a b c d e f g h where "s = (a, b, c, d, e, f, g, h)"
proof (cases s)
  case (fields a b c d e f gh)
  then show ?thesis using that by (cases gh) simp
qed

lemma sha_round_list:
  "working_list (sha_round (K_table ! t) (fips_W p t) s) = fips_round p t (working_list s)"
proof -
  obtain a b c d e f g h where "s = (a, b, c, d, e, f, g, h)" by (rule working_cases)
  then show ?thesis
    by (simp add: sha_round_def working_list_def Let_def fips_Sigma0_def fips_Sigma1_def
        fips_Ch_def fips_Maj_def rotr_word_rotr)
qed

lemma fold_sha_round:
  assumes "set is \<subseteq> {0..<64}"
  shows "working_list (fold (\<lambda>i. sha_round (K_table ! i) (map (fips_W p) [0..<64] ! i)) is s)
    = fold (fips_round p) is (working_list s)"
  using assms by (induction "is" arbitrary: s) (simp_all add: sha_round_list)

lemma length_8:
  assumes "length hs = 8"
  obtains a b c d e f g h where "hs = [a, b, c, d, e, f, g, h]"
  using assms by (auto simp: numeral_eq_Suc length_Suc_conv)

lemma ac_sha256_block_eq:
  assumes "length p = 64" "length hs = 8"
  shows "ac_sha256_block p hs = fips_block p hs"
proof -
  from assms(2) obtain a b c d e f g h where hs: "hs = [a, b, c, d, e, f, g, h]" by (rule length_8)
  let ?s = "fold (\<lambda>i. sha_round (K_table ! i) (schedule p ! i)) [0..<64] (a, b, c, d, e, f, g, h)"
  obtain a' b' c' d' e' f' g' h' where s: "?s = (a', b', c', d', e', f', g', h')"
    by (rule working_cases)
  have "fold (fips_round p) [0..<64] hs = [a', b', c', d', e', f', g', h']"
    using fold_sha_round [of "[0..<64]" p "(a, b, c, d, e, f, g, h)"] s schedule_eq [OF assms(1)]
    by (simp add: working_list_def hs)
  then show ?thesis using s by (simp add: ac_sha256_block_def fips_block_def hs Let_def)
qed

subsection \<open>Streaming\<close>

lemma blocks_short [simp]: "length xs < 64 \<Longrightarrow> blocks xs = []"
  by (simp add: blocks.simps)

lemma blocks_single [simp]: "length xs = 64 \<Longrightarrow> blocks xs = [xs]"
  by (simp add: blocks.simps [of xs])

lemma blocks_append: "64 dvd length xs \<Longrightarrow> blocks (xs @ ys) = blocks xs @ blocks ys"
proof (induction xs rule: blocks.induct)
  case (1 xs)
  show ?case
  proof (cases "length xs < 64")
    case True
    with 1(2) have "xs = []" by (auto elim: dvdE)
    then show ?thesis by simp
  next
    case False
    then have "64 dvd length (drop 64 xs)" using 1(2) by (simp add: dvd_diff_nat)
    with 1(1) False have IH: "blocks (drop 64 xs @ ys) = blocks (drop 64 xs) @ blocks ys" by simp
    have "blocks (xs @ ys) = take 64 xs # blocks (drop 64 xs @ ys)"
      using False by (simp add: blocks.simps [of "xs @ ys"])
    also have "\<dots> = blocks xs @ blocks ys" using False IH by (simp add: blocks.simps [of xs])
    finally show ?thesis .
  qed
qed

lemma blocks_length: "b \<in> set (blocks xs) \<Longrightarrow> length b = 64"
proof (induction xs rule: blocks.induct)
  case (1 xs)
  then show ?case by (cases "length xs < 64") (auto simp: blocks.simps [of xs])
qed

text \<open>A context represents the bytes hashed so far: full blocks are compressed, the rest is buffered.\<close>

definition ctx_repr :: "ac_sha256_ctx \<Rightarrow> u8 list \<Rightarrow> bool" where
  "ctx_repr c msg \<longleftrightarrow> (\<exists>full rest. msg = full @ rest \<and> 64 dvd length full \<and> length rest < 64 \<and>
     sha_h c = fold ac_sha256_block (blocks full) sha_init_words \<and> sha_buflen c = length rest \<and>
     take (length rest) (sha_buf c) = rest \<and> length (sha_buf c) = 64)"

lemma ctx_reprI:
  assumes "msg = full @ rest" "64 dvd length full" "length rest < 64"
    "sha_h c = fold ac_sha256_block (blocks full) sha_init_words" "sha_buflen c = length rest"
    "take (length rest) (sha_buf c) = rest" "length (sha_buf c) = 64"
  shows "ctx_repr c msg"
  using assms unfolding ctx_repr_def by blast

lemma ctx_reprE:
  assumes "ctx_repr c msg"
  obtains full rest where "msg = full @ rest" "64 dvd length full" "length rest < 64"
    "sha_h c = fold ac_sha256_block (blocks full) sha_init_words" "sha_buflen c = length rest"
    "take (length rest) (sha_buf c) = rest" "length (sha_buf c) = 64"
  using assms unfolding ctx_repr_def by blast

lemma ctx_repr_init: "length buf = 64 \<Longrightarrow> ctx_repr (ac_sha256_init buf) []"
  by (rule ctx_reprI [of _ "[]" "[]"]) (simp_all add: ac_sha256_init_def)

lemma ctx_repr_len [simp]: "ctx_repr (c\<lparr>sha_len := n\<rparr>) msg = ctx_repr c msg"
  by (simp add: ctx_repr_def)

lemma ctx_repr_buflen:
  assumes "ctx_repr c msg"
  shows "sha_buflen c = length msg mod 64" "sha_buflen c < 64"
  using assms by (auto elim!: ctx_reprE)

lemma update_step_repr:
  assumes "ctx_repr c msg" "sha_buflen c + length src \<le> 64"
  shows "ctx_repr (update_step src c) (msg @ src)"
proof -
  obtain full rest where r: "msg = full @ rest" "64 dvd length full" "length rest < 64"
    "sha_h c = fold ac_sha256_block (blocks full) sha_init_words" "sha_buflen c = length rest"
    "take (length rest) (sha_buf c) = rest" "length (sha_buf c) = 64"
    using assms(1) by (rule ctx_reprE)
  let ?buf = "memcpy_at (length rest) src (sha_buf c)"
  have buf: "length ?buf = 64" "take (length rest + length src) ?buf = rest @ src"
    using r(6,7) assms(2) r(5) by (simp_all add: memcpy_at_def)
  show ?thesis
  proof (cases "length rest + length src = 64")
    case True
    with buf have "?buf = rest @ src" by simp
    moreover have "blocks (full @ rest @ src) = blocks full @ [rest @ src]"
      using r(2) True by (simp add: blocks_append)
    ultimately show ?thesis
      using True r buf(1)
      by (intro ctx_reprI [of _ "full @ rest @ src" "[]"])
        (simp_all add: update_step_def Let_def)
  next
    case False
    with r buf assms(2) show ?thesis
      by (intro ctx_reprI [of _ full "rest @ src"]) (simp_all add: update_step_def Let_def)
  qed
qed

lemma update_step_sel [simp]: "sha_len (update_step src c) = sha_len c"
  by (simp add: update_step_def Let_def)

lemma update_loop_repr:
  assumes "ctx_repr c msg"
  shows "\<exists>c'. update_loop p c = Some c' \<and> ctx_repr c' (msg @ p) \<and> sha_len c' = sha_len c"
  using assms
proof (induction "length p" arbitrary: p c msg rule: less_induct)
  case less
  show ?case
  proof (cases "p = []")
    case True
    with less(2) show ?thesis by (simp add: update_loop.simps)
  next
    case False
    define n where "n = min (64 - sha_buflen c) (length p)"
    have n: "0 < n" "n \<le> length p" "sha_buflen c + n \<le> 64"
      using False ctx_repr_buflen(2) [OF less(2)] by (auto simp: n_def)
    have "ctx_repr (update_step (take n p) c) (msg @ take n p)"
      using less(2) n by (intro update_step_repr) simp_all
    from less(1) [OF _ this, of "drop n p"] n False
    obtain c' where "update_loop (drop n p) (update_step (take n p) c) = Some c'"
        "ctx_repr c' (msg @ p)" "sha_len c' = sha_len c"
      by auto
    then show ?thesis
      using False by (subst update_loop.simps) (simp add: Let_def n_def)
  qed
qed

lemma ac_sha256_update_repr:
  assumes "ctx_repr c msg"
  shows "\<exists>c'. ac_sha256_update p c = Some c' \<and> ctx_repr c' (msg @ p) \<and>
              sha_len c' = sha_len c + of_nat (length p)"
  using update_loop_repr [of "c\<lparr>sha_len := sha_len c + of_nat (length p)\<rparr>" msg p] assms
  by (simp add: ac_sha256_update_def)

lemma pad_count: "x < 64 \<Longrightarrow> (120 - x) mod 64 = (if 56 < x then 120 - x else 56 - (x :: nat))"
  by (simp add: mod_if)

lemma pad_count_Suc: "x < 64 \<Longrightarrow> (119 - x) mod 64 = (if 55 < x then 119 - x else 55 - (x :: nat))"
  by (simp add: mod_if)

lemma pad_loop_repr:
  assumes "ctx_repr c msg"
  shows "\<exists>c'. pad_loop c = Some c' \<and> ctx_repr c' (msg @ replicate ((120 - length msg mod 64) mod 64) 0)"
  using assms
proof (induction "(120 - length msg mod 64) mod 64" arbitrary: c msg)
  case 0
  then have "length msg mod 64 = 56" by (simp add: pad_count split: if_splits)
  with ctx_repr_buflen(1) [OF 0(2)] 0 show ?case by (subst pad_loop.simps) simp
next
  case (Suc k)
  obtain c1 where c1: "ac_sha256_update [0] c = Some c1" "ctx_repr c1 (msg @ [0])"
    using ac_sha256_update_repr [OF Suc(3)] by blast
  have ne: "sha_buflen c \<noteq> 56" using Suc(2) ctx_repr_buflen(1) [OF Suc(3)] by auto
  have k: "k = (120 - length (msg @ [0::u8]) mod 64) mod 64"
    using Suc(2) by (auto simp: pad_count pad_count_Suc mod_Suc split: if_splits)
  from Suc(1) [OF k c1(2)] obtain c' where "pad_loop c1 = Some c'"
      "ctx_repr c' ((msg @ [0]) @ replicate ((120 - length (msg @ [0::u8]) mod 64) mod 64) 0)"
    by blast
  moreover have "(msg @ [0]) @ replicate ((120 - length (msg @ [0::u8]) mod 64) mod 64) 0
      = msg @ replicate ((120 - length msg mod 64) mod 64) 0"
    unfolding k [symmetric] Suc(2) [symmetric] by simp
  ultimately show ?case using ne c1(1) by (subst pad_loop.simps) simp
qed

lemma length_ac_sha256_block [simp]: "length (ac_sha256_block p hs) = 8"
  by (simp add: ac_sha256_block_def Let_def split: prod.split)

lemma fold_block_eq:
  assumes "length hs = 8" "\<forall>b \<in> set bs. length b = 64"
  shows "fold ac_sha256_block bs hs = fold fips_block bs hs \<and> length (fold ac_sha256_block bs hs) = 8"
  using assms
proof (induction bs arbitrary: hs)
  case (Cons b bs)
  then have "ac_sha256_block b hs = fips_block b hs" by (intro ac_sha256_block_eq) simp_all
  with Cons show ?case by (metis fold_simps(2) length_ac_sha256_block list.set_intros(2))
qed simp

lemma length_length_bytes [simp]: "length (length_bytes b) = 8"
  by (simp add: length_bytes_def)

lemma fips_pad_split:
  "fips_pad msg = ((msg @ [0x80]) @ replicate ((120 - length (msg @ [0x80::u8]) mod 64) mod 64) 0)
     @ length_bytes (of_nat (8 * length msg))"
proof -
  have "(120 - length (msg @ [0x80::u8]) mod 64) mod 64 = (119 - length msg mod 64) mod 64"
    by (simp add: mod_Suc pad_count_Suc)
  then show ?thesis by (simp add: fips_pad_def)
qed

lemma length_fips_pad: "64 dvd length (fips_pad msg)"
proof -
  let ?n = "length (msg @ [0x80::u8])"
  have "(?n + (120 - ?n mod 64) mod 64) mod 64 = (?n mod 64 + (120 - ?n mod 64) mod 64) mod 64"
    by (simp add: mod_add_left_eq)
  also have "\<dots> = 56" by (simp add: pad_count)
  finally have "(?n + (120 - ?n mod 64) mod 64) mod 64 = 56" .
  then have "(?n + (120 - ?n mod 64) mod 64 + 8) mod 64 = 0"
    using mod_add_left_eq [of "?n + (120 - ?n mod 64) mod 64" 64 8] by simp
  then have "64 dvd ?n + (120 - ?n mod 64) mod 64 + 8" by (rule mod_0_imp_dvd)
  then show ?thesis unfolding fips_pad_split by (simp only: length_append length_replicate length_length_bytes)
qed

lemma ac_sha256_final_spec:
  assumes "ctx_repr c msg" "sha_len c = of_nat (length msg)"
  shows "ac_sha256_final c = Some (sha256_spec msg)"
proof -
  obtain c1 where c1: "ac_sha256_update [0x80] c = Some c1" "ctx_repr c1 (msg @ [0x80])"
    using ac_sha256_update_repr [OF assms(1)] by blast
  obtain c2 where c2: "pad_loop c1 = Some c2"
      "ctx_repr c2 ((msg @ [0x80]) @ replicate ((120 - length (msg @ [0x80::u8]) mod 64) mod 64) 0)"
    using pad_loop_repr [OF c1(2)] by blast
  have bits: "sha_len c * 8 = of_nat (8 * length msg)" using assms(2) by (simp add: mult.commute)
  obtain c3 where c3: "ac_sha256_update (length_bytes (sha_len c * 8)) c2 = Some c3"
      "ctx_repr c3 (fips_pad msg)"
    unfolding bits fips_pad_split using ac_sha256_update_repr [OF c2(2)] by blast
  from c3(2) obtain full rest where r: "fips_pad msg = full @ rest" "64 dvd length full"
      "length rest < 64" "sha_h c3 = fold ac_sha256_block (blocks full) sha_init_words"
    by (rule ctx_reprE)
  have "64 dvd length rest" using length_fips_pad [of msg] r(1,2) by (simp add: dvd_add_right_iff)
  with r(3) have "rest = []" by (meson dvd_imp_le length_greater_0_conv not_less)
  with r(1) have full: "full = fips_pad msg" by simp
  have "length sha_init_words = 8" by (simp add: sha_init_words_def)
  from fold_block_eq [OF this, of "blocks full"] blocks_length
  have "sha_h c3 = fold fips_block (blocks (fips_pad msg)) sha_init_words" "length (sha_h c3) = 8"
    unfolding r(4) full by blast+
  then show ?thesis
    using c1(1) c2(1) c3(1) by (simp add: ac_sha256_final_def Let_def sha256_spec_def)
qed

lemma updates_repr:
  assumes "ctx_repr c msg"
  shows "\<exists>c'. fold (\<lambda>d oc. Option.bind oc (ac_sha256_update d)) ds (Some c) = Some c' \<and>
    ctx_repr c' (msg @ concat ds) \<and> sha_len c' = sha_len c + of_nat (length (concat ds))"
  using assms
proof (induction ds arbitrary: c msg)
  case (Cons d ds)
  obtain c1 where c1: "ac_sha256_update d c = Some c1" "ctx_repr c1 (msg @ d)"
      "sha_len c1 = sha_len c + of_nat (length d)"
    using ac_sha256_update_repr [OF Cons(2)] by blast
  with Cons(1) [OF c1(2)] show ?case by (auto simp: add.assoc)
qed simp

lemma sha256_final_updates:
  assumes "length stack = 64"
  shows "Option.bind (fold (\<lambda>d oc. Option.bind oc (ac_sha256_update d)) ds (Some (ac_sha256_init stack)))
           ac_sha256_final = Some (sha256_spec (concat ds))"
proof -
  obtain c' where "fold (\<lambda>d oc. Option.bind oc (ac_sha256_update d)) ds (Some (ac_sha256_init stack)) = Some c'"
      "ctx_repr c' (concat ds)" "sha_len c' = of_nat (length (concat ds))"
    using updates_repr [OF ctx_repr_init [OF assms], of ds] by (auto simp: ac_sha256_init_def)
  then show ?thesis by (simp add: ac_sha256_final_spec)
qed

subsection \<open>Hexadecimal output\<close>

lemma length_hexd: "length hexd = 16"
  by (simp add: hexd_def)

lemma distinct_hexd: "distinct hexd"
  by (simp add: hexd_def)

lemma nibble_bounds: "unat (drop_bit 4 (d :: u8)) < 16" "unat (d AND 0xf) < 16"
proof -
  have "unat d < 256" using unsigned_less [of d, where 'a = nat] by simp
  then show "unat (drop_bit 4 d) < 16" unfolding unat_drop_bit_eq by (simp add: drop_bit_eq_div)
  have "d AND 0xf = take_bit 4 d" by (simp add: take_bit_eq_mask mask_eq_exp_minus_1)
  then show "unat (d AND 0xf) < 16" by (simp add: take_bit_eq_mod unat_mod)
qed

lemma nibbles_inj:
  assumes "drop_bit 4 (d :: u8) = drop_bit 4 e" "d AND 0xf = e AND 0xf"
  shows "d = e"
proof -
  have "d AND 0xf = take_bit 4 d" "e AND 0xf = take_bit 4 e"
    by (simp_all add: take_bit_eq_mask mask_eq_exp_minus_1)
  with assms show ?thesis by (metis bits_ident)
qed

lemma hex_byte_inj:
  assumes "hex_byte d = hex_byte e"
  shows "d = e"
proof -
  from assms have "hexd ! unat (drop_bit 4 d) = hexd ! unat (drop_bit 4 e)"
    "hexd ! unat (d AND 0xf) = hexd ! unat (e AND 0xf)"
    by (simp_all add: hex_byte_def)
  then have "unat (drop_bit 4 d) = unat (drop_bit 4 e)" "unat (d AND 0xf) = unat (e AND 0xf)"
    using nth_eq_iff_index_eq [OF distinct_hexd] nibble_bounds by (metis length_hexd)+
  then show ?thesis using nibbles_inj by (metis word_unat_eq_iff)
qed

lemma length_hex_byte [simp]: "length (hex_byte d) = 2"
  by (simp add: hex_byte_def)

lemma hex_inj:
  "concat (map hex_byte ds) = concat (map hex_byte es) \<Longrightarrow> length ds = length es \<Longrightarrow> ds = es"
proof (induction ds es rule: list_induct2')
  case (4 d ds e es)
  then have "hex_byte d = hex_byte e" "concat (map hex_byte ds) = concat (map hex_byte es)"
    by (simp_all add: hex_byte_def)
  with 4 show ?case by (simp add: hex_byte_inj)
qed simp_all

lemma length_hex: "length (concat (map hex_byte ds)) = 2 * length ds"
  by (induction ds) simp_all

lemma set_hex: "set (concat (map hex_byte ds)) \<subseteq> set hexd"
  using nibble_bounds length_hexd by (auto simp: hex_byte_def)

lemma length_sha256_spec [simp]: "length (sha256_spec msg) = 32"
proof -
  have "length sha_init_words = 8" by (simp add: sha_init_words_def)
  from fold_block_eq [OF this, of "blocks (fips_pad msg)"] blocks_length
  have l: "length (fold fips_block (blocks (fips_pad msg)) sha_init_words) = 8" by metis
  have "length (concat (map word_bytes ws)) = 4 * length ws" for ws
    by (induction ws) (simp_all add: word_bytes_def)
  with l show ?thesis by (simp add: sha256_spec_def)
qed

lemma ac_sha256_hex_spec:
  assumes "length stack = 64"
  shows "ac_sha256_hex stack buf = Some (concat (map hex_byte (sha256_spec buf)))"
  using sha256_final_updates [OF assms, of "[buf]"]
  by (auto simp: ac_sha256_hex_def bind_eq_Some_conv)

subsection \<open>The constants\<close>

definition first_primes :: "int list" where
  "first_primes = [
    2, 3, 5, 7, 11, 13, 17, 19, 23, 29, 31, 37, 41, 43, 47, 53,
    59, 61, 67, 71, 73, 79, 83, 89, 97, 101, 103, 107, 109, 113, 127, 131,
    137, 139, 149, 151, 157, 163, 167, 173, 179, 181, 191, 193, 197, 199, 211, 223,
    227, 229, 233, 239, 241, 251, 257, 263, 269, 271, 277, 281, 283, 293, 307, 311]"

text \<open>The first 32 bits of the fractional part of a root: \<open>n = c * 2^32 + k\<close> is the integer part of the
  root of \<open>p\<close> scaled by \<open>2^32\<close>, where \<open>c\<close> is the integer part of the root itself.\<close>

definition frac_cube_root :: "int \<Rightarrow> u32 \<Rightarrow> bool" where
  "frac_cube_root p k =
     (let c = (if p < 8 then 1 else if p < 27 then 2 else if p < 64 then 3 else if p < 125 then 4
               else if p < 216 then 5 else 6);
          n = c * 2 ^ 32 + uint k
      in n * n * n \<le> p * 2 ^ 96 \<and> p * 2 ^ 96 < (n + 1) * (n + 1) * (n + 1))"

definition frac_square_root :: "int \<Rightarrow> u32 \<Rightarrow> bool" where
  "frac_square_root p k =
     (let c = (if p < 4 then 1 else if p < 9 then 2 else if p < 16 then 3 else 4);
          n = c * 2 ^ 32 + uint k
      in n * n \<le> p * 2 ^ 64 \<and> p * 2 ^ 64 < (n + 1) * (n + 1))"

lemma K_constants: "list_all2 frac_cube_root first_primes K_table"
  by (simp add: first_primes_def K_table_def frac_cube_root_def)

lemma H_constants: "list_all2 frac_square_root (take 8 first_primes) sha_init_words"
  by (simp add: first_primes_def sha_init_words_def frac_square_root_def)


subsection \<open>The test vector of the standard\<close>

text \<open>The padded message "abc" is one block.\<close>

definition abc_block :: "u8 list" where
  "abc_block = 0x61 # 0x62 # 0x63 # 0x80 # replicate 59 0 @ [24]"

lemma abc_compressed:
  "ac_sha256_block abc_block sha_init_words =
     [0xba7816bf, 0x8f01cfea, 0x414140de, 0x5dae2223, 0xb00361a3, 0x96177a9c, 0xb410ff61, 0xf20015ad]"
  by code_simp

lemma abc_padded: "fips_pad [0x61, 0x62, 0x63] = abc_block"
proof -
  have "length_bytes 24 = replicate 7 0 @ [24]" by code_simp
  moreover have "replicate 52 (0::u8) @ replicate 7 0 = replicate 59 0" by (simp flip: replicate_add)
  ultimately show ?thesis by (simp add: fips_pad_def abc_block_def flip: append_assoc)
qed

lemma abc_digest:
  "concat (map hex_byte (sha256_spec [0x61, 0x62, 0x63])) =
     ''ba7816bf8f01cfea414140de5dae2223b00361a396177a9cb410ff61f20015ad''"
proof -
  have "blocks abc_block = [abc_block]" by (rule blocks_single) (simp add: abc_block_def)
  moreover have "fips_block abc_block sha_init_words = ac_sha256_block abc_block sha_init_words"
    by (rule ac_sha256_block_eq [symmetric]) (simp_all add: abc_block_def sha_init_words_def)
  ultimately have "sha256_spec [0x61, 0x62, 0x63] = concat (map word_bytes
     [0xba7816bf, 0x8f01cfea, 0x414140de, 0x5dae2223, 0xb00361a3, 0x96177a9c, 0xb410ff61, 0xf20015ad])"
    unfolding sha256_spec_def abc_padded by (simp only: fold_simps abc_compressed)
  moreover have "concat (map hex_byte (concat (map word_bytes
     [0xba7816bf, 0x8f01cfea, 0x414140de, 0x5dae2223, 0xb00361a3, 0x96177a9c, 0xb410ff61, 0xf20015ad]))) =
     ''ba7816bf8f01cfea414140de5dae2223b00361a396177a9cb410ff61f20015ad''"
    by code_simp
  ultimately show ?thesis by simp
qed

subsection \<open>Properties\<close>

text \<open>C31. The compression function of the code is that of FIPS 180-4: its schedule array and its eight
  rotating variables compute the standard's recursive schedule and rounds, for every block and every
  chaining value.\<close>

theorem sha256_block_fips:
  assumes "length p = 64" "length hs = 8"
  shows "ac_sha256_block p hs = fips_block p hs"
  using assms by (rule ac_sha256_block_eq)

theorem sha256_block_fips_witness:
  "fips_block abc_block sha_init_words =
     [0xba7816bf, 0x8f01cfea, 0x414140de, 0x5dae2223, 0xb00361a3, 0x96177a9c, 0xb410ff61, 0xf20015ad]"
  using sha256_block_fips [of abc_block sha_init_words] abc_compressed
  by (simp add: abc_block_def sha_init_words_def)

text \<open>C9. Hashing a message in any pieces ends and gives its SHA-256 digest: starting from a context
  whose buffer holds anything, any sequence of updates followed by the final call returns, and what it
  returns is the standard's digest of the concatenated pieces, padding and length field included.\<close>

theorem sha256_streaming:
  assumes "length stack = 64"
  shows "Option.bind (fold (\<lambda>d oc. Option.bind oc (ac_sha256_update d)) ds (Some (ac_sha256_init stack)))
           ac_sha256_final = Some (sha256_spec (concat ds))"
  using assms by (rule sha256_final_updates)

theorem sha256_streaming_witness:
  "Option.bind (fold (\<lambda>d oc. Option.bind oc (ac_sha256_update d)) [[0x61], [0x62, 0x63]]
       (Some (ac_sha256_init (replicate 64 0)))) ac_sha256_final = Some (sha256_spec [0x61, 0x62, 0x63])"
  using sha256_streaming [of "replicate 64 0" "[[0x61], [0x62, 0x63]]"] by simp

text \<open>The one-shot function writes the 64 lower-case hexadecimal digits of the digest, and two
  outputs are equal only if the digests are: comparing the strings of a baseline compares digests.\<close>

theorem sha256_hex_faithful:
  assumes "length stack = 64" "length stack' = 64"
  shows "\<exists>s s'. ac_sha256_hex stack buf = Some s \<and> ac_sha256_hex stack' buf' = Some s' \<and>
    length s = 64 \<and> set s \<subseteq> set ''0123456789abcdef'' \<and> s = concat (map hex_byte (sha256_spec buf)) \<and>
    (s = s' \<longleftrightarrow> sha256_spec buf = sha256_spec buf')"
  using assms hex_inj [of "sha256_spec buf" "sha256_spec buf'"] set_hex [of "sha256_spec buf"]
  by (auto simp: ac_sha256_hex_spec length_hex hexd_def [symmetric])

theorem sha256_hex_faithful_witness:
  "ac_sha256_hex (replicate 64 0) [0x61, 0x62, 0x63] =
     Some ''ba7816bf8f01cfea414140de5dae2223b00361a396177a9cb410ff61f20015ad''"
  using sha256_hex_faithful [of "replicate 64 0" "replicate 64 0" "[0x61, 0x62, 0x63]" "[]"] abc_digest
  by auto

text \<open>C32. The constants are those of the standard: \<open>K\<close> holds the first 32 bits of the fractional
  parts of the cube roots of the first 64 primes, the initial chaining value those of the square roots
  of the first 8.\<close>

theorem sha256_constants:
  "list_all2 frac_cube_root first_primes K_table \<and>
   list_all2 frac_square_root (take 8 first_primes) sha_init_words"
  using K_constants H_constants by blast

end
