(* ===== verification/Daemon_Baseline.thy ===== *)
theory Daemon_Baseline
  imports Fd_Snapshots Daemon_Report Sha256
begin

text \<open>
  Memory baselines: hashing a range of another process's memory in chunks (\<open>hash_proc_mem\<close>), the file
  a baseline is kept in (\<open>ac_baseline_dir\<close>, \<open>baseline_path_for\<close>), the line written by
  \<open>scan --hash --save\<close> and read back by \<open>scan --hash --check\<close> and by the periodic check.

  Every \<open>pread\<close> is a parameter: it may be interrupted, fail, or return fewer bytes than asked for.
  The lemmas show that a digest is produced exactly when the whole range was read, that it is the
  SHA-256 digest of those bytes, and that a saved line reads back as what was saved.
\<close>

subsection \<open>Hashing memory\<close>

definition AC_HASH_CAP :: nat where [ac_consts]: "AC_HASH_CAP = 16 * 1024 * 1024"
definition AC_READ_CHUNK :: nat where [ac_consts]: "AC_READ_CHUNK = 1024 * 1024"

datatype pread_result = PBytes "u8 list" | PIntr | PError

text \<open>The reading loop: \<open>rd n a w\<close> is the result of the \<open>n\<close>-th \<open>pread\<close>, of \<open>w\<close> bytes at address \<open>a\<close>.
  The result is None while it does not return, Some None when a read failed, and otherwise how far
  it came and the hash context.\<close>

partial_function (option) hash_loop ::
  "(nat \<Rightarrow> u64 \<Rightarrow> nat \<Rightarrow> pread_result) \<Rightarrow> nat \<Rightarrow> u64 \<Rightarrow> nat \<Rightarrow> nat \<Rightarrow> ac_sha256_ctx \<Rightarrow> (nat \<times> ac_sha256_ctx) option option"
where
  "hash_loop rd n start sz dn ctx =
     (if dn < sz then
        (case rd n (start + of_nat dn) (min (sz - dn) AC_READ_CHUNK) of
           PIntr \<Rightarrow> hash_loop rd (Suc n) start sz dn ctx
         | PError \<Rightarrow> Some None
         | PBytes bs \<Rightarrow>
             if bs = [] then Some (Some (dn, ctx))
             else Option.bind (ac_sha256_update bs ctx)
                    (\<lambda>ctx'. hash_loop rd (Suc n) start sz (dn + length bs) ctx'))
      else Some (Some (dn, ctx)))"

text \<open>\<open>stack\<close> is the uninitialised buffer of the context. Some None is the failure value.\<close>

definition hash_proc_mem ::
  "(nat \<Rightarrow> u64 \<Rightarrow> nat \<Rightarrow> pread_result) \<Rightarrow> u8 list \<Rightarrow> u64 \<Rightarrow> nat \<Rightarrow> string option option"
where
  "hash_proc_mem rd stack start sz =
     (case hash_loop rd 0 start sz 0 (ac_sha256_init stack) of
        None \<Rightarrow> None
      | Some None \<Rightarrow> Some None
      | Some (Some (dn, ctx)) \<Rightarrow>
          if dn < sz then Some None
          else Option.bind (ac_sha256_final ctx) (\<lambda>d. Some (Some (concat (map hex_byte d)))))"

text \<open>The number of bytes of a mapping that are hashed.\<close>

definition hash_size :: "ac_vma_info \<Rightarrow> nat" where
  "hash_size vi = min (unat (vi_end vi - vi_start vi)) AC_HASH_CAP"

subsection \<open>Baseline files\<close>

definition AC_BASELINE_DIR :: string where "AC_BASELINE_DIR = ''/var/lib/anticheat/baselines''"

definition ac_baseline_dir :: "string option \<Rightarrow> string" where
  "ac_baseline_dir e = (case e of None \<Rightarrow> AC_BASELINE_DIR | Some d \<Rightarrow> if d = [] then AC_BASELINE_DIR else d)"

text \<open>The directories \<open>ac_mkdir_baselines\<close> creates.\<close>

definition ac_mkdir_baselines :: "string option \<Rightarrow> string list" where
  "ac_mkdir_baselines e =
     (let d = ac_baseline_dir e
      in (case split_last (CHR ''/'') d of
            None \<Rightarrow> []
          | Some (parent, _) \<Rightarrow> if parent = [] then [] else [snprintf 4096 parent])
         @ [d])"

definition baseline_path_for :: "string option \<Rightarrow> u8 list \<Rightarrow> string \<Rightarrow> string option" where
  "baseline_path_for e stack path =
     Option.bind (ac_sha256_hex stack (map byte path))
       (\<lambda>hex. Some (snprintf 4096 (ac_baseline_dir e @ ''/'' @ hex @ ''.txt'')))"

text \<open>The line written for a mapping.\<close>

definition baseline_line :: "u64 \<Rightarrow> nat \<Rightarrow> string \<Rightarrow> string" where
  "baseline_line start sz hex = show_hex (unat start) @ '' '' @ show_hex sz @ '' '' @ hex @ [CHR 0x0A]"

text \<open>\<open>%llx\<close>: optional space, sign and prefix, then hexadecimal digits; wrapping to 64 bits. The result
  is the value and the rest.\<close>

definition is_xdigit :: "char \<Rightarrow> bool" where
  "is_xdigit c \<longleftrightarrow> hex_digit_val c \<noteq> None"

definition hex_number :: "string \<Rightarrow> nat" where
  "hex_number ds = foldl (\<lambda>a c. 16 * a + the (hex_digit_val c)) 0 ds"

definition scan_llx :: "string \<Rightarrow> (u64 \<times> string) option" where
  "scan_llx s =
     (let t = dropWhile isspace s;
          neg = (t \<noteq> [] \<and> hd t = CHR ''-'');
          u = (if t \<noteq> [] \<and> (hd t = CHR ''-'' \<or> hd t = CHR ''+'') then tl t else t);
          v = (if 2 \<le> length u \<and> hd u = CHR ''0'' \<and> (u ! 1 = CHR ''x'' \<or> u ! 1 = CHR ''X'') then drop 2 u else u);
          ds = takeWhile is_xdigit v;
          w = (if 2 ^ 64 \<le> hex_number ds then - 1 else if neg then - of_nat (hex_number ds)
               else of_nat (hex_number ds))
      in if ds = [] then None else Some (w, drop (length ds) v))"

text \<open>\<open>%64s\<close>: optional space, then up to 64 characters that are not space.\<close>

definition scan_word64 :: "string \<Rightarrow> (string \<times> string) option" where
  "scan_word64 s =
     (let t = dropWhile isspace s; w = take 64 (takeWhile (\<lambda>c. \<not> isspace c) t)
      in if w = [] then None else Some (w, drop (length w) t))"

text \<open>The first line of a baseline file: \<open>fgets\<close> and \<open>sscanf (line, "%llx %llx %64s", ...) == 3\<close>. The result
  is None when there is no line, Some None when it does not have the three fields.\<close>

definition parse_baseline_line :: "string \<Rightarrow> (u64 \<times> u64 \<times> string) option" where
  "parse_baseline_line line =
     Option.bind (scan_llx line) (\<lambda>(bs, r1).
       Option.bind (scan_llx r1) (\<lambda>(bsz, r2).
         Option.bind (scan_word64 r2) (\<lambda>(bhex, r3). Some (bs, bsz, bhex))))"

definition read_baseline :: "string \<Rightarrow> (u64 \<times> u64 \<times> string) option option" where
  "read_baseline contents = map_option (\<lambda>(line, _). parse_baseline_line (cstr line)) (fgets 512 contents)"

subsection \<open>Verdicts\<close>

datatype baseline_verdict = NoBaseline | Matches | Differs

text \<open>\<open>scan --hash --check\<close>: the file of the baseline (None: it cannot be opened) against the digest.\<close>

definition scan_check_verdict :: "string option \<Rightarrow> string \<Rightarrow> baseline_verdict" where
  "scan_check_verdict file hex =
     (case file of
        None \<Rightarrow> NoBaseline
      | Some contents \<Rightarrow>
          (case read_baseline contents of
             Some (Some (bs, bsz, bhex)) \<Rightarrow> if bhex \<noteq> hex then Differs else Matches
           | _ \<Rightarrow> Matches))"

text \<open>The periodic check: the saved digest to compare with, when there is one.\<close>

definition saved_digest :: "string option \<Rightarrow> string option" where
  "saved_digest file =
     (case file of
        None \<Rightarrow> None
      | Some contents \<Rightarrow>
          (case read_baseline contents of
             Some (Some (bs, bsz, bhex)) \<Rightarrow> Some bhex
           | _ \<Rightarrow> None))"

subsection \<open>Reading the whole range\<close>

text \<open>\<open>rd\<close> reads the bytes of an image: interrupted at most finitely often in a row, and otherwise
  returning a non-empty part of what was asked for.\<close>

definition reads_image :: "(nat \<Rightarrow> u64 \<Rightarrow> nat \<Rightarrow> pread_result) \<Rightarrow> u64 \<Rightarrow> u8 list \<Rightarrow> bool" where
  "reads_image rd start m \<longleftrightarrow>
     (\<forall>n dn w. dn < length m \<longrightarrow> 0 < w \<longrightarrow> dn + w \<le> length m \<longrightarrow>
        rd n (start + of_nat dn) w = PIntr \<or>
        (\<exists>k. 0 < k \<and> k \<le> w \<and> rd n (start + of_nat dn) w = PBytes (take k (drop dn m)))) \<and>
     (\<forall>n a w. \<exists>k \<ge> n. rd k a w \<noteq> PIntr)"

lemma hash_loop_skip:
  assumes "dn < sz" "\<forall>k. n \<le> k \<longrightarrow> k < n' \<longrightarrow> rd k (start + of_nat dn) (min (sz - dn) AC_READ_CHUNK) = PIntr" "n \<le> n'"
  shows "hash_loop rd n start sz dn ctx = hash_loop rd n' start sz dn ctx"
  using assms(2,3)
proof (induction "n' - n" arbitrary: n)
  case (Suc d)
  then have "hash_loop rd n start sz dn ctx = hash_loop rd (Suc n) start sz dn ctx"
    using assms(1) by (simp add: hash_loop.simps [of rd n])
  also have "\<dots> = hash_loop rd n' start sz dn ctx" by (rule Suc.hyps(1)) (use Suc.hyps(2) Suc.prems in auto)
  finally show ?case .
qed simp

lemma next_real_read:
  fixes rd :: "nat \<Rightarrow> u64 \<Rightarrow> nat \<Rightarrow> pread_result"
  assumes "\<exists>k \<ge> n. rd k a w \<noteq> PIntr"
  obtains n' where "n \<le> n'" "rd n' a w \<noteq> PIntr" "\<forall>k. n \<le> k \<longrightarrow> k < n' \<longrightarrow> rd k a w = PIntr"
proof -
  define n' where "n' = (LEAST k. n \<le> k \<and> rd k a w \<noteq> PIntr)"
  have "n \<le> n' \<and> rd n' a w \<noteq> PIntr" 
    using LeastI_ex [of "\<lambda>k. n \<le> k \<and> rd k a w \<noteq> PIntr"] assms unfolding n'_def by blast
  moreover have "rd k a w = PIntr" if "n \<le> k" "k < n'" for k
    using that not_less_Least [of k "\<lambda>k. n \<le> k \<and> rd k a w \<noteq> PIntr"] unfolding n'_def by blast
  ultimately show thesis using that by blast
qed

lemma hash_loop_complete:
  assumes "reads_image rd start m" "ctx_repr ctx (take dn m)" "sha_len ctx = of_nat dn" "dn \<le> length m"
  shows "\<exists>ctx'. hash_loop rd n start (length m) dn ctx = Some (Some (length m, ctx')) \<and> ctx_repr ctx' m \<and>
     sha_len ctx' = of_nat (length m)"
  using assms(2-4)
proof (induction "length m - dn" arbitrary: dn n ctx rule: less_induct)
  case less
  show ?case
  proof (cases "dn < length m")
    case False
    then have "dn = length m" using less.prems by simp
    then show ?thesis using less.prems by (simp add: hash_loop.simps)
  next
    case True
    let ?w = "min (length m - dn) AC_READ_CHUNK"
    have w: "0 < ?w" "dn + ?w \<le> length m" using True by (auto simp: ac_consts)
    obtain n' where n': "n \<le> n'" "rd n' (start + of_nat dn) ?w \<noteq> PIntr"
      "\<forall>k. n \<le> k \<longrightarrow> k < n' \<longrightarrow> rd k (start + of_nat dn) ?w = PIntr"
      by (rule next_real_read [of n rd "start + of_nat dn" ?w]) (use assms(1) in \<open>simp add: reads_image_def\<close>)
    then obtain j where j: "0 < j" "j \<le> ?w" "rd n' (start + of_nat dn) ?w = PBytes (take j (drop dn m))"
      using assms(1) True w unfolding reads_image_def by blast
    let ?bs = "take j (drop dn m)"
    have bs: "?bs \<noteq> []" "length ?bs = j" "take dn m @ ?bs = take (dn + j) m"
      using j True by (auto simp: take_add)
    obtain c where c: "ac_sha256_update ?bs ctx = Some c" "ctx_repr c (take (dn + j) m)" "sha_len c = of_nat (dn + j)"
      using ac_sha256_update_repr [OF less.prems(1), of ?bs] less.prems(2) bs by auto
    have "hash_loop rd n start (length m) dn ctx = hash_loop rd n' start (length m) dn ctx"
      using True n' by (intro hash_loop_skip) auto
    also have "\<dots> = hash_loop rd (Suc n') start (length m) (dn + j) c"
      using True j(3) bs c(1) by (simp add: hash_loop.simps [of rd n'])
    finally have "hash_loop rd n start (length m) dn ctx = hash_loop rd (Suc n') start (length m) (dn + j) c" .
    moreover have "\<exists>ctx'. hash_loop rd (Suc n') start (length m) (dn + j) c = Some (Some (length m, ctx')) \<and>
        ctx_repr ctx' m \<and> sha_len ctx' = of_nat (length m)"
      by (rule less.hyps) (use True j w c in auto)
    ultimately show ?thesis by simp
  qed
qed

text \<open>Consecutive pieces that were read from a start address on.\<close>

definition read_from :: "(nat \<Rightarrow> u64 \<Rightarrow> nat \<Rightarrow> pread_result) \<Rightarrow> u64 \<Rightarrow> u8 list \<Rightarrow> bool" where
  "read_from rd start m \<longleftrightarrow>
     (\<exists>ps. m = concat ps \<and>
        (\<forall>i < length ps. \<exists>n w. rd n (start + of_nat (length (concat (take i ps)))) w = PBytes (ps ! i)))"

lemma read_from_Nil: "read_from rd start []"
  unfolding read_from_def by (rule exI [of _ "[]"]) simp

lemma read_from_snoc:
  assumes "read_from rd start m" "rd n (start + of_nat (length m)) w = PBytes bs"
  shows "read_from rd start (m @ bs)"
proof -
  obtain ps where ps: "m = concat ps"
    "\<forall>i < length ps. \<exists>n w. rd n (start + of_nat (length (concat (take i ps)))) w = PBytes (ps ! i)"
    using assms(1) unfolding read_from_def by blast
  have "\<exists>n w. rd n (start + of_nat (length (concat (take i (ps @ [bs]))))) w = PBytes ((ps @ [bs]) ! i)"
    if "i < length (ps @ [bs])" for i
    using that ps assms(2) by (cases "i = length ps") (auto simp: nth_append)
  then show ?thesis unfolding read_from_def using ps(1) by (intro exI [of _ "ps @ [bs]"]) simp
qed

lemma hash_loop_sound:
  assumes "hash_loop rd n start sz dn ctx = Some (Some (dn', ctx'))"
    "ctx_repr ctx msg" "length msg = dn" "sha_len ctx = of_nat dn" "read_from rd start msg"
  shows "\<exists>m. ctx_repr ctx' m \<and> length m = dn' \<and> sha_len ctx' = of_nat dn' \<and> read_from rd start m"
proof -
  let ?P = "\<lambda>rd (n :: nat) start (sz :: nat) dn ctx r. \<forall>msg. r = Some (dn', ctx') \<longrightarrow> ctx_repr ctx msg \<longrightarrow>
      length msg = dn \<longrightarrow> sha_len ctx = of_nat dn \<longrightarrow> read_from rd start msg \<longrightarrow>
      (\<exists>m. ctx_repr ctx' m \<and> length m = dn' \<and> sha_len ctx' = of_nat dn' \<and> read_from rd start m)"
  have "?P rd n start sz dn ctx (Some (dn', ctx'))"
  proof (rule hash_loop.raw_induct [where P = ?P, OF _ assms(1)], goal_cases)
    case (1 hl rd n start sz dn ctx r)
    note IH = 1(1) and body = 1(2)
    show ?case
    proof (intro allI impI)
      fix msg
      assume r: "r = Some (dn', ctx')" and msg: "ctx_repr ctx msg" "length msg = dn" "sha_len ctx = of_nat dn"
        "read_from rd start msg"
      show "\<exists>m. ctx_repr ctx' m \<and> length m = dn' \<and> sha_len ctx' = of_nat dn' \<and> read_from rd start m"
      proof (cases "dn < sz")
        case False
        with body r msg show ?thesis by auto
      next
        case True
        show ?thesis
        proof (cases "rd n (start + of_nat dn) (min (sz - dn) AC_READ_CHUNK)")
          case (PBytes bs)
          show ?thesis
          proof (cases "bs = []")
            case empty: True
            with body r msg True PBytes show ?thesis by auto
          next
            case False
            obtain c where c: "ac_sha256_update bs ctx = Some c" "ctx_repr c (msg @ bs)" "sha_len c = of_nat (dn + length bs)"
              using ac_sha256_update_repr [OF msg(1), of bs] msg(3) by auto
            have "hl rd (Suc n) start sz (dn + length bs) c = Some r"
              using body True PBytes False c(1) by simp
            from IH [OF this] r c msg read_from_snoc [OF msg(4)] PBytes show ?thesis by (metis length_append)
          qed
        next
          case PIntr
          then have "hl rd (Suc n) start sz dn ctx = Some r" using body True by simp
          from IH [OF this] r msg show ?thesis by blast
        next
          case PError
          with body r True show ?thesis by simp
        qed
      qed
    qed
  qed
  with assms show ?thesis by blast
qed

subsection \<open>Printing and reading lines\<close>

lemma hex_digit_char: "d < 16 \<Longrightarrow> hex_digit_val (digit_char d) = Some d"
  by (auto simp: hex_digit_val_def digit_char_def Let_def)

lemma hex_number_snoc: "hex_number (ds @ [c]) = 16 * hex_number ds + the (hex_digit_val c)"
  by (simp add: hex_number_def)

lemma show_hex_digits: "hex_number (show_hex n) = n \<and> (\<forall>c \<in> set (show_hex n). is_xdigit c) \<and> show_hex n \<noteq> []"
proof (induction n rule: less_induct)
  case (less n)
  show ?case
  proof (cases "n < 16")
    case True
    then have "show_hex n = [digit_char n]" by (simp add: show_hex_def digits_in.simps [of 16 n])
    with True show ?thesis using hex_digit_char [of n] by (simp add: hex_number_def is_xdigit_def)
  next
    case False
    then have s: "show_hex n = show_hex (n div 16) @ [digit_char (n mod 16)]"
      by (simp add: show_hex_def digits_in.simps [of 16 n])
    show ?thesis
      using less.IH [of "n div 16"] False hex_digit_char [of "n mod 16"]
      by (simp add: s hex_number_snoc is_xdigit_def)
  qed
qed

lemma length_show_hex: "n < 16 ^ k \<Longrightarrow> 0 < k \<Longrightarrow> length (show_hex n) \<le> k"
proof (induction k arbitrary: n)
  case (Suc k)
  show ?case
  proof (cases "n < 16")
    case True
    then show ?thesis by (simp add: show_hex_def digits_in.simps [of 16 n])
  next
    case False
    then have "0 < k" using Suc.prems by (cases k) auto
    moreover have "n div 16 < 16 ^ k" using Suc.prems(1) by (simp add: less_mult_imp_div_less mult.commute)
    ultimately have "length (show_hex (n div 16)) \<le> k" using Suc.IH by blast
    with False show ?thesis by (simp add: show_hex_def digits_in.simps [of 16 n])
  qed
qed simp

lemma xdigit_not: "is_xdigit c \<Longrightarrow> \<not> isspace c \<and> c \<noteq> CHR ''-'' \<and> c \<noteq> CHR ''+'' \<and> c \<noteq> CHR ''x'' \<and> c \<noteq> CHR ''X'' \<and> c \<noteq> NUL"
  by (auto simp: is_xdigit_def hex_digit_val_def isspace_def NUL_def Let_def)

lemma scan_llx_show:
  assumes "n < 2 ^ 64" "w \<in> {[], '' ''}"
  shows "scan_llx (w @ show_hex n @ CHR '' '' # r) = Some (of_nat n, CHR '' '' # r)"
proof -
  let ?h = "show_hex n" and ?s = "show_hex n @ CHR '' '' # r"
  note h = show_hex_digits [of n]
  obtain c cs where c: "?h = c # cs" using h by (cases ?h) auto
  then have cx: "is_xdigit c" using h by simp
  have "dropWhile isspace ?s = ?s" using c xdigit_not [OF cx] by simp
  then have drop: "dropWhile isspace (w @ ?s) = ?s" using assms(2) by (auto simp: isspace_def)
  have take: "takeWhile is_xdigit ?s = ?h"
    using h by (simp add: takeWhile_append2) (simp add: is_xdigit_def hex_digit_val_def)
  have second: "\<not> (?s ! 1 = CHR ''x'' \<or> ?s ! 1 = CHR ''X'')"
    using c h xdigit_not by (cases cs) auto
  have "\<not> (?s \<noteq> [] \<and> (hd ?s = CHR ''-'' \<or> hd ?s = CHR ''+''))" "\<not> (?s \<noteq> [] \<and> hd ?s = CHR ''-'')"
    using c xdigit_not [OF cx] by auto
  then show ?thesis
    unfolding scan_llx_def Let_def drop using take second h assms(1) by simp
qed

lemma scan_word64_hex:
  assumes "length hex = 64" "\<forall>c \<in> set hex. \<not> isspace c"
  shows "scan_word64 (CHR '' '' # hex @ [CHR 0x0A]) = Some (hex, [CHR 0x0A])"
proof -
  have "dropWhile isspace (CHR '' '' # hex @ [CHR 0x0A]) = hex @ [CHR 0x0A]"
    using assms by (cases hex) (auto simp: isspace_def)
  moreover have "takeWhile (\<lambda>c. \<not> isspace c) (hex @ [CHR 0x0A]) = hex"
    using assms(2) by (simp add: takeWhile_append2) (simp add: isspace_def)
  ultimately show ?thesis using assms(1) by (auto simp: scan_word64_def Let_def)
qed

lemma read_baseline_line:
  assumes "length hex = 64" "\<forall>c \<in> set hex. is_xdigit c" "sz < 2 ^ 64"
  shows "read_baseline (baseline_line start sz hex) = Some (Some (start, of_nat sz, hex))"
proof -
  let ?body = "show_hex (unat start) @ '' '' @ show_hex sz @ '' '' @ hex"
  have "unat start < 16 ^ 16" using unsigned_less [of start] by simp
  then have "length ?body < 511"
    using length_show_hex [of "unat start" 16] length_show_hex [of sz 16] assms by simp
  moreover have x: "\<forall>c \<in> set ?body. c \<noteq> CHR 0x0A \<and> c \<noteq> NUL"
    using show_hex_digits xdigit_not assms(2) by (auto simp: isspace_def NUL_def)
  then have "takeWhile (\<lambda>c. c \<noteq> CHR 0x0A) (?body @ [CHR 0x0A]) = ?body"
    by (subst takeWhile_append2) auto
  moreover have line: "baseline_line start sz hex = ?body @ [CHR 0x0A]" by (simp add: baseline_line_def)
  ultimately have "fgets 512 (baseline_line start sz hex) = Some (?body @ [CHR 0x0A], [])"
    unfolding line fgets_def Let_def by simp
  moreover have "cstr (?body @ [CHR 0x0A]) = ?body @ [CHR 0x0A]"
    by (rule cstr_id) (use x in \<open>auto simp: NUL_def\<close>)
  moreover have "parse_baseline_line (?body @ [CHR 0x0A]) = Some (start, of_nat sz, hex)"
  proof -
    have "scan_llx (?body @ [CHR 0x0A]) = Some (start, '' '' @ show_hex sz @ '' '' @ hex @ [CHR 0x0A])"
      using scan_llx_show [of "unat start" "[]" "show_hex sz @ '' '' @ hex @ [CHR 0x0A]"] unsigned_less [of start] by simp
    moreover have "scan_llx ('' '' @ show_hex sz @ '' '' @ hex @ [CHR 0x0A]) = Some (of_nat sz, '' '' @ hex @ [CHR 0x0A])"
      using scan_llx_show [of sz "'' ''" "hex @ [CHR 0x0A]"] assms(3) by simp
    moreover have "scan_word64 ('' '' @ hex @ [CHR 0x0A]) = Some (hex, [CHR 0x0A])"
      using scan_word64_hex [of hex] assms xdigit_not by auto
    ultimately show ?thesis by (simp add: parse_baseline_line_def)
  qed
  ultimately show ?thesis by (simp add: read_baseline_def)
qed

abbreviation digest_hex :: "u8 list \<Rightarrow> string" where
  "digest_hex m \<equiv> concat (map hex_byte (sha256_spec m))"

lemma digest_hex_chars: "length (digest_hex m) = 64" "\<forall>c \<in> set (digest_hex m). is_xdigit c"
proof -
  show "length (digest_hex m) = 64" by (simp add: length_hex)
  have "\<forall>c \<in> set hexd. is_xdigit c" by (simp add: hexd_def is_xdigit_def hex_digit_val_def)
  then show "\<forall>c \<in> set (digest_hex m). is_xdigit c" using set_hex [of "sha256_spec m"] by blast
qed

lemma digest_hex_eq: "digest_hex m = digest_hex m' \<longleftrightarrow> sha256_spec m = sha256_spec m'"
  using hex_inj [of "sha256_spec m" "sha256_spec m'"] by auto

text \<open>A baseline file is named after the digest of the path; with a directory of ordinary length the
  name is never cut, so two paths share a file exactly when their digests are equal.\<close>

lemma baseline_path_full:
  assumes "length stack = 64" "length (ac_baseline_dir e) < 4000"
  shows "baseline_path_for e stack path = Some (ac_baseline_dir e @ ''/'' @ digest_hex (map byte path) @ ''.txt'')"
  using assms digest_hex_chars(1) [of "map byte path"]
  by (simp add: baseline_path_for_def ac_sha256_hex_spec snprintf_def)

text \<open>A file without a proper line counts as a match in the one-shot check.\<close>

lemma malformed_baseline_accepted:
  "scan_check_verdict (Some []) hex = Matches" "scan_check_verdict (Some ''zz'') hex = Matches"
proof -
  show "scan_check_verdict (Some []) hex = Matches" by (simp add: scan_check_verdict_def read_baseline_def fgets_def)
  have "read_baseline ''zz'' = Some None"
    by (simp add: read_baseline_def fgets_def parse_baseline_line_def scan_llx_def is_xdigit_def hex_digit_val_def
        isspace_def cstr_def NUL_def)
  then show "scan_check_verdict (Some ''zz'') hex = Matches" by (simp add: scan_check_verdict_def)
qed

subsection \<open>Hashing returns\<close>

text \<open>No read is interrupted for ever.\<close>

definition reads_progress :: "(nat \<Rightarrow> u64 \<Rightarrow> nat \<Rightarrow> pread_result) \<Rightarrow> bool" where
  "reads_progress rd \<longleftrightarrow> (\<forall>n a w. \<exists>k \<ge> n. rd k a w \<noteq> PIntr)"

lemma hash_loop_returns:
  assumes "reads_progress rd" "ctx_repr ctx msg" "sha_len ctx = of_nat (length msg)"
  shows "\<exists>r. hash_loop rd n start sz dn ctx = Some r \<and>
    (\<forall>dn' ctx'. r = Some (dn', ctx') \<longrightarrow> (\<exists>msg'. ctx_repr ctx' msg' \<and> sha_len ctx' = of_nat (length msg')))"
  using assms(2,3)
proof (induction "sz - dn" arbitrary: dn n ctx msg rule: less_induct)
  case less
  show ?case
  proof (cases "dn < sz")
    case False
    then show ?thesis using less.prems by (auto simp: hash_loop.simps)
  next
    case True
    let ?a = "start + of_nat dn" and ?w = "min (sz - dn) AC_READ_CHUNK"
    have "\<exists>k \<ge> n. rd k ?a ?w \<noteq> PIntr" using assms(1) by (simp add: reads_progress_def)
    then obtain n' where n': "n \<le> n'" "rd n' ?a ?w \<noteq> PIntr" "\<forall>k. n \<le> k \<longrightarrow> k < n' \<longrightarrow> rd k ?a ?w = PIntr"
      by (rule next_real_read)
    have skip: "hash_loop rd n start sz dn ctx = hash_loop rd n' start sz dn ctx"
      by (rule hash_loop_skip) (use True n' in auto)
    show ?thesis
    proof (cases "rd n' ?a ?w")
      case PIntr
      then show ?thesis using n'(2) by simp
    next
      case PError
      then show ?thesis using True by (simp add: skip hash_loop.simps [of rd n'])
    next
      case (PBytes bs)
      show ?thesis
      proof (cases "bs = []")
        case True
        then show ?thesis
          using less.prems \<open>dn < sz\<close> PBytes by (auto simp: skip hash_loop.simps [of rd n'])
      next
        case False
        obtain c where c: "ac_sha256_update bs ctx = Some c" "ctx_repr c (msg @ bs)"
          "sha_len c = of_nat (length (msg @ bs))"
          using ac_sha256_update_repr [OF less.prems(1), of bs] less.prems(2) by auto
        have "\<exists>r. hash_loop rd (Suc n') start sz (dn + length bs) c = Some r \<and>
          (\<forall>dn' ctx'. r = Some (dn', ctx') \<longrightarrow> (\<exists>msg'. ctx_repr ctx' msg' \<and> sha_len ctx' = of_nat (length msg')))"
          by (rule less.hyps [OF _ c(2,3)]) (use False True in \<open>simp add: diff_less_mono2\<close>)
        then show ?thesis using True False PBytes c(1) by (simp add: skip hash_loop.simps [of rd n'])
      qed
    qed
  qed
qed

lemma hash_proc_mem_returns:
  assumes "reads_progress rd" "length stack = 64"
  shows "hash_proc_mem rd stack start sz \<noteq> None"
proof -
  have "sha_len (ac_sha256_init stack) = of_nat (length ([] :: u8 list))" by (simp add: ac_sha256_init_def)
  from hash_loop_returns [OF assms(1) ctx_repr_init [OF assms(2)] this, of 0 start sz 0]
  obtain r where "hash_loop rd 0 start sz 0 (ac_sha256_init stack) = Some r"
    "\<forall>dn' ctx'. r = Some (dn', ctx') \<longrightarrow> (\<exists>msg'. ctx_repr ctx' msg' \<and> sha_len ctx' = of_nat (length msg'))"
    by blast
  then show ?thesis
    by (auto simp: hash_proc_mem_def ac_sha256_final_spec split: option.splits)
qed

lemma hash_image:
  assumes "reads_image rd start m" "length stack = 64"
  shows "hash_proc_mem rd stack start (length m) = Some (Some (digest_hex m))"
proof -
  from hash_loop_complete [OF assms(1), of "ac_sha256_init stack" 0 0] ctx_repr_init [OF assms(2)]
  obtain c where "hash_loop rd 0 start (length m) 0 (ac_sha256_init stack) = Some (Some (length m, c))"
    "ctx_repr c m" "sha_len c = of_nat (length m)"
    by (auto simp: ac_sha256_init_def)
  then show ?thesis by (simp add: hash_proc_mem_def ac_sha256_final_spec)
qed

subsection \<open>Properties\<close>

text \<open>C11. Hashing a range of memory: if the reads deliver the range, in pieces of any size and with any
  finite number of interruptions, the result is the SHA-256 digest of the range; and whenever a
  digest is produced, it is the digest of consecutive bytes read from the start address on that
  cover the whole range. A range that cannot be read in full never has a digest.\<close>

theorem hash_mem_exact:
  assumes "length stack = 64"
  shows "(reads_image rd start m \<longrightarrow> hash_proc_mem rd stack start (length m) = Some (Some (digest_hex m))) \<and>
    (hash_proc_mem rd stack start sz = Some (Some h) \<longrightarrow>
       (\<exists>b. read_from rd start b \<and> sz \<le> length b \<and> h = digest_hex b))"
proof (intro conjI impI)
  assume "reads_image rd start m"
  then show "hash_proc_mem rd stack start (length m) = Some (Some (digest_hex m))" by (rule hash_image [OF _ assms])
next
  assume h: "hash_proc_mem rd stack start sz = Some (Some h)"
  then obtain dn c where loop: "hash_loop rd 0 start sz 0 (ac_sha256_init stack) = Some (Some (dn, c))" "\<not> dn < sz"
    by (auto simp: hash_proc_mem_def split: option.splits if_splits)
  from hash_loop_sound [OF loop(1) ctx_repr_init [OF assms]]
  obtain b where b: "ctx_repr c b" "length b = dn" "sha_len c = of_nat dn" "read_from rd start b"
    by (auto simp: ac_sha256_init_def read_from_Nil)
  then have "ac_sha256_final c = Some (sha256_spec b)" by (simp add: ac_sha256_final_spec)
  with h loop b show "\<exists>b. read_from rd start b \<and> sz \<le> length b \<and> h = digest_hex b"
    by (intro exI [of _ b]) (simp add: hash_proc_mem_def)
qed

theorem hash_mem_exact_witness:
  "hash_proc_mem (\<lambda>n a w. if n = 0 then PIntr else PBytes (take 1 (drop (unat (a - 0x400000)) [1, 2]))) (replicate 64 0) 0x400000 2
     = Some (Some (digest_hex [1, 2]))"
proof -
  let ?rd = "\<lambda>(n :: nat) (a :: u64) (w :: nat). if n = 0 then PIntr else PBytes (take 1 (drop (unat (a - 0x400000)) [1 :: u8, 2]))"
  have "reads_image ?rd 0x400000 [1, 2]"
    unfolding reads_image_def
  proof (intro conjI allI impI)
    fix n dn w :: nat
    assume dn: "dn < length [1 :: u8, 2]" "0 < w" "dn + w \<le> length [1 :: u8, 2]"
    have "unat (0x400000 + of_nat dn - 0x400000 :: u64) = dn"
      using dn(1) by (simp add: unsigned_of_nat take_bit_nat_eq_self)
    with dn(2) show "?rd n (0x400000 + of_nat dn) w = PIntr \<or>
        (\<exists>k. 0 < k \<and> k \<le> w \<and> ?rd n (0x400000 + of_nat dn) w = PBytes (take k (drop dn [1, 2])))"
      by (cases "n = 0") (auto intro: exI [of _ 1])
  next
    fix n w :: nat and a :: u64
    show "\<exists>k \<ge> n. ?rd k a w \<noteq> PIntr" by (rule exI [of _ "Suc n"]) simp
  qed
  with hash_mem_exact [of "replicate 64 0" ?rd "0x400000" "[1, 2]"] show ?thesis
    by (simp add: numeral_2_eq_2)
qed

text \<open>A saved baseline reads back as what was saved, so that a later check says "matches" exactly
  when the digest of the memory is the saved one; the periodic check compares with the same digest.\<close>

theorem baseline_roundtrip:
  assumes "sz < 2 ^ 64"
  shows "read_baseline (baseline_line start sz (digest_hex m)) = Some (Some (start, of_nat sz, digest_hex m)) \<and>
    scan_check_verdict (Some (baseline_line start sz (digest_hex m))) (digest_hex m')
      = (if sha256_spec m = sha256_spec m' then Matches else Differs) \<and>
    saved_digest (Some (baseline_line start sz (digest_hex m))) = Some (digest_hex m)"
  using read_baseline_line [OF digest_hex_chars(1) digest_hex_chars(2) assms, where start = start]
  by (simp add: scan_check_verdict_def saved_digest_def digest_hex_eq)

theorem baseline_roundtrip_witness:
  "scan_check_verdict (Some (baseline_line 0x400000 4096 (digest_hex [1]))) (digest_hex [1]) = Matches"
  using baseline_roundtrip [of 4096 "0x400000" "[1]" "[1]"] by simp

end
