(* ===== verification/Vm_Check.thy ===== *)
theory Vm_Check
  imports Daemon_Report
begin

text \<open>
  The search for a hypervisor: \<open>detect_hypervisor_cpuid\<close>, \<open>read_dmi_field\<close>, \<open>detect_hypervisor_dmi\<close> and the
  message \<open>cmd_start\<close> logs (src/src/anticheat_daemon.c).

  The CPUID instruction and the files under /sys/class/dmi/id are parameters. The lemmas show that the
  texts fit their buffers, that a signature is found exactly when one of the vendor strings is there,
  and that the result is never reported.
\<close>

text \<open>What CPUID leaves in ebx, ecx and edx for a leaf.\<close>

type_synonym cpuid = "u32 \<Rightarrow> u32 \<times> u32 \<times> u32"

definition reg_bytes :: "u32 \<Rightarrow> string" where
  "reg_bytes w = map (\<lambda>i. char_of (unat (drop_bit (8 * i) w) mod 256)) [0, 1, 2, 3]"

text \<open>Whether the hypervisor bit is set, and the vendor string as \<open>%s\<close> prints it.\<close>

definition detect_hypervisor_cpuid :: "cpuid \<Rightarrow> nat \<Rightarrow> bool \<times> string" where
  "detect_hypervisor_cpuid cpuid outsz =
     (let (_, ecx, _) = cpuid 1
      in if \<not> bit ecx 31 then (False, [])
         else if 13 \<le> outsz
         then let (ebx, ecx', edx) = cpuid 0x40000000
              in (True, cstr (reg_bytes ebx @ reg_bytes ecx' @ reg_bytes edx))
         else (True, []))"

text \<open>The first line of a file, without its line end; empty when it cannot be read.\<close>

definition read_dmi_field :: "(string \<Rightarrow> string option) \<Rightarrow> string \<Rightarrow> nat \<Rightarrow> string" where
  "read_dmi_field fopen name outsz =
     (case fopen (snprintf 64 (''/sys/class/dmi/id/'' @ name)) of
        None \<Rightarrow> []
      | Some contents \<Rightarrow>
          (case fgets outsz contents of
             None \<Rightarrow> []
           | Some (line, _) \<Rightarrow> strip_eol (cstr line)))"

definition quoted :: "string \<Rightarrow> string" where
  "quoted s = [QUOTE] @ s @ [QUOTE]"

definition detect_hypervisor_dmi :: "(string \<Rightarrow> string option) \<Rightarrow> nat \<Rightarrow> bool \<times> string" where
  "detect_hypervisor_dmi fopen outsz =
     (let sys_vendor = read_dmi_field fopen ''sys_vendor'' 128;
          product_name = read_dmi_field fopen ''product_name'' 128;
          board_vendor = read_dmi_field fopen ''board_vendor'' 128;
          hit = (\<lambda>label. (True, snprintf outsz (label @ '' (sys_vendor='' @ quoted sys_vendor @ '')'')));
          hit_product = (\<lambda>label. (True, snprintf outsz (label @ '' (product_name='' @ quoted product_name @ '')'')))
      in if strstr sys_vendor ''QEMU'' \<or> strstr product_name ''QEMU'' then hit ''QEMU''
         else if strstr sys_vendor ''VMware'' then hit ''VMware''
         else if strstr sys_vendor ''innotek GmbH'' \<or> strstr product_name ''VirtualBox'' then hit ''VirtualBox''
         else if sys_vendor = ''Microsoft Corporation'' \<and> strstr product_name ''Virtual Machine''
         then hit_product ''Hyper-V''
         else if strstr sys_vendor ''Xen'' then hit ''Xen''
         else if strstr sys_vendor ''Parallels'' then hit ''Parallels''
         else if strstr sys_vendor ''Google'' then hit ''Google Compute Engine''
         else if strstr sys_vendor ''Amazon EC2'' \<or> strstr board_vendor ''Amazon EC2'' then hit ''Amazon EC2''
         else if strstr product_name ''Bochs'' then hit_product ''Bochs''
         else (False, []))"

text \<open>The message at the start of the daemon.\<close>

definition vm_startup_log :: "bool \<Rightarrow> cpuid \<Rightarrow> (string \<Rightarrow> string option) \<Rightarrow> log_effect list" where
  "vm_startup_log vb cpuid fopen =
     (let (cpuid_hit, cpuid_vendor) = detect_hypervisor_cpuid cpuid 16;
          (dmi_hit, dmi_desc) = detect_hypervisor_dmi fopen 192
      in if cpuid_hit
         then logmsg vb LOG_WARNING (''running inside a virtual machine (CPUID vendor id: '' @ cpuid_vendor
                @ (if dmi_hit then ''; '' @ dmi_desc else []) @ '') -- informational, not a verdict'')
         else if dmi_hit
         then logmsg vb LOG_WARNING (''running inside a virtual machine ('' @ dmi_desc
                @ '') -- informational, not a verdict'')
         else logmsg vb LOG_INFO ''no hypervisor detected (CPUID/DMI checks)'')"

subsection \<open>Lemmas\<close>

lemma cpuid_vendor_length: "length (snd (detect_hypervisor_cpuid cpuid outsz)) \<le> 12"
  using length_takeWhile_le [of "\<lambda>c. c \<noteq> NUL"]
  by (auto simp: detect_hypervisor_cpuid_def cstr_def reg_bytes_def Let_def split: prod.splits
      intro: order_trans [OF length_takeWhile_le])

lemma dmi_field_length:
  assumes "0 < outsz"
  shows "length (read_dmi_field fopen name outsz) < outsz"
proof -
  have "length (strip_eol (cstr line)) \<le> length line" for line
    using length_dropWhile_le [of _ "rev (cstr line)"] length_takeWhile_le [of _ line]
    by (auto simp: strip_eol_def cstr_def intro: order_trans)
  then show ?thesis
    using assms
    by (auto simp: read_dmi_field_def dest!: fgets_Some(3) split: option.splits intro: le_less_trans)
qed

text \<open>The signatures the table knows, on the three fields.\<close>

definition vm_signature :: "string \<Rightarrow> string \<Rightarrow> string \<Rightarrow> bool" where
  "vm_signature sys_vendor product_name board_vendor \<longleftrightarrow>
     (\<exists>w \<in> {''QEMU'', ''VMware'', ''innotek GmbH'', ''Xen'', ''Parallels'', ''Google'', ''Amazon EC2''}. strstr sys_vendor w) \<or>
     (\<exists>w \<in> {''QEMU'', ''VirtualBox'', ''Bochs''}. strstr product_name w) \<or>
     strstr board_vendor ''Amazon EC2'' \<or>
     sys_vendor = ''Microsoft Corporation'' \<and> strstr product_name ''Virtual Machine''"

lemma dmi_signature:
  "fst (detect_hypervisor_dmi fopen outsz) \<longleftrightarrow>
     vm_signature (read_dmi_field fopen ''sys_vendor'' 128) (read_dmi_field fopen ''product_name'' 128)
       (read_dmi_field fopen ''board_vendor'' 128)"
  by (auto simp: detect_hypervisor_dmi_def vm_signature_def Let_def)

lemma vm_startup_never_reports: "Report t x \<notin> set (vm_startup_log vb cpuid fopen)"
  by (auto simp: vm_startup_log_def logmsg_def Let_def ac_consts split: prod.splits if_splits)

end
