(* ===== verification/Daemon_Monitor.thy ===== *)
theory Daemon_Monitor
  imports Daemon_Crosscheck Daemon_Manifest Render_Hooks Daemon_Baseline Vm_Check
begin

text \<open>
  The monitoring daemon: the periodic checks (\<open>check_syscalls_periodic\<close>, \<open>scan_protected_periodic\<close>,
  \<open>check_baselines_periodic\<close>, \<open>check_render_hooks_periodic\<close>) and the loop of \<open>cmd_start\<close> that drains the
  events and runs each check when its time has come (src/src/anticheat_daemon.c).

  One iteration of the loop is one step on the state \<open>daemon\<close>: the device, the four tables and the
  eight \<open>next_*\<close> times. What the system provides during an iteration (the time, the environment
  variables, the files, the memory of the processes) is the record \<open>menv\<close>. The field \<open>dm_ran\<close> is a history
  of the checks that ran and when; no operation reads it.
\<close>

subsection \<open>Events\<close>

definition ev_type_str :: "u32 \<Rightarrow> string" where
  "ev_type_str t =
     (if t = ev_type_num AC_EV_FORK then ''FORK''
      else if t = ev_type_num AC_EV_EXEC then ''EXEC''
      else if t = ev_type_num AC_EV_EXIT then ''EXIT''
      else if t = ev_type_num AC_EV_PTRACE then ''PTRACE-DENIED''
      else if t = ev_type_num AC_EV_SYSCALL_HOOK then ''SYSCALL-HOOK''
      else if t = ev_type_num AC_EV_RWX then ''RWX''
      else if t = ev_type_num AC_EV_ANON_EXEC then ''ANON-EXEC''
      else if t = ev_type_num AC_EV_INFO then ''INFO''
      else ''UNKNOWN'')"

definition event_text :: "ac_event \<Rightarrow> string" where
  "event_text e = ev_type_str (ev_type e) @ '' pid='' @ show_int (ev_pid e) @ '' comm='' @ ev_comm e
     @ '' '' @ ev_data e"

definition event_log :: "bool \<Rightarrow> ac_event \<Rightarrow> log_effect list" where
  "event_log vb e =
     (if ev_type e = ev_type_num AC_EV_PTRACE then logmsg vb LOG_ALERT (event_text e)
      else if ev_type e = ev_type_num AC_EV_SYSCALL_HOOK
      then logmsg vb LOG_CRIT (ev_type_str (ev_type e) @ '' '' @ ev_data e)
      else logmsg vb LOG_INFO (event_text e))"

definition get_events :: "dsys \<Rightarrow> dev \<Rightarrow> ac_event_list option \<times> dev" where
  "get_events s d =
     (case dev_ioctl s GET_EVENTS no_arg d of
        ((RetOK, R_events el), d') \<Rightarrow> (Some el, d')
      | (_, d') \<Rightarrow> (None, d'))"

definition drain_log :: "dsys \<Rightarrow> bool \<Rightarrow> dev \<Rightarrow> log_effect list \<times> dev" where
  "drain_log s vb d =
     (case get_events s d of
        (None, d') \<Rightarrow> ([], d')
      | (Some el, d') \<Rightarrow> (concat (map (event_log vb) (take (el_count el) (el_events el))), d'))"

subsection \<open>The environment and the state of the daemon\<close>

text \<open>\<open>me_mem pid\<close> is None when /proc/pid/mem cannot be opened, and otherwise gives for the v-th mapping the
  results of the successive reads.\<close>

record menv =
  me_sys :: dsys
  me_now :: int
  me_verbose :: bool
  me_getenv :: "string \<Rightarrow> string option"
  me_environ :: "int \<Rightarrow> string option list option"
  me_fs :: layer_fs
  me_render :: render_env
  me_modules :: "string option"
  me_mem :: "int \<Rightarrow> (nat \<Rightarrow> nat \<Rightarrow> u64 \<Rightarrow> nat \<Rightarrow> pread_result) option"
  me_fopen :: "string \<Rightarrow> string option"
  me_stack :: "u8 list"

datatype check = Check_sys | Check_mod | Check_scan | Check_baseline | Check_render | Check_preload
  | Check_vklayer | Check_implicit

record daemon =
  dm_dev :: dev
  dm_anon :: "ac_anon_baseline list"
  dm_preload :: "ac_preload_warned list"
  dm_vklayer :: "ac_vklayer_warned list"
  dm_implicit :: "ac_implicit_layer_baseline list"
  dm_next :: "check \<Rightarrow> int"
  dm_ran :: "(check \<times> int) list"

definition daemon_init :: "dev \<Rightarrow> daemon" where
  "daemon_init d = \<lparr>dm_dev = d, dm_anon = anon_baseline_init, dm_preload = preload_warned_init,
     dm_vklayer = vklayer_warned_init, dm_implicit = implicit_layer_baseline_init, dm_next = (\<lambda>_. 0), dm_ran = []\<rparr>"

subsection \<open>The syscall table and the mappings of protected processes\<close>

definition check_syscalls_periodic :: "dsys \<Rightarrow> bool \<Rightarrow> dev \<Rightarrow> (int \<times> log_effect list) \<times> dev" where
  "check_syscalls_periodic s vb d =
     (case dev_ioctl s CHECK_SYSCALLS no_arg d of
        ((RetOK, R_syscalls c), d') \<Rightarrow>
          ((int (sc_hooked c),
            if sc_hooked c \<noteq> 0
            then logmsg vb LOG_CRIT (''SYSCALL TABLE COMPROMISED: '' @ show_nat (sc_hooked c)
                   @ '' hooked entries (table @ '' @ show_alt_hex (unat (sc_table_addr c)) @ '')'')
            else []), d')
      | (_, d') \<Rightarrow> ((-1, []), d'))"

definition rwx_text :: "int \<Rightarrow> string \<Rightarrow> nat \<Rightarrow> string" where
  "rwx_text pid comm n = ''pid '' @ show_int pid @ '' ('' @ comm @ ''): '' @ show_nat n @ '' RWX mapping(s) present''"

fun scan_loop ::
  "dsys \<Rightarrow> bool \<Rightarrow> ac_prot_item list \<Rightarrow> ac_anon_baseline list \<Rightarrow> dev \<Rightarrow>
     (ac_anon_baseline list \<times> log_effect list) \<times> dev"
where
  "scan_loop s vb [] t d = ((t, []), d)"
| "scan_loop s vb (it # its) t d =
     (case scan_begin s (pi_pid it) 0 d of
        (None, d1) \<Rightarrow> scan_loop s vb its t d1
      | (Some b, d1) \<Rightarrow>
          let l1 = (if 0 < sb_rwx_count b
                    then logmsg vb LOG_WARNING (rwx_text (pi_pid it) (pi_comm it) (sb_rwx_count b)) else []);
              (t1, l2) = anon_baseline_check vb (pi_pid it) (pi_comm it) (sb_anon_exec_count b)
                           (pi_jit_allowed it \<noteq> 0) t;
              ((t2, l3), d2) = scan_loop s vb its t1 (scan_end s d1)
          in ((t2, l1 @ l2 @ l3), d2))"

definition scan_protected_periodic ::
  "dsys \<Rightarrow> bool \<Rightarrow> ac_anon_baseline list \<Rightarrow> dev \<Rightarrow> (ac_anon_baseline list \<times> log_effect list) \<times> dev"
where
  "scan_protected_periodic s vb t d =
     (case list_protected s d of
        (None, d1) \<Rightarrow> ((t, []), d1)
      | (Some pl, d1) \<Rightarrow>
          scan_loop s vb (take (pl_count pl) (pl_items pl)) (anon_baseline_forget_stale pl t) d1)"

subsection \<open>Baselines\<close>

definition baseline_text :: "int \<Rightarrow> string \<Rightarrow> string \<Rightarrow> string" where
  "baseline_text pid comm path =
     ''pid '' @ show_int pid @ '' ('' @ comm @ ''): memory content of '' @ path
     @ '' differs from saved baseline (possible runtime patching)''"

text \<open>One mapping. None: the hashing does not return.\<close>

definition baseline_check :: "menv \<Rightarrow> int \<Rightarrow> string \<Rightarrow> nat \<Rightarrow> ac_vma_info \<Rightarrow> log_effect list option" where
  "baseline_check e pid comm v vi =
     (if \<not> is_exec (vi_flags vi) \<or> \<not> vi_is_file vi then Some []
      else Option.bind (baseline_path_for (me_getenv e ''AC_BASELINE_DIR'') (me_stack e) (vi_path vi)) (\<lambda>blpath.
        case saved_digest (me_fopen e blpath) of
          None \<Rightarrow> Some []
        | Some bhex \<Rightarrow>
            (case me_mem e pid of
               None \<Rightarrow> Some []
             | Some rd \<Rightarrow>
                 Option.bind (hash_proc_mem (rd v) (me_stack e) (vi_start vi) (hash_size vi)) (\<lambda>h.
                   case h of
                     None \<Rightarrow> Some []
                   | Some hex \<Rightarrow>
                       Some (if bhex \<noteq> hex
                             then logmsg (me_verbose e) LOG_CRIT (baseline_text pid comm (vi_path vi))
                             else [])))))"

fun vma_checks :: "menv \<Rightarrow> int \<Rightarrow> string \<Rightarrow> nat \<Rightarrow> ac_vma_info list \<Rightarrow> log_effect list option" where
  "vma_checks e pid comm v [] = Some []"
| "vma_checks e pid comm v (vi # vis) =
     Option.bind (baseline_check e pid comm v vi) (\<lambda>l1.
       Option.bind (vma_checks e pid comm (Suc v) vis) (\<lambda>l2. Some (l1 @ l2)))"

fun baselines_loop :: "menv \<Rightarrow> ac_prot_item list \<Rightarrow> dev \<Rightarrow> (log_effect list \<times> dev) option" where
  "baselines_loop e [] d = Some ([], d)"
| "baselines_loop e (it # its) d =
     (case scan_vmas (me_sys e) (pi_pid it) 0 d of
        (None, d1) \<Rightarrow> baselines_loop e its d1
      | (Some (b, vis), d1) \<Rightarrow>
          Option.bind (vma_checks e (pi_pid it) (pi_comm it) 0 vis) (\<lambda>l1.
            Option.bind (baselines_loop e its d1) (\<lambda>(l2, d2). Some (l1 @ l2, d2))))"

definition check_baselines_periodic :: "menv \<Rightarrow> dev \<Rightarrow> (log_effect list \<times> dev) option" where
  "check_baselines_periodic e d =
     (case list_protected (me_sys e) d of
        (None, d1) \<Rightarrow> Some ([], d1)
      | (Some pl, d1) \<Rightarrow> baselines_loop e (take (pl_count pl) (pl_items pl)) d1)"

subsection \<open>Render hooks\<close>

fun render_loop :: "menv \<Rightarrow> ac_prot_item list \<Rightarrow> dev \<Rightarrow> log_effect list \<times> dev" where
  "render_loop e [] d = ([], d)"
| "render_loop e (it # its) d =
     (let (r, d1) = scan_vmas (me_sys e) (pi_pid it) 0 d;
          l1 = render_hook_log (me_verbose e) (me_render e) (pi_pid it) (pi_comm it) (map_option snd r);
          (l2, d2) = render_loop e its d1
      in (l1 @ l2, d2))"

definition check_render_hooks_periodic :: "menv \<Rightarrow> dev \<Rightarrow> log_effect list \<times> dev" where
  "check_render_hooks_periodic e d =
     (case list_protected (me_sys e) d of
        (None, d1) \<Rightarrow> ([], d1)
      | (Some pl, d1) \<Rightarrow> render_loop e (take (pl_count pl) (pl_items pl)) d1)"

subsection \<open>The loop\<close>

definition all_checks :: "check list" where
  "all_checks = [Check_sys, Check_mod, Check_scan, Check_baseline, Check_render, Check_preload, Check_vklayer,
     Check_implicit]"

fun check_interval :: "(string \<Rightarrow> string option) \<Rightarrow> check \<Rightarrow> int" where
  "check_interval getenv Check_sys = 5"
| "check_interval getenv Check_mod = 10"
| "check_interval getenv Check_scan = ac_scan_check_interval getenv"
| "check_interval getenv Check_baseline = ac_baseline_check_interval getenv"
| "check_interval getenv Check_render = ac_render_hook_check_interval getenv"
| "check_interval getenv Check_preload = ac_ld_preload_check_interval getenv"
| "check_interval getenv Check_vklayer = ac_vk_layer_check_interval getenv"
| "check_interval getenv Check_implicit = ac_implicit_layer_check_interval getenv"

fun run_check :: "menv \<Rightarrow> check \<Rightarrow> daemon \<Rightarrow> (log_effect list \<times> daemon) option" where
  "run_check e Check_sys d =
     (case check_syscalls_periodic (me_sys e) (me_verbose e) (dm_dev d) of
        ((_, l), v) \<Rightarrow> Some (l, d\<lparr>dm_dev := v\<rparr>))"
| "run_check e Check_mod d =
     (case check_modules_periodic (me_sys e) (me_verbose e) (me_modules e) (dm_dev d) of
        ((_, l), v) \<Rightarrow> Some (l, d\<lparr>dm_dev := v\<rparr>))"
| "run_check e Check_scan d =
     (case scan_protected_periodic (me_sys e) (me_verbose e) (dm_anon d) (dm_dev d) of
        ((t, l), v) \<Rightarrow> Some (l, d\<lparr>dm_dev := v, dm_anon := t\<rparr>))"
| "run_check e Check_baseline d =
     Option.bind (check_baselines_periodic e (dm_dev d)) (\<lambda>(l, v). Some (l, d\<lparr>dm_dev := v\<rparr>))"
| "run_check e Check_render d =
     (case check_render_hooks_periodic e (dm_dev d) of (l, v) \<Rightarrow> Some (l, d\<lparr>dm_dev := v\<rparr>))"
| "run_check e Check_preload d =
     (let (pl, v) = list_protected (me_sys e) (dm_dev d);
          (t, l) = check_ld_preload_periodic (me_verbose e) (me_environ e) pl (dm_preload d)
      in Some (l, d\<lparr>dm_dev := v, dm_preload := t\<rparr>))"
| "run_check e Check_vklayer d =
     (let (pl, v) = list_protected (me_sys e) (dm_dev d);
          (t, l) = check_vk_layers_periodic (me_verbose e) (me_environ e) pl (dm_vklayer d)
      in Some (l, d\<lparr>dm_dev := v, dm_vklayer := t\<rparr>))"
| "run_check e Check_implicit d =
     (let (pl, v) = list_protected (me_sys e) (dm_dev d);
          (t, l) = check_implicit_layers_periodic (me_verbose e) (me_fs e) pl (dm_implicit d)
      in Some (l, d\<lparr>dm_dev := v, dm_implicit := t\<rparr>))"

text \<open>\<open>if (now >= next_x) { check; next_x = now + interval; }\<close>\<close>

definition timed_check :: "menv \<Rightarrow> check \<Rightarrow> daemon \<Rightarrow> (log_effect list \<times> daemon) option" where
  "timed_check e c d =
     (if dm_next d c \<le> me_now e
      then Option.bind (run_check e c d) (\<lambda>(l, d').
             Some (l, d'\<lparr>dm_next := (dm_next d')(c := me_now e + check_interval (me_getenv e) c),
                         dm_ran := dm_ran d' @ [(c, me_now e)]\<rparr>))
      else Some ([], d))"

fun timed_checks :: "menv \<Rightarrow> check list \<Rightarrow> daemon \<Rightarrow> (log_effect list \<times> daemon) option" where
  "timed_checks e [] d = Some ([], d)"
| "timed_checks e (c # cs) d =
     Option.bind (timed_check e c d) (\<lambda>(l1, d1).
       Option.bind (timed_checks e cs d1) (\<lambda>(l2, d2). Some (l1 @ l2, d2)))"

text \<open>One iteration of \<open>while (!g_stop)\<close>.\<close>

definition monitor_cycle :: "menv \<Rightarrow> daemon \<Rightarrow> (log_effect list \<times> daemon) option" where
  "monitor_cycle e d =
     (let (l1, v) = drain_log (me_sys e) (me_verbose e) (dm_dev d)
      in Option.bind (timed_checks e all_checks (d\<lparr>dm_dev := v\<rparr>)) (\<lambda>(l2, d2). Some (l1 @ l2, d2)))"

text \<open>The loop, until a signal sets \<open>g_stop\<close> after the last iteration of the list.\<close>

fun monitor_run :: "menv list \<Rightarrow> daemon \<Rightarrow> (log_effect list \<times> daemon) option" where
  "monitor_run [] d = Some ([], d)"
| "monitor_run (e # es) d =
     Option.bind (monitor_cycle e d) (\<lambda>(l1, d1).
       Option.bind (monitor_run es d1) (\<lambda>(l2, d2). Some (l1 @ l2, d2)))"

subsection \<open>Starting the daemon\<close>

definition AC_DEV_PATH :: string where "AC_DEV_PATH = ''/dev/anticheat''"

text \<open>What \<open>cmd_start\<close> meets before its loop: the effective user, the error texts of \<open>open\<close> and of the forks
  (None: they succeeded), the process id of the process that goes on, and the texts of the error codes.\<close>

record start_env =
  se_euid :: nat
  se_open :: "string option"
  se_fork :: "string option"
  se_pid :: int
  se_sys :: dsys
  se_verbose :: bool
  se_strerror :: "errno \<Rightarrow> string"
  se_cpuid :: cpuid
  se_fopen :: "string \<Rightarrow> string option"

datatype start_result = Died string | Stopped "log_effect list" daemon

definition open_failed :: "string \<Rightarrow> string" where
  "open_failed err = ''cannot open '' @ AC_DEV_PATH @ '': '' @ err
     @ '' (is the module loaded? try: sudo insmod anticheat.ko)''"

definition self_protect :: "start_env \<Rightarrow> dev \<Rightarrow> log_effect list \<times> dev" where
  "self_protect e d =
     (case dev_ioctl (se_sys e) ADD_PROC (proc_arg (se_pid e) 0 0) d of
        ((RetErr er, _), d') \<Rightarrow>
          (logmsg (se_verbose e) LOG_WARNING
             (''failed to self-protect (pid '' @ show_int (se_pid e) @ ''): '' @ se_strerror e er), d')
      | ((RetOK, _), d') \<Rightarrow>
          (logmsg (se_verbose e) LOG_INFO (''self-protected (pid '' @ show_int (se_pid e) @ '')''), d'))"

text \<open>The whole command: \<open>es\<close> are the iterations of the loop until a signal stops it.\<close>

definition cmd_start :: "string list \<Rightarrow> start_env \<Rightarrow> menv list \<Rightarrow> dev \<Rightarrow> start_result option" where
  "cmd_start argv e es d =
     (let foreground = ''--foreground'' \<in> set argv
      in if se_euid e \<noteq> 0 then Some (Died ''anticheat start must run as root'')
         else (case se_open e of
           Some err \<Rightarrow> Some (Died (open_failed err))
         | None \<Rightarrow>
             (case (if foreground then None else se_fork e) of
                Some err \<Rightarrow> Some (Died (''fork: '' @ err))
              | None \<Rightarrow>
                  let l1 = logmsg (se_verbose e) LOG_INFO
                             (''anticheat daemon started (foreground='' @ (if foreground then ''1'' else ''0'') @ '')'');
                      (l2, d1) = self_protect e d;
                      l3 = vm_startup_log (se_verbose e) (se_cpuid e) (se_fopen e)
                  in Option.bind (monitor_run es (daemon_init d1)) (\<lambda>(l4, dm).
                       Some (Stopped (l1 @ l2 @ l3 @ l4
                               @ logmsg (se_verbose e) LOG_INFO ''anticheat daemon stopped'') dm)))))"

subsection \<open>Every iteration returns\<close>

definition menv_ok :: "menv \<Rightarrow> bool" where
  "menv_ok e \<longleftrightarrow> length (me_stack e) = 64 \<and>
     (\<forall>pid rd v. me_mem e pid = Some rd \<longrightarrow> reads_progress (rd v))"

lemma baseline_check_returns:
  assumes "menv_ok e"
  shows "baseline_check e pid comm v vi \<noteq> None"
proof -
  have stack: "length (me_stack e) = 64" using assms by (simp add: menv_ok_def)
  have "hash_proc_mem (rd v) (me_stack e) start sz \<noteq> None" if "me_mem e pid = Some rd" for rd v start sz
    using assms that by (intro hash_proc_mem_returns) (auto simp: menv_ok_def)
  moreover have "baseline_path_for g (me_stack e) path \<noteq> None" for g path
    using stack by (simp add: baseline_path_for_def ac_sha256_hex_spec)
  ultimately show ?thesis
    unfolding baseline_check_def
    by (auto iff del: not_None_eq elim!: bind_NoneE split: option.splits)
qed

lemma vma_checks_returns: "menv_ok e \<Longrightarrow> vma_checks e pid comm v vis \<noteq> None"
  using baseline_check_returns [of e] by (induction vis arbitrary: v) (auto iff del: not_None_eq elim!: bind_NoneE)

lemma baselines_loop_returns: "menv_ok e \<Longrightarrow> baselines_loop e its d \<noteq> None"
  using vma_checks_returns [of e]
  by (induction its arbitrary: d) (auto iff del: not_None_eq elim!: bind_NoneE split: option.splits prod.splits)

lemma run_check_returns: "menv_ok e \<Longrightarrow> run_check e c d \<noteq> None"
  using baselines_loop_returns [of e]
  by (cases c) (auto simp: check_baselines_periodic_def Let_def  iff del: not_None_eq elim!: bind_NoneE split: option.splits prod.splits)

lemma timed_checks_returns: "menv_ok e \<Longrightarrow> timed_checks e cs d \<noteq> None"
  using run_check_returns [of e]
  by (induction cs arbitrary: d) (auto simp: timed_check_def  iff del: not_None_eq elim!: bind_NoneE split: option.splits prod.splits)

lemma monitor_cycle_returns: "menv_ok e \<Longrightarrow> monitor_cycle e d \<noteq> None"
  using timed_checks_returns [of e] by (auto simp: monitor_cycle_def iff del: not_None_eq elim!: bind_NoneE split: prod.splits)

lemma monitor_run_returns: "\<forall>e \<in> set es. menv_ok e \<Longrightarrow> monitor_run es d \<noteq> None"
  using monitor_cycle_returns
  by (induction es arbitrary: d) (auto iff del: not_None_eq elim!: bind_NoneE split: prod.splits)

subsection \<open>When the checks run\<close>

lemma check_interval_pos: "0 < check_interval g c"
  by (cases c)
    (simp_all add: ac_scan_check_interval_def ac_baseline_check_interval_def ac_render_hook_check_interval_def
      ac_ld_preload_check_interval_def ac_vk_layer_check_interval_def ac_implicit_layer_check_interval_def
      env_interval_strict [THEN conjunct1] INT_MAX_def)

lemma run_check_times:
  assumes "run_check e c d = Some (l, d')"
  shows "dm_next d' = dm_next d" "dm_ran d' = dm_ran d"
  using assms by (cases c; auto simp: Let_def bind_eq_Some_conv split: prod.splits option.splits)+

definition due :: "menv \<Rightarrow> daemon \<Rightarrow> check \<Rightarrow> bool" where
  "due e d c \<longleftrightarrow> dm_next d c \<le> me_now e"

lemma timed_checks_times:
  assumes "timed_checks e cs d = Some (l, d')" "distinct cs"
  shows "dm_next d' = (\<lambda>c. if c \<in> set cs \<and> due e d c then me_now e + check_interval (me_getenv e) c else dm_next d c) \<and>
    dm_ran d' = dm_ran d @ map (\<lambda>c. (c, me_now e)) (filter (due e d) cs)"
  using assms
proof (induction cs arbitrary: d l)
  case (Cons c cs)
  obtain l1 d1 l2 where t: "timed_check e c d = Some (l1, d1)" "timed_checks e cs d1 = Some (l2, d')"
    using Cons.prems(1) by (auto simp: bind_eq_Some_conv)
  have d1: "dm_next d1 = (if due e d c then (dm_next d)(c := me_now e + check_interval (me_getenv e) c) else dm_next d)"
    "dm_ran d1 = dm_ran d @ (if due e d c then [(c, me_now e)] else [])"
    using t(1) run_check_times [of e c d] by (auto simp: timed_check_def due_def bind_eq_Some_conv split: if_splits)
  have same: "due e d1 x = due e d x" if "x \<in> set cs" for x
    using that Cons.prems(2) d1(1) by (auto simp: due_def)
  then have "filter (due e d1) cs = filter (due e d) cs" by (auto intro: filter_cong)
  moreover have "dm_next d' x = (if x \<in> set cs \<and> due e d1 x then me_now e + check_interval (me_getenv e) x else dm_next d1 x)" for x
    using Cons.IH [OF t(2)] Cons.prems(2) by simp
  ultimately show ?case
    using Cons.IH [OF t(2)] Cons.prems(2) d1 same by (auto simp: fun_eq_iff)
qed simp

lemma set_all_checks: "set all_checks = UNIV" and distinct_all_checks: "distinct all_checks"
proof -
  have "c \<in> set all_checks" for c by (cases c) (simp_all add: all_checks_def)
  then show "set all_checks = UNIV" by blast
qed (simp add: all_checks_def)

lemma monitor_cycle_times:
  assumes "monitor_cycle e d = Some (l, d')"
  shows "dm_next d' = (\<lambda>c. if due e d c then me_now e + check_interval (me_getenv e) c else dm_next d c)"
    "dm_ran d' = dm_ran d @ map (\<lambda>c. (c, me_now e)) (filter (due e d) all_checks)"
proof -
  obtain l2 v where "timed_checks e all_checks (d\<lparr>dm_dev := v\<rparr>) = Some (l2, d')"
    using assms by (auto simp: monitor_cycle_def bind_eq_Some_conv split: prod.splits)
  from timed_checks_times [OF this distinct_all_checks]
  show "dm_next d' = (\<lambda>c. if due e d c then me_now e + check_interval (me_getenv e) c else dm_next d c)"
    "dm_ran d' = dm_ran d @ map (\<lambda>c. (c, me_now e)) (filter (due e d) all_checks)"
    by (simp_all add: set_all_checks due_def [abs_def] cong: if_cong)
qed

text \<open>The times at which a check ran.\<close>

definition ran_at :: "check \<Rightarrow> daemon \<Rightarrow> int list" where
  "ran_at c d = map snd (filter (\<lambda>r. fst r = c) (dm_ran d))"

lemma ran_at_cycle:
  assumes "monitor_cycle e d = Some (l, d')"
  shows "ran_at c d' = ran_at c d @ (if due e d c then [me_now e] else [])"
proof -
  have "filter (\<lambda>r. fst r = c) (map (\<lambda>c. (c, me_now e)) (filter (due e d) cs))
      = (if due e d c \<and> c \<in> set cs then [(c, me_now e)] else [])" if "distinct cs" for cs
    using that by (induction cs) auto
  from this [OF distinct_all_checks] show ?thesis
    by (simp add: ran_at_def monitor_cycle_times(2) [OF assms] set_all_checks)
qed

lemma monitor_run_append:
  "monitor_run (es @ es') d =
     Option.bind (monitor_run es d) (\<lambda>(l1, d1).
       Option.bind (monitor_run es' d1) (\<lambda>(l2, d2). Some (l1 @ l2, d2)))"
proof (induction es arbitrary: d)
  case Nil
  then show ?case by (cases "monitor_run es' d") auto
next
  case (Cons e es)
  show ?case
  proof (cases "monitor_cycle e d")
    case (Some r)
    then show ?thesis
      by (cases "monitor_run es (snd r)"; cases r)
        (auto simp: Cons.IH case_prod_beta split: option.split intro!: arg_cong [where f = "Option.bind _"])
  qed simp
qed

fun spaced :: "int \<Rightarrow> int list \<Rightarrow> bool" where
  "spaced k (t # t' # ts) \<longleftrightarrow> t + k \<le> t' \<and> spaced k (t' # ts)"
| "spaced k ts \<longleftrightarrow> True"

lemma spaced_snoc: "spaced k (ts @ [t]) \<longleftrightarrow> spaced k ts \<and> (ts = [] \<or> last ts + k \<le> t)"
  by (induction k ts rule: spaced.induct) auto

lemma schedule_invariant:
  assumes "monitor_run es (daemon_init v) = Some (l, d)" "sorted (map me_now es)" "es \<noteq> []"
    "\<forall>e \<in> set es. 0 \<le> me_now e \<and> me_getenv e = g"
  shows "ran_at c d \<noteq> [] \<and> hd (ran_at c d) = me_now (hd es) \<and> spaced (check_interval g c) (ran_at c d) \<and>
    dm_next d c = last (ran_at c d) + check_interval g c \<and> me_now (last es) < dm_next d c \<and>
    set (ran_at c d) \<subseteq> me_now ` set es"
  using assms
proof (induction es arbitrary: l d rule: rev_induct)
  case (snoc e es)
  obtain l1 d1 l2 where r: "monitor_run es (daemon_init v) = Some (l1, d1)" "monitor_cycle e d1 = Some (l2, d)"
    using snoc.prems(1) by (auto simp: monitor_run_append bind_eq_Some_conv)
  have g: "me_getenv e = g" "0 \<le> me_now e" using snoc.prems(4) by auto
  have d: "dm_next d c = (if due e d1 c then me_now e + check_interval g c else dm_next d1 c)"
    "ran_at c d = ran_at c d1 @ (if due e d1 c then [me_now e] else [])"
    using monitor_cycle_times(1) [OF r(2)] ran_at_cycle [OF r(2)] g by simp_all
  show ?case
  proof (cases "es = []")
    case True
    then have "due e d1 c" "ran_at c d1 = []"
      using r(1) g by (auto simp: daemon_init_def due_def ran_at_def)
    with True d show ?thesis using check_interval_pos [of g c] by simp
  next
    case False
    have IH: "ran_at c d1 \<noteq> []" "hd (ran_at c d1) = me_now (hd es)" "spaced (check_interval g c) (ran_at c d1)"
      "dm_next d1 c = last (ran_at c d1) + check_interval g c" "set (ran_at c d1) \<subseteq> me_now ` set es"
      using snoc.IH [OF r(1)] snoc.prems(2,4) False by (auto simp: sorted_append)
    show ?thesis
      using d IH False check_interval_pos [of g c] by (auto simp: spaced_snoc due_def)
  qed
qed simp

subsection \<open>Properties\<close>


definition demo_menv :: "int \<Rightarrow> kcall \<Rightarrow> menv" where
  "demo_menv now k = \<lparr>me_sys = demo_sys k, me_now = now, me_verbose = False, me_getenv = (\<lambda>_. None),
     me_environ = (\<lambda>_. None),
     me_fs = \<lparr>fs_status = (\<lambda>_. None), fs_home = (\<lambda>_. None), fs_dir = (\<lambda>_. None), fs_read = (\<lambda>_ _. None),
              fs_environ = (\<lambda>_. None)\<rparr>,
     me_render = \<lparr>r_open = (\<lambda>_. None), r_mem = (\<lambda>_. None), r_malloc = (\<lambda>_. True)\<rparr>,
     me_modules = None, me_mem = (\<lambda>_. None), me_fopen = (\<lambda>_. None), me_stack = replicate 64 0\<rparr>"


text \<open>The deadlines are taken from the wall clock: when it is set back before them, an iteration runs no check
  at all and only drains the events.\<close>

lemma clock_back_suspends:
  assumes "\<forall>c. me_now e < dm_next d c"
  shows "monitor_cycle e d = (case drain_log (me_sys e) (me_verbose e) (dm_dev d) of (l, v) \<Rightarrow> Some (l, d\<lparr>dm_dev := v\<rparr>))"
proof -
  have "\<not> dm_next d c \<le> me_now e" for c using assms by (simp add: not_le)
  then have "timed_checks e cs (d\<lparr>dm_dev := v\<rparr>) = Some ([], d\<lparr>dm_dev := v\<rparr>)" for cs v
    by (induction cs) (simp_all add: timed_check_def)
  then show ?thesis by (simp add: monitor_cycle_def split: prod.split)
qed

subsection \<open>What the start of the daemon reports\<close>

lemma self_protect_no_report: "reports_of (fst (self_protect e d)) = []"
  by (auto simp: self_protect_def reports_of_logmsg ac_consts split: prod.splits kret.splits)

lemma vm_startup_no_report: "reports_of (vm_startup_log vb cpuid fopen) = []"
  by (auto simp: vm_startup_log_def reports_of_logmsg Let_def ac_consts split: prod.splits)

text \<open>Everything the daemon reports comes from its loop: starting, stopping and the search for a
  hypervisor never do.\<close>

lemma start_reports_from_loop:
  assumes "cmd_start argv e es d = Some (Stopped l dm)"
  shows "\<exists>l4. monitor_run es (daemon_init (snd (self_protect e d))) = Some (l4, dm) \<and> reports_of l = reports_of l4"
  using assms self_protect_no_report [of e d]
  by (auto simp: cmd_start_def bind_eq_Some_conv Let_def reports_of_logmsg vm_startup_no_report ac_consts
      split: if_splits option.splits prod.splits)

end
