(* ===== verification/Daemon_Detections.thy ===== *)
theory Daemon_Detections
  imports Daemon_Monitor
begin

text \<open>
  What the monitoring daemon detects: the lemmas and properties of the periodic checks of \<open>Daemon_Monitor\<close>.
  A scan cycle reports the growth of anonymous executable memory, the baseline check reports code that no
  longer has its saved digest, and the events the module queued are reported when they are denials or
  hooks. Each is stated for a cycle during which the processes do not change their mappings.
\<close>

subsection \<open>Growth of anonymous executable memory\<close>

lemma scan_end_calls: "dv_calls (scan_end s d) = Suc (dv_calls d)"
  by (simp add: scan_end_def)

text \<open>What a cycle observes when the processes do not change during it.\<close>

definition observed :: "kcall \<Rightarrow> ac_prot_item list \<Rightarrow> (int \<times> string \<times> nat \<times> bool) list" where
  "observed k its =
     map (\<lambda>it. (pi_pid it, pi_comm it, call_anon_exec k (pi_pid it), pi_jit_allowed it \<noteq> 0))
       (filter (\<lambda>it. scannable k (pi_pid it)) its)"

lemma reports_rwx: "reports_of (if 0 < n then logmsg vb LOG_WARNING (rwx_text p c n) else []) = []"
  by (simp add: reports_of_logmsg ac_consts)

lemma scan_loop_observed:
  assumes "privileged s" "\<forall>n. sys_call s n = k" "k_alloc_fd k" "k_alloc_snapshot k"
  shows "fst (fst (scan_loop s vb its t d)) = fst (anon_checks vb (observed k its) t) \<and>
    reports_of (snd (fst (scan_loop s vb its t d))) = reports_of (snd (anon_checks vb (observed k its) t))"
proof (induction its arbitrary: t d)
  case Nil
  then show ?case by (simp add: observed_def)
next
  case (Cons it its)
  have b: "if scannable k (pi_pid it)
    then \<exists>b. fst (scan_begin s (pi_pid it) 0 d) = Some b \<and> sb_anon_exec_count b = call_anon_exec k (pi_pid it)
    else fst (scan_begin s (pi_pid it) 0 d) = None"
    using scan_begin_counts [OF assms(1), of d "pi_pid it" 0] assms(2-4) by (auto split: if_splits)
  obtain r d1 where r: "scan_begin s (pi_pid it) 0 d = (r, d1)" by (cases "scan_begin s (pi_pid it) 0 d")
  show ?case
  proof (cases "scannable k (pi_pid it)")
    case False
    then show ?thesis using b r Cons.IH by (simp add: observed_def)
  next
    case True
    then obtain b' where "r = Some b'" "sb_anon_exec_count b' = call_anon_exec k (pi_pid it)" using b r by auto
    then show ?thesis
      using True r Cons.IH by (simp add: observed_def case_prod_beta Let_def reports_rwx)
  qed
qed

definition growth_report :: "kcall \<Rightarrow> ac_anon_baseline list \<Rightarrow> ac_prot_item \<Rightarrow> (string \<times> string) list" where
  "growth_report k t it =
     (case anon_map t (pi_pid it) of
        None \<Rightarrow> []
      | Some old \<Rightarrow>
          if scannable k (pi_pid it) \<and> old < call_anon_exec k (pi_pid it) \<and> pi_jit_allowed it = 0
          then [(''CRITICAL'', snprintf 512 (growth_text (pi_pid it) (pi_comm it) old (call_anon_exec k (pi_pid it))
                   ''possible code injection after process start''))]
          else [])"

lemma observed_reports:
  assumes "\<forall>it \<in> set its. anon_map t' (pi_pid it) = anon_map t (pi_pid it)"
  shows "reports_of (concat (map (\<lambda>(p, c, n, j). case anon_map t' p of None \<Rightarrow> [] | Some old \<Rightarrow> anon_growth_log vb p c old n j)
      (observed k its))) = concat (map (growth_report k t) its)"
  using assms
proof (induction its)
  case (Cons it its)
  have "reports_of (case anon_map t (pi_pid it) of None \<Rightarrow> []
      | Some old \<Rightarrow> anon_growth_log vb (pi_pid it) (pi_comm it) old (call_anon_exec k (pi_pid it)) (pi_jit_allowed it \<noteq> 0))
      = growth_report k t it" if "scannable k (pi_pid it)"
    using that by (auto simp: growth_report_def reports_of_growth split: option.split)
  moreover have "growth_report k t it = []" if "\<not> scannable k (pi_pid it)"
    using that by (simp add: growth_report_def split: option.split)
  ultimately show ?case using Cons by (simp add: observed_def reports_of_concat)
qed (simp add: observed_def)

lemma map_of_observed:
  "map_of (map (\<lambda>(p, c, n, j). (p, n)) (observed k its)) p =
     (if p \<in> pi_pid ` set its \<and> scannable k p then Some (call_anon_exec k p) else None)"
  by (induction its) (auto simp: observed_def)

text \<open>C5. A scan cycle of a privileged daemon whose device calls can allocate reports exactly the growth of
  anonymous executable memory: for a process that was seen before, a critical report goes out if and only if its count is above the one last seen and the process is
  not marked as using a just-in-time compiler; the first scan of a process only records its count; afterwards
  the table holds the new count of every protected process that could be scanned, the old one of those
  that could not, and nothing of processes no longer protected. Writable-and-executable mappings alone
  are never reported.\<close>

theorem growth_reported:
  assumes "privileged s" "\<forall>n. sys_call s n = k" "k_alloc_fd k" "k_alloc_snapshot k"
    and "dev_ok s d" "anon_inv t" "distinct (listed_pids (ac_list_protected (m_reg (now_mod s d))))"
  shows "let pl = ac_list_protected (m_reg (now_mod s d)); its = take (pl_count pl) (pl_items pl);
             ((t', l), d') = scan_protected_periodic s vb t d
         in anon_inv t' \<and>
            (\<forall>p. anon_map t' p = (if p \<notin> pi_pid ` set its then None
                                  else if scannable k p then Some (call_anon_exec k p) else anon_map t p)) \<and>
            reports_of l = concat (map (growth_report k t) its)"
proof -
  let ?pl = "ac_list_protected (m_reg (now_mod s d))"
  let ?its = "take (pl_count ?pl) (pl_items ?pl)" and ?t = "anon_baseline_forget_stale ?pl t"
  let ?d = "d\<lparr>dv_mod := now_mod s d, dv_calls := Suc (dv_calls d)\<rparr>"
  let ?obs = "observed k ?its"
  have K: "set (listed_pids ?pl) = pi_pid ` set ?its" by (simp add: listed_pids_def)
  have lookup: "anon_map ?t = anon_map t |` (pi_pid ` set ?its)"
    using anon.lookup_retain [OF assms(6), of ?pl] by (simp add: K)
  have "registry_ok (m_reg (now_mod s d))"
    using module_invD(2) [OF now_mod_inv [OF assms(5)]] .
  then have "pl_count ?pl \<le> 64" using list_protected_complete by auto
  then have card: "card (set (listed_pids ?pl)) \<le> AC_MAX_PROTS"
    using card_length [of "listed_pids ?pl"] by (simp add: listed_pids_def ac_consts)
  have obs: "map fst ?obs = map pi_pid (filter (\<lambda>it. scannable k (pi_pid it)) ?its)"
    by (simp add: observed_def)
  have dist: "distinct (map fst ?obs)"
    unfolding obs using assms(7) by (simp add: listed_pids_def distinct_map_filter)
  have sub: "fst ` set ?obs \<subseteq> set (listed_pids ?pl)"
    using obs [THEN arg_cong, of set] unfolding K by auto
  have tracks: "anon_inv (fst (anon_checks vb ?obs ?t)) \<and>
    anon_map (fst (anon_checks vb ?obs ?t)) = anon_map ?t ++ map_of (map (\<lambda>(p, c, n, j). (p, n)) ?obs) \<and>
    snd (anon_checks vb ?obs ?t) =
      concat (map (\<lambda>(p, c, n, j). case anon_map ?t p of None \<Rightarrow> [] | Some old \<Rightarrow> anon_growth_log vb p c old n j) ?obs)"
    by (rule anon_checks_tracks [OF anon.invar_retain [OF assms(6)] _ _ sub card dist]) (simp_all add: lookup K)
  have eq: "scan_protected_periodic s vb t d = scan_loop s vb ?its ?t ?d"
    by (simp add: scan_protected_periodic_def list_protected_eq [OF assms(1)])
  note loop = scan_loop_observed [OF assms(1-4), of vb ?its ?t ?d]
  have "reports_of (snd (fst (scan_loop s vb ?its ?t ?d))) = concat (map (growth_report k t) ?its)"
    using loop tracks observed_reports [of ?its ?t t vb k] lookup by auto
  moreover have "anon_map (fst (fst (scan_loop s vb ?its ?t ?d))) p =
      (if p \<notin> pi_pid ` set ?its then None
       else if scannable k p then Some (call_anon_exec k p) else anon_map t p)" for p
    using loop tracks by (auto simp: lookup map_add_def map_of_observed restrict_map_def)
  ultimately show ?thesis
    using loop tracks by (simp add: eq Let_def case_prod_beta)
qed

text \<open>A module that protects the task 7, and processes with one anonymous executable mapping.\<close>

definition prot_module :: ac_module where
  "prot_module = module_init\<lparr>m_reg := snd (ac_add_prot_task flat_env 7 False registry_init)\<rparr>"

definition prot_dev :: dev where
  "prot_dev = \<lparr>dv_file = \<lparr>private_data = None\<rparr>, dv_mod = prot_module, dv_calls = 0\<rparr>"

definition anon_call :: kcall where
  "anon_call = demo_call\<lparr>k_mm := \<lparr>get_task_mm = id, mm_vmas = (\<lambda>_. [demo_vma\<lparr>vm_file := None\<rparr>])\<rparr>\<rparr>"

lemma prot_module_inv: "module_inv prot_module"
  using module_init_inv registry_init_add(2) [of 7 flat_env False]
  by (auto simp: module_inv_def probes_inv_def wq_inv_def prot_module_def registry_init_def)

lemma prot_dev_ok: "dev_ok (demo_sys k) prot_dev"
  by (simp add: dev_ok_def prot_dev_def file_ok_def prot_module_inv)

lemma prot_prots:
  "ac_prots (m_reg prot_module) =
     \<lparr>pe_task = 7, pe_pid = 7, pe_jit_allowed = False, pe_comm = ''game''\<rparr> # replicate 63 zero_prot"
proof -
  have r: "replicate 64 zero_prot = zero_prot # replicate 63 zero_prot"
    by (simp add: numeral_eq_Suc)
  have "ac_prots registry_init = zero_prot # replicate 63 zero_prot"
    unfolding r [symmetric] by (simp add: registry_init_def AC_PROT_MAX_def)
  then show ?thesis
    by (simp add: prot_module_def ac_add_prot_task_def slot_scan_replicate zero_prot_def get_task_struct_def
        flat_env_def strscpy_def cstr_def NUL_def AC_MAX_COMM_def)
qed

lemma prot_items:
  "take (pl_count (ac_list_protected (m_reg prot_module))) (pl_items (ac_list_protected (m_reg prot_module)))
     = [\<lparr>pi_pid = 7, pi_jit_allowed = 0, pi_comm = ''game''\<rparr>]"
proof -
  have "filter (\<lambda>e. pe_task e \<noteq> 0) (replicate n zero_prot) = []" for n
    by (induction n) (simp_all add: zero_prot_def)
  then show ?thesis
    using list_protected_complete [OF module_invD(2) [OF prot_module_inv], THEN conjunct2, THEN conjunct2,
        THEN conjunct2, THEN conjunct1]
    by (simp add: prot_prots prot_item_of_def strscpy_def cstr_def NUL_def AC_MAX_COMM_def)
qed

definition anon_seen :: "ac_anon_baseline list" where
  "anon_seen = fst (anon_baseline_check False 7 ''game'' 0 False anon_baseline_init)"

lemma anon_seen_map: "anon_inv anon_seen" "anon_map anon_seen 7 = Some 0"
proof -
  have "0 < slots_free ab_in_use anon_baseline_init"
    by (simp add: anon_baseline_init_def slots_free_replicate AC_MAX_PROTS_def)
  then show "anon_inv anon_seen" "anon_map anon_seen 7 = Some 0"
    using anon_put(1) [of anon_baseline_init False 7 "''game''" 0 False]
      anon_put(2) [of anon_baseline_init 7 False "''game''" 0 False] tables_init_ok
    by (simp_all add: anon_seen_def)
qed

theorem growth_reported_witness:
  "length (reports_of (snd (fst (scan_protected_periodic (demo_sys anon_call) False anon_seen prot_dev)))) = 1"
proof -
  let ?s = "demo_sys anon_call"
  have call: "k_capable anon_call" "k_copy_out anon_call" "k_alloc_fd anon_call" "k_alloc_snapshot anon_call"
    by (simp_all add: anon_call_def demo_call_def)
  have now: "now_mod ?s prot_dev = prot_module" by (simp add: now_mod_def prot_dev_def)
  have scan: "scannable anon_call 7" "call_anon_exec anon_call 7 = 1"
    by (simp_all add: scannable_def call_anon_exec_def scan_mm_def resolve_pid_def flat_env_def anon_call_def
        demo_call_def demo_vma_def is_exec_def AC_VM_EXEC_def)
  have "distinct (listed_pids (ac_list_protected (m_reg (now_mod ?s prot_dev))))"
    by (simp add: now listed_pids_def prot_items)
  from growth_reported [OF _ _ call(3,4) prot_dev_ok anon_seen_map(1) this, of False] call
  have "reports_of (snd (fst (scan_protected_periodic ?s False anon_seen prot_dev)))
      = concat (map (growth_report anon_call anon_seen) [\<lparr>pi_pid = 7, pi_jit_allowed = 0, pi_comm = ''game''\<rparr>])"
    by (simp add: Let_def case_prod_beta now prot_items)
  then show ?thesis by (simp add: growth_report_def anon_seen_map scan)
qed

subsection \<open>Baselines\<close>

text \<open>The mappings of a process as a call with the circumstances \<open>k\<close> lists them.\<close>

definition vmas_of :: "kcall \<Rightarrow> int \<Rightarrow> ac_vma_info list" where
  "vmas_of k pid =
     (if scannable k pid
      then vma_infos (k_path_buf k) 0 (take 4096 (mm_vmas (k_mm k) (scan_mm (k_env k) (k_mm k) pid))) else [])"

lemma scan_vmas_quiet:
  assumes "privileged s" "\<forall>n. sys_call s n = k" "k_alloc_fd k" "k_alloc_snapshot k"
  shows "(case fst (scan_vmas s pid emit d) of None \<Rightarrow> [] | Some (b, vis) \<Rightarrow> vis) = vmas_of k pid"
    "fst (scan_vmas s pid emit d) = None \<longleftrightarrow> \<not> scannable k pid"
proof -
  obtain r d1 where r: "scan_begin s pid emit d = (r, d1)" by (cases "scan_begin s pid emit d")
  have c: "if scannable k pid then r \<noteq> None else r = None"
    using scan_begin_counts [OF assms(1), of d pid emit] assms(2-4) r by (auto split: if_splits)
  have "fst (scan_vmas s pid emit d) = (case r of None \<Rightarrow> None | Some b \<Rightarrow> Some (b, call_vmas s (dv_calls d) pid))"
    using scan_vmas_exact [OF assms(1), of pid emit d] r by (cases r) (simp_all add: scan_vmas_def)
  with c assms(2) show "(case fst (scan_vmas s pid emit d) of None \<Rightarrow> [] | Some (b, vis) \<Rightarrow> vis) = vmas_of k pid"
    "fst (scan_vmas s pid emit d) = None \<longleftrightarrow> \<not> scannable k pid"
    by (auto simp: vmas_of_def call_vmas_def Let_def split: option.splits if_splits)
qed

text \<open>The alert for a mapping whose memory is \<open>img\<close>: there is a saved digest and it is not that of the memory.\<close>

definition tampered :: "menv \<Rightarrow> u8 list \<Rightarrow> ac_vma_info \<Rightarrow> bool" where
  "tampered e img vi \<longleftrightarrow>
     is_exec (vi_flags vi) \<and> vi_is_file vi \<and>
     (case saved_digest (me_fopen e (ac_baseline_dir (me_getenv e ''AC_BASELINE_DIR'') @ ''/''
              @ digest_hex (map byte (vi_path vi)) @ ''.txt'')) of
        None \<Rightarrow> False | Some h \<Rightarrow> h \<noteq> digest_hex img)"

definition tamper_log :: "menv \<Rightarrow> (int \<Rightarrow> nat \<Rightarrow> u8 list) \<Rightarrow> kcall \<Rightarrow> ac_prot_item \<Rightarrow> log_effect list" where
  "tamper_log e img k it =
     concat (map (\<lambda>(v, vi). if tampered e (img (pi_pid it) v) vi
                            then logmsg (me_verbose e) LOG_CRIT (baseline_text (pi_pid it) (pi_comm it) (vi_path vi)) else [])
               (enumerate 0 (vmas_of k (pi_pid it))))"

text \<open>The memory of every process can be read: \<open>img pid v\<close> is the hashed part of its v-th mapping.\<close>

definition memory_readable :: "menv \<Rightarrow> (int \<Rightarrow> nat \<Rightarrow> u8 list) \<Rightarrow> kcall \<Rightarrow> bool" where
  "memory_readable e img k \<longleftrightarrow> length (me_stack e) = 64 \<and>
     (\<forall>pid. \<exists>rd. me_mem e pid = Some rd \<and>
        (\<forall>v < length (vmas_of k pid). reads_image (rd v) (vi_start (vmas_of k pid ! v)) (img pid v) \<and>
           length (img pid v) = hash_size (vmas_of k pid ! v)))"

lemma baseline_check_image:
  assumes "length (me_stack e) = 64" "length (ac_baseline_dir (me_getenv e ''AC_BASELINE_DIR'')) < 4000"
    "me_mem e pid = Some rd" "reads_image (rd v) (vi_start vi) m" "length m = hash_size vi"
  shows "baseline_check e pid comm v vi =
    Some (if tampered e m vi then logmsg (me_verbose e) LOG_CRIT (baseline_text pid comm (vi_path vi)) else [])"
  using hash_image [OF assms(4,1)] assms(3,5)
  by (auto simp: baseline_check_def tampered_def baseline_path_full [OF assms(1,2)] split: option.splits)

lemma vma_checks_image:
  assumes "\<forall>j < length vis. baseline_check e pid comm (v + j) (vis ! j) = Some (f (v + j) (vis ! j))"
  shows "vma_checks e pid comm v vis = Some (concat (map (\<lambda>(j, vi). f j vi) (enumerate v vis)))"
  using assms
proof (induction vis arbitrary: v)
  case (Cons vi vis)
  have "baseline_check e pid comm v vi = Some (f v vi)" using Cons.prems [rule_format, of 0] by simp
  moreover have "\<forall>j < length vis. baseline_check e pid comm (Suc v + j) (vis ! j) = Some (f (Suc v + j) (vis ! j))"
    using Cons.prems [rule_format, of "Suc _"] by simp
  ultimately show ?case using Cons.IH [of "Suc v"] by simp
qed simp

lemma baselines_loop_image:
  assumes "privileged (me_sys e)" "\<forall>n. sys_call (me_sys e) n = k" "k_alloc_fd k" "k_alloc_snapshot k"
    "memory_readable e img k" "length (ac_baseline_dir (me_getenv e ''AC_BASELINE_DIR'')) < 4000"
  shows "\<exists>d'. baselines_loop e its d = Some (concat (map (tamper_log e img k) its), d')"
proof (induction its arbitrary: d)
  case (Cons it its)
  obtain r d1 where r: "scan_vmas (me_sys e) (pi_pid it) 0 d = (r, d1)" by (cases "scan_vmas (me_sys e) (pi_pid it) 0 d")
  note q = scan_vmas_quiet [OF assms(1-4), of "pi_pid it" 0 d, unfolded r fst_conv]
  obtain d2 where d2: "baselines_loop e its d1 = Some (concat (map (tamper_log e img k) its), d2)"
    using Cons.IH by blast
  show ?case
  proof (cases r)
    case None
    then have "tamper_log e img k it = []" using q(2) by (simp add: tamper_log_def vmas_of_def)
    then show ?thesis using r None d2 by auto
  next
    case (Some bv)
    obtain b vis where bv: "bv = (b, vis)" by (cases bv)
    have vis: "vis = vmas_of k (pi_pid it)" using q(1) Some bv by simp
    obtain rd where rd: "me_mem e (pi_pid it) = Some rd"
      "\<forall>v < length vis. reads_image (rd v) (vi_start (vis ! v)) (img (pi_pid it) v) \<and>
         length (img (pi_pid it) v) = hash_size (vis ! v)"
      using assms(5) by (auto simp: memory_readable_def vis)
    let ?f = "\<lambda>v vi. if tampered e (img (pi_pid it) v) vi
      then logmsg (me_verbose e) LOG_CRIT (baseline_text (pi_pid it) (pi_comm it) (vi_path vi)) else []"
    have stack: "length (me_stack e) = 64" using assms(5) by (simp add: memory_readable_def)
    have "baseline_check e (pi_pid it) (pi_comm it) v (vis ! v) = Some (?f v (vis ! v))" if "v < length vis" for v
      using rd(2) that by (intro baseline_check_image [OF stack assms(6) rd(1)]) auto
    then have "vma_checks e (pi_pid it) (pi_comm it) 0 vis = Some (tamper_log e img k it)"
      unfolding tamper_log_def vis [symmetric] by (intro vma_checks_image [where f = ?f]) simp
    then show ?thesis using r Some bv d2 by auto
  qed
qed simp

text \<open>C4. The periodic baseline check reports exactly the tampered code: while the mappings do not change, the device
  calls of the privileged daemon do not fail and process memory is readable, for every protected process and every
  executable, file-backed mapping of it with a saved baseline, a critical report goes out if and only if the
  saved digest is not the SHA-256 digest of the memory the mapping has now (its first 16 MB); a mapping without
  a saved baseline is never reported, and none is created.\<close>

theorem tampering_reported:
  assumes "privileged (me_sys e)" "\<forall>n. sys_call (me_sys e) n = k" "k_alloc_fd k" "k_alloc_snapshot k"
    "memory_readable e img k" "length (ac_baseline_dir (me_getenv e ''AC_BASELINE_DIR'')) < 4000"
  shows "\<exists>d'. check_baselines_periodic e d =
    Some (concat (map (tamper_log e img k)
            (let pl = ac_list_protected (m_reg (now_mod (me_sys e) d)) in take (pl_count pl) (pl_items pl))), d')"
  using baselines_loop_image [OF assms]
  by (simp add: check_baselines_periodic_def list_protected_eq [OF assms(1)] Let_def)

definition tampered_menv :: menv where
  "tampered_menv = (demo_menv 100 demo_call)\<lparr>me_mem := (\<lambda>_. Some (\<lambda>v n a w. PBytes (replicate w 0))),
     me_fopen := (\<lambda>_. Some (baseline_line 0x400000 4096 (replicate 64 (CHR ''A''))))\<rparr>"

lemma demo_vmas: "vmas_of demo_call 7 = replicate 2 (vma_info_of True demo_vma)" "length (vmas_of demo_call pid) \<le> 2"
  "v < length (vmas_of demo_call pid) \<Longrightarrow> vmas_of demo_call pid ! v = vma_info_of True demo_vma"
  by (auto simp: vmas_of_def scannable_def scan_mm_def resolve_pid_def flat_env_def demo_call_def numeral_2_eq_2 nth_Cons'
      split: if_splits)

lemma demo_vma_info: "vi_start (vma_info_of True demo_vma) = 0x400000" "hash_size (vma_info_of True demo_vma) = 4096"
  "is_exec (vi_flags (vma_info_of True demo_vma))" "vi_is_file (vma_info_of True demo_vma)"
  by (simp_all add: vma_info_of_def demo_vma_def hash_size_def AC_HASH_CAP_def is_exec_def AC_VM_EXEC_def)

lemma zeros_image: "reads_image (\<lambda>n a w. PBytes (replicate w 0)) start (replicate sz 0)"
  by (auto simp: reads_image_def intro!: exI [where x = "_ :: nat"])

theorem tampering_reported_witness:
  "\<exists>l d'. check_baselines_periodic tampered_menv prot_dev = Some (l, d') \<and> length (reports_of l) = 2"
proof -
  let ?e = tampered_menv and ?img = "\<lambda>(pid :: int) (v :: nat). replicate 4096 (0 :: u8)"
  have sys: "me_sys ?e = demo_sys demo_call" "me_getenv ?e = (\<lambda>_. None)" by (simp_all add: tampered_menv_def demo_menv_def)
  have call: "k_capable demo_call" "k_copy_out demo_call" "k_alloc_fd demo_call" "k_alloc_snapshot demo_call"
    by (simp_all add: demo_call_def)
  have mem: "memory_readable ?e ?img demo_call"
    using zeros_image [of _ 4096]
    by (auto simp: memory_readable_def demo_vmas(3) demo_vma_info tampered_menv_def demo_menv_def)
  have dir: "length (ac_baseline_dir (me_getenv ?e ''AC_BASELINE_DIR'')) < 4000"
    by (simp add: sys ac_baseline_dir_def AC_BASELINE_DIR_def)
  have now: "now_mod (me_sys ?e) prot_dev = prot_module" by (simp add: now_mod_def prot_dev_def sys)
  from tampering_reported [OF _ _ call(3,4) mem dir, of prot_dev] call
  obtain d' where r: "check_baselines_periodic ?e prot_dev =
      Some (tamper_log ?e ?img demo_call \<lparr>pi_pid = 7, pi_jit_allowed = 0, pi_comm = ''game''\<rparr>, d')"
    by (auto simp: sys(1) now [unfolded sys] prot_items Let_def)
  have "is_xdigit (CHR ''A'')" by (simp add: is_xdigit_def hex_digit_val_def)
  then have hexA: "saved_digest (Some (baseline_line 0x400000 4096 (replicate 64 (CHR ''A'')))) = Some (replicate 64 (CHR ''A''))"
    using read_baseline_line [of "replicate 64 (CHR ''A'')" 4096 "0x400000"] by (simp add: saved_digest_def)
  have "replicate 64 (CHR ''A'') \<noteq> digest_hex m" for m
  proof
    assume eq: "replicate 64 (CHR ''A'') = digest_hex m"
    have "CHR ''A'' \<in> set (replicate 64 (CHR ''A''))" by simp
    then have "CHR ''A'' \<in> set hexd" unfolding eq by (rule subsetD [OF set_hex])
    then show False by (simp add: hexd_def)
  qed
  then have "tampered ?e (?img 7 v) (vma_info_of True demo_vma)" for v
    by (simp add: tampered_def demo_vma_info) (simp add: tampered_menv_def hexA demo_vma_def)
  then have "length (reports_of (tamper_log ?e ?img demo_call \<lparr>pi_pid = 7, pi_jit_allowed = 0, pi_comm = ''game''\<rparr>)) = 2"
    by (simp add: tamper_log_def demo_vmas(1) numeral_2_eq_2 reports_of_logmsg ac_consts)
  with r show ?thesis by blast
qed

subsection \<open>Draining the events\<close>

lemma get_events_eq:
  assumes "privileged s" "k_alloc_events (sys_call s (dv_calls d))" "dev_ok s d"
  shows "\<exists>el r. get_events s d = (Some el, d\<lparr>dv_mod := (now_mod s d)\<lparr>m_ring := r\<rparr>, dv_calls := Suc (dv_calls d)\<rparr>) \<and>
    take (el_count el) (el_events el) = take 64 (ring_pending (m_ring (now_mod s d))) \<and>
    ring_pending r = drop 64 (ring_pending (m_ring (now_mod s d)))"
proof -
  have ok: "ring_ok (m_ring (now_mod s d))" by (rule module_invD(1) [OF now_mod_inv [OF assms(3)]])
  obtain el r where el: "ac_drain_events (Some kzalloc_event_list) (m_ring (now_mod s d)) = (Some el, r)"
    by (rule ac_drain_events_kzalloc [OF ok])
  note spec = ring_drain_spec [OF ok, unfolded ring_drain_def el AC_MAX_EVENTS_def]
  have "get_events s d = (Some el, d\<lparr>dv_mod := (now_mod s d)\<lparr>m_ring := r\<rparr>, dv_calls := Suc (dv_calls d)\<rparr>)"
    using assms el privilegedD [OF assms(1), of "dv_calls d"]
    by (simp add: get_events_def dev_ioctl_capable ioctl_get_events_def copy_to_user_def now_mod_def)
  then show ?thesis using spec by (intro exI [of _ el] exI [of _ r]) simp
qed

lemma drain_log_eq:
  assumes "privileged s" "k_alloc_events (sys_call s (dv_calls d))" "dev_ok s d"
  shows "fst (drain_log s vb d) = concat (map (event_log vb) (take 64 (ring_pending (m_ring (now_mod s d)))))"
    "ring_pending (m_ring (dv_mod (snd (drain_log s vb d)))) = drop 64 (ring_pending (m_ring (now_mod s d)))"
  using get_events_eq [OF assms] by (auto simp: drain_log_def)

text \<open>Which events are detections.\<close>

lemma reports_of_event:
  "reports_of (event_log vb e) =
     (if ev_type e = 4 then [(''ALERT'', snprintf 512 (event_text e))]
      else if ev_type e = 5 then [(''CRITICAL'', snprintf 512 (''SYSCALL-HOOK '' @ ev_data e))] else [])"
  by (simp add: event_log_def reports_of_logmsg ac_consts ev_type_str_def)

lemma cycle_reports_events:
  assumes "monitor_cycle e d = Some (l, d')" "privileged (me_sys e)" "dev_ok (me_sys e) (dm_dev d)"
    "k_alloc_events (sys_call (me_sys e) (dv_calls (dm_dev d)))"
    "ev \<in> set (take 64 (ring_pending (m_ring (now_mod (me_sys e) (dm_dev d)))))"
  shows "set (reports_of (event_log (me_verbose e) ev)) \<subseteq> set (reports_of l)"
proof -
  obtain l2 where "l = fst (drain_log (me_sys e) (me_verbose e) (dm_dev d)) @ l2"
    using assms(1) by (auto simp: monitor_cycle_def bind_eq_Some_conv split: prod.splits)
  then show ?thesis
    using assms(5) drain_log_eq(1) [OF assms(2,4,3), of "me_verbose e"] by (auto simp: reports_of_concat)
qed

subsection \<open>Well-formed states of the daemon\<close>

definition daemon_wf :: "dsys \<Rightarrow> daemon \<Rightarrow> bool" where
  "daemon_wf s d \<longleftrightarrow> dev_ok s (dm_dev d) \<and> anon_inv (dm_anon d) \<and> preload_inv (dm_preload d) \<and>
     vklayer_inv (dm_vklayer d) \<and> implicit_inv (dm_implicit d)"

lemma preload_loop_inv: "preload_inv t \<Longrightarrow> preload_inv (fst (preload_loop vb env its t))"
proof (induction its arbitrary: t)
  case (Cons it its)
  have "preload_inv (preload_mark_warned (pi_pid it) t)"
    using pre.invar_put [OF Cons.prems] by simp
  then show ?case using Cons by (simp add: case_prod_beta Let_def)
qed simp

lemma table_checks_inv:
  "preload_inv p \<Longrightarrow> preload_inv (fst (check_ld_preload_periodic vb env pl p))"
  "vklayer_inv v \<Longrightarrow> vklayer_inv (fst (check_vk_layers_periodic vb env pl v))"
  "implicit_inv i \<Longrightarrow> implicit_inv (fst (check_implicit_layers_periodic vb fs pl i))"
  by (simp_all add: check_ld_preload_periodic_def check_vk_layers_periodic_def check_implicit_layers_periodic_def
      preload_loop_inv vklayer_loop_inv implicit_loop_inv pre.invar_retain vkl.invar_retain impl.invar_retain
      split: option.split)

lemma scan_loop_wf:
  "dev_ok s d \<Longrightarrow> anon_inv t \<Longrightarrow>
     dev_ok s (snd (scan_loop s vb its t d)) \<and> anon_inv (fst (fst (scan_loop s vb its t d)))"
proof (induction its arbitrary: t d)
  case (Cons it its)
  obtain r d1 where r: "scan_begin s (pi_pid it) 0 d = (r, d1)" by (cases "scan_begin s (pi_pid it) 0 d")
  have d1: "dev_ok s d1" using wrappers_ok(2) [OF Cons.prems(1), of "pi_pid it" 0] r by simp
  show ?case
  proof (cases r)
    case None
    then show ?thesis using r Cons.IH [OF d1 Cons.prems(2)] by simp
  next
    case (Some b)
    have "anon_inv (fst (anon_baseline_check vb (pi_pid it) (pi_comm it) (sb_anon_exec_count b) (pi_jit_allowed it \<noteq> 0) t))"
      by (rule anon_put(1) [OF Cons.prems(2)])
    with r Some show ?thesis
      using Cons.IH [OF wrappers_ok(4) [OF d1]] by (simp add: case_prod_beta Let_def)
  qed
qed simp

lemma baselines_loop_wf:
  "baselines_loop e its d = Some (l, d') \<Longrightarrow> dev_ok (me_sys e) d \<Longrightarrow> dev_ok (me_sys e) d'"
proof (induction its arbitrary: l d)
  case (Cons it its)
  obtain r d1 where r: "scan_vmas (me_sys e) (pi_pid it) 0 d = (r, d1)" by (cases "scan_vmas (me_sys e) (pi_pid it) 0 d")
  have "dev_ok (me_sys e) d1" using scan_vmas_ok [OF Cons.prems(2), of "pi_pid it" 0] r by simp
  then show ?case
    using Cons.prems(1) Cons.IH r by (auto simp: bind_eq_Some_conv split: option.splits)
qed simp

lemma render_loop_wf: "dev_ok (me_sys e) d \<Longrightarrow> dev_ok (me_sys e) (snd (render_loop e its d))"
proof (induction its arbitrary: d)
  case (Cons it its)
  from Cons.IH [OF scan_vmas_ok [OF Cons.prems]] show ?case by (simp add: case_prod_beta Let_def)
qed simp

lemma crosscheck_wf: "dev_ok s d \<Longrightarrow> dev_ok s (snd (crosscheck_modules s vb pm d))"
proof -
  assume d: "dev_ok s d"
  obtain r d1 where r: "mods_begin s d = (r, d1)" by (cases "mods_begin s d")
  have d1: "dev_ok s d1" using wrappers_ok(5) [OF d] r by simp
  have "dev_ok s (snd (get_loop (mods_get s) n 0 d1))" for n
    by (rule get_loop_ok [where P = "dev_ok s"]) (simp_all add: wrappers_ok(6) d1)
  then show ?thesis using r d1 by (cases r) (simp_all add: crosscheck_modules_def case_prod_beta Let_def wrappers_ok(7))
qed

lemma run_check_wf:
  assumes "run_check e c d = Some (l, d')" "daemon_wf (me_sys e) d"
  shows "daemon_wf (me_sys e) d'"
proof -
  let ?s = "me_sys e" and ?v = "dm_dev d"
  have wf: "dev_ok ?s ?v" "anon_inv (dm_anon d)" "preload_inv (dm_preload d)" "vklayer_inv (dm_vklayer d)"
    "implicit_inv (dm_implicit d)"
    using assms(2) by (simp_all add: daemon_wf_def)
  have lp: "dev_ok ?s (snd (list_protected ?s ?v))" by (rule wrappers_ok(1) [OF wf(1)])
  have sys: "dev_ok ?s (snd (check_syscalls_periodic ?s vb ?v))" for vb
    using dev_ioctl_ok [OF wf(1), of CHECK_SYSCALLS no_arg]
    by (auto simp: check_syscalls_periodic_def split: prod.splits kret.splits ureply.splits)
  have mods: "dev_ok ?s (snd (check_modules_periodic ?s vb pm ?v))" for vb pm
    using crosscheck_wf [OF wf(1), of False pm] by (simp add: check_modules_periodic_def case_prod_beta)
  have scan: "dev_ok ?s (snd (scan_protected_periodic ?s vb (dm_anon d) ?v)) \<and>
      anon_inv (fst (fst (scan_protected_periodic ?s vb (dm_anon d) ?v)))" for vb
    using lp wf(2) scan_loop_wf anon.invar_retain [OF wf(2)]
    by (auto simp: scan_protected_periodic_def split: option.splits prod.splits)
  have base: "dev_ok ?s v'" if "check_baselines_periodic e ?v = Some (l', v')" for l' v'
    using that lp baselines_loop_wf [of e] by (auto simp: check_baselines_periodic_def split: option.splits prod.splits)
  have render: "dev_ok ?s (snd (check_render_hooks_periodic e ?v))"
    using lp render_loop_wf [of e] by (auto simp: check_render_hooks_periodic_def split: option.splits prod.splits)
  show ?thesis
    using assms(1) lp sys [of "me_verbose e"] mods [of "me_verbose e" "me_modules e"] scan [of "me_verbose e"] base render wf
      table_checks_inv
    by (cases c) (auto simp: daemon_wf_def bind_eq_Some_conv case_prod_beta Let_def)
qed

lemma timed_checks_wf: "timed_checks e cs d = Some (l, d') \<Longrightarrow> daemon_wf (me_sys e) d \<Longrightarrow> daemon_wf (me_sys e) d'"
proof (induction cs arbitrary: d l)
  case (Cons c cs)
  obtain l1 d1 l2 where t: "timed_check e c d = Some (l1, d1)" "timed_checks e cs d1 = Some (l2, d')"
    using Cons.prems(1) by (auto simp: bind_eq_Some_conv)
  have "daemon_wf (me_sys e) d1"
    using t(1) Cons.prems(2) run_check_wf [of e c d]
    by (auto simp: timed_check_def bind_eq_Some_conv daemon_wf_def split: if_splits)
  with Cons.IH [OF t(2)] show ?case by simp
qed simp

lemma monitor_cycle_wf:
  assumes "monitor_cycle e d = Some (l, d')" "daemon_wf (me_sys e) d"
  shows "daemon_wf (me_sys e) d'"
proof -
  have "dev_ok (me_sys e) (snd (drain_log (me_sys e) vb (dm_dev d)))" for vb
    using dev_ioctl_ok [of "me_sys e" "dm_dev d" GET_EVENTS no_arg] assms(2)
    by (auto simp: drain_log_def get_events_def daemon_wf_def split: prod.splits kret.splits ureply.splits option.splits)
  then have "daemon_wf (me_sys e) (d\<lparr>dm_dev := snd (drain_log (me_sys e) (me_verbose e) (dm_dev d))\<rparr>)"
    using assms(2) by (simp add: daemon_wf_def)
  then show ?thesis
    using assms(1) timed_checks_wf [of e all_checks] by (auto simp: monitor_cycle_def bind_eq_Some_conv case_prod_beta)
qed



end
