(* ===== verification/Daemon_Commands.thy ===== *)
theory Daemon_Commands
  imports Daemon_Detections
begin

text \<open>
  The commands of the tool \<open>anticheat\<close> (src/src/anticheat_daemon.c): their options, the ioctls they
  issue, what they print and their exit codes, and the dispatch of \<open>main\<close>.

  Every \<open>printf\<close> is a constructor of \<open>out\<close> with the values it prints. What the system provides is the record
  \<open>cli\<close>. The files a scan with \<open>--save\<close> writes are a state of that command, because the same run may read them
  back.
\<close>

subsection \<open>Output and environment\<close>

datatype out =
  Died_with string
| Ioctl_failed ac_cmd errno
| Status_report ac_status
| Protected int string
| Protected_count nat
| No_process string
| Unprotected int
| List_header nat
| List_item int string
| Scan_header int ac_scan_begin
| Mem_unreadable int
| Rwx_vma ac_vma_info
| Anon_exec_vma ac_vma_info
| Exec_vma ac_vma_info
| Hash_failed string
| Hash_line string u64 u64 string
| Baseline_unwritable string
| Baseline_saved string
| Baseline_missing string
| Baseline_alert
| Baseline_ok
| Render_result "(int option \<times> string) list"
| Preload_result int
| Vklayer_result int
| Implicit_result int
| Syscalls_unavailable
| Syscalls_report ac_syscall_check
| Modules_text string
| Vm_report "bool \<times> string" "bool \<times> string"
| Event_line string ac_event
| Ring_dropped u32
| Pinned bool
| Daemon_log "log_effect list"
| Root_warning
| Unknown_command string
| Usage

record cli =
  c_env :: menv
  c_euid :: nat
  c_open :: "string option"
  c_hms :: "u64 \<Rightarrow> string"
  c_procdir :: "string + string list"
  c_comm :: "int \<Rightarrow> string option"
  c_unwritable :: "string \<Rightarrow> bool"
  c_cpuid :: cpuid

type_synonym cmd_result = "(int \<times> out list) \<times> dev"

definition die :: "string \<Rightarrow> dev \<Rightarrow> cmd_result" where
  "die msg d = ((1, [Died_with msg]), d)"

text \<open>\<open>ac_open\<close> of the tool, which ends the process when the device cannot be opened.\<close>

definition with_device :: "cli \<Rightarrow> (dev \<Rightarrow> cmd_result) \<Rightarrow> dev \<Rightarrow> cmd_result" where
  "with_device c f d = (case c_open c of Some err \<Rightarrow> die (open_failed err) d | None \<Rightarrow> f d)"

text \<open>\<open>ioctl_ok\<close>: the reply, or the message that is printed.\<close>

definition ioctl_ok :: "cli \<Rightarrow> ac_cmd \<Rightarrow> uarg \<Rightarrow> dev \<Rightarrow> (out + ureply) \<times> dev" where
  "ioctl_ok c cmd u d =
     (case dev_ioctl (me_sys (c_env c)) cmd u d of
        ((RetOK, r), d') \<Rightarrow> (Inr r, d')
      | ((RetErr er, _), d') \<Rightarrow> (Inl (Ioctl_failed cmd er), d'))"

subsection \<open>status, lock and unlock\<close>

definition cmd_status :: "cli \<Rightarrow> dev \<Rightarrow> cmd_result" where
  "cmd_status c =
     with_device c (\<lambda>d. case ioctl_ok c STATUS no_arg d of
         (Inl o1, d') \<Rightarrow> ((1, [o1]), d')
       | (Inr r, d') \<Rightarrow> ((0, case r of R_status st \<Rightarrow> [Status_report st] | _ \<Rightarrow> []), d'))"

definition cmd_lock :: "cli \<Rightarrow> bool \<Rightarrow> dev \<Rightarrow> cmd_result" where
  "cmd_lock c lock =
     with_device c (\<lambda>d. case ioctl_ok c (if lock then LOCK else UNLOCK) no_arg d of
         (Inl o1, d') \<Rightarrow> ((1, [o1]), d')
       | (Inr _, d') \<Rightarrow> ((0, [Pinned lock]), d'))"

subsection \<open>protect, unprotect and list\<close>

text \<open>\<open>comm\<close> is what one \<open>read\<close> of at most \<open>AC_MAX_COMM\<close> bytes of /proc/pid/comm gives (None: it cannot be
  opened or the read fails).\<close>

definition comm_matches :: "(int \<Rightarrow> string option) \<Rightarrow> string \<Rightarrow> int \<Rightarrow> bool" where
  "comm_matches comm name pid =
     (case comm pid of
        None \<Rightarrow> False
      | Some buf \<Rightarrow>
          let b = take AC_MAX_COMM buf
          in b \<noteq> [] \<and> cstr (rev (dropWhile (\<lambda>c. c = CHR 0x0A \<or> c = CHR 0x20) (rev b))) = name)"

fun pid_of_comm_loop :: "(int \<Rightarrow> string option) \<Rightarrow> string \<Rightarrow> nat \<Rightarrow> string list \<Rightarrow> int list \<Rightarrow> int list" where
  "pid_of_comm_loop comm name mx [] pids = pids"
| "pid_of_comm_loop comm name mx (de # des) pids =
     pid_of_comm_loop comm name mx des
       (if de = [] \<or> \<not> isdigit (hd de) \<or> atoi de \<le> 0 then pids
        else if comm_matches comm name (atoi de) \<and> length pids < mx then pids @ [atoi de] else pids)"

definition pid_of_comm :: "cli \<Rightarrow> string \<Rightarrow> nat \<Rightarrow> string + int list" where
  "pid_of_comm c name mx =
     (case c_procdir c of
        Inl err \<Rightarrow> Inl (''opendir /proc: '' @ err)
      | Inr des \<Rightarrow> Inr (pid_of_comm_loop (c_comm c) name mx des []))"

record protect_opts =
  po_pid :: int
  po_ref_pid :: int
  po_jit :: int
  po_comm :: "string option"

fun parse_protect :: "string list \<Rightarrow> protect_opts \<Rightarrow> protect_opts" where
  "parse_protect (a # b # rest) po =
     (if a = ''--pid'' then parse_protect rest (po\<lparr>po_pid := atoi b\<rparr>)
      else if a = ''--comm'' then parse_protect rest (po\<lparr>po_comm := Some b\<rparr>)
      else if a = ''--ns-of'' then parse_protect rest (po\<lparr>po_ref_pid := atoi b\<rparr>)
      else if a = ''--jit'' then parse_protect (b # rest) (po\<lparr>po_jit := 1\<rparr>)
      else parse_protect (b # rest) po)"
| "parse_protect [a] po = (if a = ''--jit'' then po\<lparr>po_jit := 1\<rparr> else po)"
| "parse_protect [] po = po"

fun protect_all :: "cli \<Rightarrow> int \<Rightarrow> int list \<Rightarrow> dev \<Rightarrow> out list \<times> dev" where
  "protect_all c jit [] d = ([], d)"
| "protect_all c jit (p # ps) d =
     (let (r, d1) = ioctl_ok c ADD_PROC (proc_arg p 0 jit) d;
          (os, d2) = protect_all c jit ps d1
      in ((case r of Inl o1 \<Rightarrow> o1 | Inr _ \<Rightarrow> Protected p []) # os, d2))"

text \<open>The name printed for a process is the zeroed field of the argument: ADD_PROC is a write-only ioctl.\<close>

definition cmd_protect :: "cli \<Rightarrow> string list \<Rightarrow> dev \<Rightarrow> cmd_result" where
  "cmd_protect c argv d =
     (let po = parse_protect argv \<lparr>po_pid = -1, po_ref_pid = -1, po_jit = 0, po_comm = None\<rparr>
      in if po_pid po < 0 \<and> po_comm po = None
         then die ''usage: anticheat protect --pid N [--ns-of REFPID] [--jit] | --comm NAME [--jit]'' d
         else if 0 \<le> po_ref_pid po \<and> po_comm po \<noteq> None
         then die ''usage: --ns-of cannot be combined with --comm'' d
         else if 0 \<le> po_ref_pid po \<and> po_pid po < 0
         then die ''usage: --ns-of requires --pid'' d
         else with_device c (\<lambda>d.
           case po_comm po of
             Some name \<Rightarrow>
               (case pid_of_comm c name 256 of
                  Inl msg \<Rightarrow> die msg d
                | Inr pids \<Rightarrow>
                    if pids = [] then ((1, [No_process name]), d)
                    else let (os, d') = protect_all c (po_jit po) pids d
                         in ((0, os @ [Protected_count (length pids)]), d'))
           | None \<Rightarrow>
               (case ioctl_ok c ADD_PROC (proc_arg (po_pid po) (po_ref_pid po) (po_jit po)) d of
                  (Inl o1, d') \<Rightarrow> ((1, [o1]), d')
                | (Inr _, d') \<Rightarrow> ((0, [Protected (po_pid po) []]), d'))) d)"

fun parse_pid :: "string list \<Rightarrow> int \<Rightarrow> int" where
  "parse_pid (a # b # rest) pid =
     (if a = ''--pid'' then parse_pid rest (atoi b) else parse_pid (b # rest) pid)"
| "parse_pid [a] pid = pid"
| "parse_pid [] pid = pid"

definition cmd_unprotect :: "cli \<Rightarrow> string list \<Rightarrow> dev \<Rightarrow> cmd_result" where
  "cmd_unprotect c argv d =
     (let pid = parse_pid argv (-1)
      in if pid < 0 then die ''usage: anticheat unprotect --pid N'' d
         else with_device c (\<lambda>d.
           case ioctl_ok c DEL_PROC (proc_arg pid 0 0) d of
             (Inl o1, d') \<Rightarrow> ((1, [o1]), d')
           | (Inr _, d') \<Rightarrow> ((0, [Unprotected pid]), d')) d)"

definition cmd_list :: "cli \<Rightarrow> dev \<Rightarrow> cmd_result" where
  "cmd_list c =
     with_device c (\<lambda>d. case ioctl_ok c LIST_PROTECTED no_arg d of
         (Inl o1, d') \<Rightarrow> ((1, [o1]), d')
       | (Inr r, d') \<Rightarrow>
           ((0, case r of
                  R_prot_list pl \<Rightarrow> List_header (pl_count pl)
                    # map (\<lambda>it. List_item (pi_pid it) (pi_comm it)) (take (pl_count pl) (pl_items pl))
                | _ \<Rightarrow> []), d'))"

subsection \<open>syscalls, modules, vmcheck and events\<close>

definition cmd_syscalls :: "cli \<Rightarrow> dev \<Rightarrow> cmd_result" where
  "cmd_syscalls c =
     with_device c (\<lambda>d. case ioctl_ok c CHECK_SYSCALLS no_arg d of
         (Inl o1, d') \<Rightarrow> ((1, [if o1 = Ioctl_failed CHECK_SYSCALLS ENODEV then Syscalls_unavailable else o1]), d')
       | (Inr r, d') \<Rightarrow>
           (case r of
              R_syscalls k \<Rightarrow> ((if sc_ok k then 0 else 2, [Syscalls_report k]), d')
            | _ \<Rightarrow> ((0, []), d')))"

definition cmd_modules :: "cli \<Rightarrow> dev \<Rightarrow> cmd_result" where
  "cmd_modules c =
     with_device c (\<lambda>d. case crosscheck_modules (me_sys (c_env c)) True (me_modules (c_env c)) d of
         ((hidden, text), d') \<Rightarrow>
           ((if hidden < 0 then 1 else if hidden \<noteq> 0 then 2 else 0, [Modules_text text]), d'))"

definition cmd_vmcheck :: "cli \<Rightarrow> dev \<Rightarrow> cmd_result" where
  "cmd_vmcheck c d =
     ((0, [Vm_report (detect_hypervisor_cpuid (c_cpuid c) 16) (detect_hypervisor_dmi (me_fopen (c_env c)) 192)]), d)"

text \<open>One round of \<open>cmd_events\<close>.\<close>

definition print_events :: "cli \<Rightarrow> ac_event_list \<Rightarrow> out list" where
  "print_events c el =
     map (\<lambda>e. Event_line (c_hms c (ev_ts e div 1000000000)) e) (take (el_count el) (el_events el))
     @ (if el_dropped el \<noteq> 0 then [Ring_dropped (el_dropped el)] else [])"

definition events_round :: "cli \<Rightarrow> dev \<Rightarrow> (bool \<times> out list) \<times> dev" where
  "events_round c d =
     (case ioctl_ok c GET_EVENTS no_arg d of
        (Inl o1, d') \<Rightarrow> ((False, [o1]), d')
      | (Inr r, d') \<Rightarrow> ((True, case r of R_events el \<Rightarrow> print_events c el | _ \<Rightarrow> []), d'))"

text \<open>With \<open>--watch\<close> the loop only ends when the ioctl fails.\<close>

partial_function (option) events_watch :: "cli \<Rightarrow> out list \<Rightarrow> dev \<Rightarrow> cmd_result option" where
  "events_watch c acc d =
     (case events_round c d of
        ((ok, os), d') \<Rightarrow> if ok then events_watch c (acc @ os) d' else Some ((1, acc @ os), d'))"

definition cmd_events :: "cli \<Rightarrow> string list \<Rightarrow> dev \<Rightarrow> cmd_result option" where
  "cmd_events c argv d =
     (case c_open c of
        Some err \<Rightarrow> Some (die (open_failed err) d)
      | None \<Rightarrow>
          if ''--watch'' \<in> set argv then events_watch c [] d
          else case events_round c d of ((ok, os), d') \<Rightarrow> Some ((if ok then 0 else 1, os), d'))"

subsection \<open>scan\<close>

record scan_opts =
  so_pid :: int
  so_hash :: bool
  so_save :: bool
  so_check :: bool
  so_hooks :: bool
  so_preload :: bool
  so_vklayers :: bool
  so_implicit :: bool

definition scan_flag :: "string \<Rightarrow> scan_opts \<Rightarrow> scan_opts" where
  "scan_flag a so =
     (if a = ''--hash'' then so\<lparr>so_hash := True\<rparr>
      else if a = ''--save'' then so\<lparr>so_save := True\<rparr>
      else if a = ''--check'' then so\<lparr>so_check := True\<rparr>
      else if a = ''--check-hooks'' then so\<lparr>so_hooks := True\<rparr>
      else if a = ''--check-preload'' then so\<lparr>so_preload := True\<rparr>
      else if a = ''--check-vklayers'' then so\<lparr>so_vklayers := True\<rparr>
      else if a = ''--check-implicit-layers'' then so\<lparr>so_implicit := True\<rparr>
      else so)"

fun parse_scan :: "string list \<Rightarrow> scan_opts \<Rightarrow> scan_opts" where
  "parse_scan (a # b # rest) so =
     (if a = ''--pid'' then parse_scan rest (so\<lparr>so_pid := atoi b\<rparr>) else parse_scan (b # rest) (scan_flag a so))"
| "parse_scan [a] so = scan_flag a so"
| "parse_scan [] so = so"

definition no_scan_opts :: scan_opts where
  "no_scan_opts = \<lparr>so_pid = -1, so_hash = False, so_save = False, so_check = False, so_hooks = False,
     so_preload = False, so_vklayers = False, so_implicit = False\<rparr>"

definition scan_print :: "bool \<Rightarrow> ac_vma_info \<Rightarrow> out list" where
  "scan_print verbose vi =
     (if is_rwx (vi_flags vi) then [Rwx_vma vi]
      else if is_exec (vi_flags vi) \<and> \<not> vi_is_file vi then [Anon_exec_vma vi]
      else if is_exec (vi_flags vi) \<and> verbose then [Exec_vma vi]
      else [])"

type_synonym files = "string \<Rightarrow> string option"

text \<open>Hashing one mapping, saving and checking its baseline. None: the hashing does not return.\<close>

definition scan_hash :: "cli \<Rightarrow> scan_opts \<Rightarrow> nat \<Rightarrow> ac_vma_info \<Rightarrow> files \<Rightarrow> (out list \<times> files) option" where
  "scan_hash c so v vi fs =
     (let e = c_env c
      in case me_mem e (so_pid so) of
           None \<Rightarrow> Some ([Hash_failed (vi_path vi)], fs)
         | Some rd \<Rightarrow>
             Option.bind (hash_proc_mem (rd v) (me_stack e) (vi_start vi) (hash_size vi)) (\<lambda>h.
               case h of
                 None \<Rightarrow> Some ([Hash_failed (vi_path vi)], fs)
               | Some hex \<Rightarrow>
                   Option.bind (baseline_path_for (me_getenv e ''AC_BASELINE_DIR'') (me_stack e) (vi_path vi)) (\<lambda>blpath.
                     let o1 = Hash_line (vi_path vi) (vi_start vi) (vi_start vi + of_nat (hash_size vi)) hex
                     in if so_save so \<and> c_unwritable c blpath then Some ([o1, Baseline_unwritable blpath], fs)
                        else let fs1 = (if so_save so then fs(blpath \<mapsto> baseline_line (vi_start vi) (hash_size vi) hex) else fs);
                                 o2 = (if so_save so then [Baseline_saved blpath] else []);
                                 o3 = (if so_check so
                                       then [case scan_check_verdict (fs1 blpath) hex of
                                               NoBaseline \<Rightarrow> Baseline_missing (vi_path vi)
                                             | Matches \<Rightarrow> Baseline_ok
                                             | Differs \<Rightarrow> Baseline_alert] else [])
                             in Some (o1 # o2 @ o3, fs1))))"

fun scan_print_loop :: "cli \<Rightarrow> scan_opts \<Rightarrow> nat \<Rightarrow> ac_vma_info list \<Rightarrow> files \<Rightarrow> (out list \<times> files) option" where
  "scan_print_loop c so v [] fs = Some ([], fs)"
| "scan_print_loop c so v (vi # vis) fs =
     Option.bind (if so_hash so \<and> is_exec (vi_flags vi) \<and> vi_is_file vi then scan_hash c so v vi fs else Some ([], fs))
       (\<lambda>(o2, fs1). Option.bind (scan_print_loop c so (Suc v) vis fs1)
         (\<lambda>(o3, fs2). Some (scan_print (me_verbose (c_env c)) vi @ o2 @ o3, fs2)))"

definition scan_extras :: "cli \<Rightarrow> scan_opts \<Rightarrow> dev \<Rightarrow> out list \<times> dev" where
  "scan_extras c so d =
     (let e = c_env c; pid = so_pid so;
          (o1, d1) = (if so_hooks so
                      then let (r, d1) = scan_vmas (me_sys e) pid 0 d
                           in ([Render_result (render_hook_statuses_for (me_render e) pid (map_option snd r))], d1)
                      else ([], d))
      in (o1 @ (if so_preload so then [Preload_result (check_ld_preload (me_environ e pid))] else [])
             @ (if so_vklayers so then [Vklayer_result (check_vk_layer_env (me_environ e pid))] else [])
             @ (if so_implicit so then [Implicit_result (check_implicit_layers (me_fs e) pid)] else []), d1))"

definition cmd_scan :: "cli \<Rightarrow> string list \<Rightarrow> dev \<Rightarrow> (cmd_result \<times> files) option" where
  "cmd_scan c argv d =
     (let so = parse_scan argv no_scan_opts; e = c_env c; fs = me_fopen e
      in if so_pid so < 0
         then Some (die (''usage: anticheat scan --pid N [--hash [--save|--check]] [--check-hooks] [--check-preload] ''
                         @ ''[--check-vklayers] [--check-implicit-layers]'') d, fs)
         else (case c_open c of
           Some err \<Rightarrow> Some (die (open_failed err) d, fs)
         | None \<Rightarrow>
             (case scan_begin (me_sys e) (so_pid so) 1 d of
                (None, d1) \<Rightarrow>
                  Some (((1, case fst (ioctl_ok c SCAN_BEGIN (begin_arg (so_pid so) 1) d) of Inl o1 \<Rightarrow> [o1] | Inr _ \<Rightarrow> []), d1), fs)
              | (Some b, d1) \<Rightarrow>
                  let (vis, d2) = get_loop (scan_get (me_sys e) (so_pid so)) (sb_n_vmas b) 0 d1;
                      o1 = (if so_hash so \<and> me_mem e (so_pid so) = None then [Mem_unreadable (so_pid so)] else [])
                  in Option.bind (scan_print_loop c so 0 vis fs) (\<lambda>(o2, fs1).
                       let (o3, d3) = scan_extras c so (scan_end (me_sys e) d2)
                       in Some (((0, Scan_header (so_pid so) b # o1 @ o2 @ o3), d3), fs1)))))"

subsection \<open>The dispatch\<close>

text \<open>\<open>args\<close> are the arguments after the name of the program. Only \<open>start\<close> uses the environments of the loop.\<close>

definition daemon_command :: "string list \<Rightarrow> start_env \<Rightarrow> menv list \<Rightarrow> dev \<Rightarrow> cmd_result option" where
  "daemon_command argv se es d =
     map_option (\<lambda>r. case r of
         Died msg \<Rightarrow> die msg d
       | Stopped l dm \<Rightarrow> ((0, [Daemon_log l]), dm_dev dm)) (cmd_start argv se es d)"

definition dispatch :: "cli \<Rightarrow> start_env \<Rightarrow> menv list \<Rightarrow> string \<Rightarrow> string list \<Rightarrow> dev \<Rightarrow> cmd_result option" where
  "dispatch c se es cmd argv d =
     (if cmd = ''status'' then Some (cmd_status c d)
      else if cmd = ''protect'' then Some (cmd_protect c argv d)
      else if cmd = ''unprotect'' then Some (cmd_unprotect c argv d)
      else if cmd = ''list'' then Some (cmd_list c d)
      else if cmd = ''scan'' then map_option fst (cmd_scan c argv d)
      else if cmd = ''syscalls'' then Some (cmd_syscalls c d)
      else if cmd = ''modules'' then Some (cmd_modules c d)
      else if cmd = ''vmcheck'' then Some (cmd_vmcheck c d)
      else if cmd = ''events'' then cmd_events c argv d
      else if cmd = ''lock'' then Some (cmd_lock c True d)
      else if cmd = ''unlock'' then Some (cmd_lock c False d)
      else if cmd = ''start'' then daemon_command argv se es d
      else if cmd = ''help'' \<or> cmd = ''--help'' \<or> cmd = ''-h'' then Some ((0, [Usage]), d)
      else Some ((1, [Unknown_command cmd, Usage]), d))"

definition main :: "cli \<Rightarrow> start_env \<Rightarrow> menv list \<Rightarrow> string list \<Rightarrow> dev \<Rightarrow> cmd_result option" where
  "main c se es args d =
     (let cmd = (case args of [] \<Rightarrow> ''help'' | a # _ \<Rightarrow> a);
          warn = (if c_euid c \<noteq> 0 \<and> cmd \<noteq> ''help'' then [Root_warning] else [])
      in map_option (\<lambda>((rc, os), d'). ((rc, warn @ os), d')) (dispatch c se es cmd (tl args) d))"

subsection \<open>Lemmas\<close>

lemma parse_protect_pid:
  "int n \<le> INT_MAX \<Longrightarrow> parse_protect [''--pid'', show_nat n] po = po\<lparr>po_pid := int n\<rparr>"
  by (simp add: atoi_show_nat)

lemma main_protect:
  "main c se es (''protect'' # argv) d =
     Some (case cmd_protect c argv d of ((rc, os), d') \<Rightarrow> ((rc, (if c_euid c \<noteq> 0 then [Root_warning] else []) @ os), d'))"
  by (simp add: main_def dispatch_def case_prod_beta)

text \<open>What an exit code 0 of \<open>anticheat protect --pid N\<close> means.\<close>

lemma protect_command_protects:
  assumes "main c se es [''protect'', ''--pid'', show_nat n] d = Some ((0, os), d')" "int n \<le> INT_MAX"
    "dev_ok (me_sys (c_env c)) d"
  shows "let env = k_env (sys_call (me_sys (c_env c)) (dv_calls d)) in
    resolve_pid env (int n) \<noteq> 0 \<and> protected_map (m_reg (dv_mod d')) (resolve_pid env (int n)) = Some False \<and>
    m_ring (dv_mod d') = m_ring (now_mod (me_sys (c_env c)) d) \<and> dev_ok (me_sys (c_env c)) d'"
proof -
  let ?s = "me_sys (c_env c)" and ?u = "proc_arg (int n) (-1) 0"
  let ?k = "sys_call ?s (dv_calls d)"
  have "cmd_protect c [''--pid'', show_nat n] d =
      with_device c (\<lambda>d. case ioctl_ok c ADD_PROC ?u d of
        (Inl o1, d') \<Rightarrow> ((1, [o1]), d') | (Inr _, d') \<Rightarrow> ((0, [Protected (int n) []]), d')) d"
    by (simp add: cmd_protect_def parse_protect_pid [OF assms(2)] del: parse_protect.simps
        cong: option.case_cong prod.case_cong sum.case_cong)
  with assms(1) have io: "\<exists>r. dev_ioctl ?s ADD_PROC ?u d = ((RetOK, r), d')"
    by (auto simp: main_protect with_device_def die_def ioctl_ok_def
        split: option.splits prod.splits sum.splits kret.splits)
  then have cap: "k_capable ?k" by (auto intro: ccontr simp: dev_ioctl_refused)
  have target: "add_target (k_env ?k) (int n) (-1) = resolve_pid (k_env ?k) (int n)"
    by (simp add: add_target_def)
  have ok: "registry_ok (m_reg (now_mod ?s d))" by (rule module_invD(2) [OF now_mod_inv [OF assms(3)]])
  have add: "fst (fst (ac_add_prot_pid (k_env ?k) (int n) (-1) False (m_reg (now_mod ?s d)))) = RetOK"
    "dv_mod d' = (now_mod ?s d)\<lparr>m_reg := snd (ac_add_prot_pid (k_env ?k) (int n) (-1) False (m_reg (now_mod ?s d)))\<rparr>"
    using io cap
    by (auto simp: dev_ioctl_capable ioctl_add_proc_def proc_arg_def no_arg_def now_mod_def Let_def case_prod_beta)
  have "dev_ok ?s d'" using dev_ioctl_ok [OF assms(3), of ADD_PROC ?u] io by auto
  with add_prot_pid_protects [OF ok add(1)] add(2) target show ?thesis by (simp add: Let_def)
qed

text \<open>The number \<open>protect --comm\<close> prints is that of the processes found, whether or not protecting them
  succeeded.\<close>

lemma protect_comm_counts_failures:
  assumes "parse_protect argv \<lparr>po_pid = -1, po_ref_pid = -1, po_jit = 0, po_comm = None\<rparr>
      = \<lparr>po_pid = -1, po_ref_pid = -1, po_jit = 0, po_comm = Some name\<rparr>"
    "c_open c = None" "pid_of_comm c name 256 = Inr pids" "pids \<noteq> []"
    "\<forall>n. \<not> k_capable (sys_call (me_sys (c_env c)) n)"
  shows "fst (cmd_protect c argv d) =
    (0, map (\<lambda>_. Ioctl_failed ADD_PROC EPERM) pids @ [Protected_count (length pids)])"
proof -
  have "fst (protect_all c 0 ps d) = map (\<lambda>_. Ioctl_failed ADD_PROC EPERM) ps" for ps d
    using assms(5) by (induction ps arbitrary: d) (simp_all add: ioctl_ok_def dev_ioctl_refused case_prod_beta)
  then show ?thesis using assms(1-4) by (simp add: cmd_protect_def with_device_def case_prod_beta Let_def)
qed

subsection \<open>Saving and checking baselines\<close>

definition scan_ready :: "cli \<Rightarrow> scan_opts \<Rightarrow> nat \<Rightarrow> ac_vma_info \<Rightarrow> u8 list \<Rightarrow> bool" where
  "scan_ready c so v vi m \<longleftrightarrow> length (me_stack (c_env c)) = 64 \<and>
     length (ac_baseline_dir (me_getenv (c_env c) ''AC_BASELINE_DIR'')) < 4000 \<and>
     (\<exists>rd. me_mem (c_env c) (so_pid so) = Some rd \<and> reads_image (rd v) (vi_start vi) m) \<and> length m = hash_size vi"

abbreviation baseline_name :: "cli \<Rightarrow> ac_vma_info \<Rightarrow> string" where
  "baseline_name c vi \<equiv>
     ac_baseline_dir (me_getenv (c_env c) ''AC_BASELINE_DIR'') @ ''/'' @ digest_hex (map byte (vi_path vi)) @ ''.txt''"

lemma scan_hash_eq:
  assumes "scan_ready c so v vi m" "\<not> (so_save so \<and> c_unwritable c (baseline_name c vi))"
  shows "scan_hash c so v vi fs =
    (let hex = digest_hex m;
         fs1 = (if so_save so then fs(baseline_name c vi \<mapsto> baseline_line (vi_start vi) (hash_size vi) hex) else fs)
     in Some (Hash_line (vi_path vi) (vi_start vi) (vi_start vi + of_nat (hash_size vi)) hex
          # (if so_save so then [Baseline_saved (baseline_name c vi)] else [])
          @ (if so_check so
             then [case scan_check_verdict (fs1 (baseline_name c vi)) hex of
                     NoBaseline \<Rightarrow> Baseline_missing (vi_path vi) | Matches \<Rightarrow> Baseline_ok | Differs \<Rightarrow> Baseline_alert] else []), fs1))"
proof -
  obtain rd where rd: "me_mem (c_env c) (so_pid so) = Some rd" "reads_image (rd v) (vi_start vi) m"
    "length m = hash_size vi" "length (me_stack (c_env c)) = 64"
    "length (ac_baseline_dir (me_getenv (c_env c) ''AC_BASELINE_DIR'')) < 4000"
    using assms(1) by (auto simp: scan_ready_def)
  have "hash_proc_mem (rd v) (me_stack (c_env c)) (vi_start vi) (hash_size vi) = Some (Some (digest_hex m))"
    using hash_image [OF rd(2,4)] rd(3) by simp
  with rd assms(2) show ?thesis
    by (auto simp: scan_hash_def baseline_path_full [OF rd(4,5)] Let_def)
qed

lemma saved_verdict:
  "scan_check_verdict (Some (baseline_line (vi_start vi) (hash_size vi) (digest_hex m))) (digest_hex m') =
     (if sha256_spec m = sha256_spec m' then Matches else Differs)"
proof -
  have "hash_size vi < 2 ^ 64" by (simp add: hash_size_def AC_HASH_CAP_def)
  from read_baseline_line [of "digest_hex m" "hash_size vi" "vi_start vi", OF digest_hex_chars(1) digest_hex_chars(2) this] show ?thesis
    by (simp add: scan_check_verdict_def digest_hex_eq)
qed

text \<open>A baseline file is named after the path alone: of two executable mappings of one file the second
  overwrites what was saved for the first, and the check of the unchanged first mapping raises an
  alert.\<close>

lemma shared_baseline_false_alert:
  assumes "scan_ready c so v1 vi1 m1" "scan_ready c so v2 vi2 m2" "so_save so" "\<not> so_check so"
    "vi_path vi2 = vi_path vi1" "sha256_spec m2 \<noteq> sha256_spec m1" "\<not> c_unwritable c (baseline_name c vi1)"
  shows "\<exists>o1 o2 o3 fs1 fs2. scan_hash c so v1 vi1 fs = Some (o1, fs1) \<and> scan_hash c so v2 vi2 fs1 = Some (o2, fs2) \<and>
    scan_hash c (so\<lparr>so_save := False, so_check := True\<rparr>) v1 vi1 fs2 = Some (o3, fs2) \<and> Baseline_alert \<in> set o3"
proof -
  have "scan_ready c (so\<lparr>so_save := False, so_check := True\<rparr>) v1 vi1 m1" using assms(1) by (simp add: scan_ready_def)
  with assms saved_verdict [of vi2 m2 m1] show ?thesis by (simp add: scan_hash_eq Let_def)
qed

lemma events_round_fails:
  "\<not> k_capable (sys_call (me_sys (c_env c)) (dv_calls d)) \<Longrightarrow> \<not> fst (fst (events_round c d))"
  by (simp add: events_round_def ioctl_ok_def dev_ioctl_refused)

lemma events_round_calls: "dv_calls (snd (events_round c d)) = Suc (dv_calls d)"
proof -
  obtain r d' where r: "dev_ioctl (me_sys (c_env c)) GET_EVENTS no_arg d = (r, d')" by (rule prod.exhaust)
  with dev_ioctl_calls [of "me_sys (c_env c)" GET_EVENTS no_arg d] have "dv_calls d' = Suc (dv_calls d)" by simp
  with r show ?thesis by (auto simp: events_round_def ioctl_ok_def split: prod.splits kret.splits)
qed

text \<open>Watching ends as soon as a call is refused.\<close>

lemma events_watch_ends:
  assumes "dv_calls d \<le> n" "\<not> k_capable (sys_call (me_sys (c_env c)) n)"
  shows "\<exists>os d'. events_watch c acc d = Some ((1, os), d')"
  using assms(1)
proof (induction "n - dv_calls d" arbitrary: acc d)
  case 0
  then have "\<not> fst (fst (events_round c d))" using assms(2) by (intro events_round_fails) simp
  then show ?case by (subst events_watch.simps) (auto simp: case_prod_beta)
next
  case (Suc j)
  have "\<exists>os d'. events_watch c (acc @ snd (fst (events_round c d))) (snd (events_round c d)) = Some ((1, os), d')"
    by (rule Suc.hyps(1)) (use Suc.hyps(2) in \<open>simp_all add: events_round_calls\<close>)
  then show ?case by (subst events_watch.simps) (auto simp: case_prod_beta)
qed

subsection \<open>Properties\<close>

text \<open>C40. Saving and checking a baseline from the command line: after \<open>scan --hash --save\<close> has written the baseline of
  a mapping, \<open>scan --hash --check\<close> of the same mapping prints that it matches if and only if the memory then
  has the digest it had when it was saved, and the alert otherwise; checking changes no file.\<close>

theorem save_check_roundtrip:
  assumes "scan_ready c so v vi m" "so_save so" "\<not> c_unwritable c (baseline_name c vi)"
    and "scan_ready c' so' v' vi m'" "\<not> so_save so'" "so_check so'" "me_getenv (c_env c') = me_getenv (c_env c)"
  shows "\<exists>os os' fs1. scan_hash c so v vi fs = Some (os, fs1) \<and> scan_hash c' so' v' vi fs1 = Some (os', fs1) \<and>
    (Baseline_ok \<in> set os' \<longleftrightarrow> sha256_spec m' = sha256_spec m) \<and>
    (Baseline_alert \<in> set os' \<longleftrightarrow> sha256_spec m' \<noteq> sha256_spec m) \<and>
    (\<forall>f. f \<noteq> baseline_name c vi \<longrightarrow> fs1 f = fs f)"
  using assms saved_verdict [of vi m m'] by (auto simp: scan_hash_eq Let_def)

definition demo_cli :: cli where
  "demo_cli = \<lparr>c_env = tampered_menv, c_euid = 0, c_open = None, c_hms = (\<lambda>_. []), c_procdir = Inr [], c_comm = (\<lambda>_. None),
     c_unwritable = (\<lambda>_. False), c_cpuid = (\<lambda>_. (0, 0, 0))\<rparr>"

theorem save_check_roundtrip_witness:
  "\<exists>os os' fs1. scan_hash demo_cli (no_scan_opts\<lparr>so_pid := 7, so_hash := True, so_save := True\<rparr>) 0 (vma_info_of True demo_vma) (\<lambda>_. None) = Some (os, fs1) \<and>
     scan_hash demo_cli (no_scan_opts\<lparr>so_pid := 7, so_hash := True, so_check := True\<rparr>) 0 (vma_info_of True demo_vma) fs1 = Some (os', fs1) \<and>
     Baseline_ok \<in> set os'"
proof -
  let ?a = "no_scan_opts\<lparr>so_pid := 7, so_hash := True, so_save := True\<rparr>"
  let ?b = "no_scan_opts\<lparr>so_pid := 7, so_hash := True, so_check := True\<rparr>"
  let ?vi = "vma_info_of True demo_vma"
  have env: "me_stack (c_env demo_cli) = replicate 64 0" "me_getenv (c_env demo_cli) = (\<lambda>_. None)"
    "me_mem (c_env demo_cli) = (\<lambda>_. Some (\<lambda>v n a w. PBytes (replicate w 0)))"
    by (simp_all add: demo_cli_def tampered_menv_def demo_menv_def)
  have ready: "scan_ready demo_cli so 0 ?vi (replicate 4096 0)" for so
    using zeros_image by (simp add: scan_ready_def env demo_vma_info ac_baseline_dir_def AC_BASELINE_DIR_def)
  show ?thesis
    using save_check_roundtrip [OF ready [of ?a] _ _ ready [of ?b], of "\<lambda>_. None"]
    by (auto simp: no_scan_opts_def demo_cli_def [THEN arg_cong, of c_unwritable])
qed

end
