(* ===== verification/Spec2Isabelle.thy ===== *)
theory Spec2Isabelle
  imports Module_Lifecycle Lock_Races Daemon_Commands
begin

text \<open>
  A verification development for the Linux anticheat: a kernel module (src/src/anticheat_module.c), the
  tool and monitoring daemon \<open>anticheat\<close> (src/src/anticheat_daemon.c), the ioctl interface between them
  (src/src/anticheat.h) and the hash they use (src/src/sha256.c).

  \<^bold>\<open>The program.\<close> The module keeps a registry of at most 64 protected tasks. Kprobes on ptrace, exec, exit
  and clone deny trace requests on protected tasks, follow their children and forget them when they
  exit; what happens is put into a ring of 256 events. On request the module checks the system call
  table, walks the mappings of a process and lists the loaded modules. Everything is reached through
  ioctls on one device. The daemon opens the device, drains the events and runs eight periodic checks
  whose findings are logged and, from a severity on, reported to a server. The same program offers the
  commands that protect processes, scan them and save and check digests of their code.

  \<^bold>\<open>Conventions.\<close> The globals of a C file are a record; every function takes it and returns it updated.
  Errors are values (\<open>kret\<close> for the errno results of the kernel, options and sums in the daemon). Registers
  and addresses are 64-bit words with their wrap-around, the chaining words of the hash 32-bit words.
  A C string is the list of its characters before the NUL; \<open>snprintf\<close>, \<open>strscpy\<close> and \<open>fgets\<close> cut as in C.
  What the kernel and the system provide is a parameter: \<open>kenv\<close> (tasks and pids), \<open>kimage\<close> (kernel memory,
  symbols, modules), \<open>kmm\<close> (address spaces), \<open>kcall\<close> (the circumstances of one ioctl: capability, allocations,
  copies), \<open>kload\<close> (of a load), \<open>net_env\<close> and \<open>conn_env\<close> (sockets), \<open>layer_fs\<close> and \<open>render_env\<close> (files and memory),
  \<open>dsys\<close> (what other processes do to the module between two calls of the daemon, and its kcalls), \<open>menv\<close>
  (one iteration of the monitoring loop), \<open>start_env\<close> and \<open>cli\<close> (one run of the tool). References on tasks,
  pids, address spaces and on the module itself are counted in the state, so that a leak or a double
  release is visible.

  \<^bold>\<open>Shared theories.\<close>
  \<^item> \<open>AC_Prelude\<close>, \<open>C_Library\<close>: words, error codes, C strings, and the library functions the sources use.
  \<^item> \<open>Event_Queue_Spec\<close>: the contract \<open>lossy_queue\<close> of a bounded queue that overwrites its oldest entry.
  \<^item> \<open>Slot_Table\<close>: the contracts \<open>slot_map\<close>, \<open>slot_map_delete\<close> and \<open>slot_map_retain\<close> of a fixed array used as a
    finite map; five tables of the sources are interpretations of them.

  \<^bold>\<open>Kernel module.\<close>
  \<^item> \<open>Event_Ring\<close>: \<open>ac_emit\<close>, \<open>ac_drain_events\<close> and the flush implement the queue contract; over any run no
    event is invented, duplicated or reordered, and a reply carries no stale memory.
  \<^item> \<open>Task_Registry\<close>: the registry is a map from tasks to JIT flags with one reference per entry; protecting
    by pid releases every reference on every path.
  \<^item> \<open>Syscall_Guard\<close>: symbol lookup, the search for the system call table, the text bounds and the verdict.
    The search loops carry fuel for the window they walk; it is proved that it is never used up, also
    when the window wraps around the address space.
  \<^item> \<open>Kernel_Probes\<close>: the whole module state, its invariant \<open>module_inv\<close>, the probe handlers and the kill queue.
    It is shown exactly which calls are denied and what a denial changes.
  \<^item> \<open>Fd_Snapshots\<close>, \<open>Module_Ioctl\<close>: the state of a descriptor, the two snapshots and every case of \<open>ac_ioctl\<close>,
    with the protocol of a scan and the preservation of the invariants.
  \<^item> \<open>Module_Lifecycle\<close>: \<open>ac_init\<close> with its error paths, \<open>ac_exit\<close>, and the step relation of a loaded module
    under calls, probe hits and work items; the invariants hold in every reachable state and unloading
    gives everything back.
  \<^item> \<open>Lock_Races\<close>: the first use of a descriptor and UNLOCK as interleavings of several threads.

  \<^bold>\<open>Daemon.\<close>
  \<^item> \<open>Sha256\<close>: the compression function, the constants and the streaming interface agree with FIPS 180-4. The
    two uncounted loops are partial functions into options; it is proved that they return.
  \<^item> \<open>Daemon_Report\<close>: \<open>logmsg\<close>, JSON escaping, resolution, connection and sending of a report; what is sent is
    read back as what was logged.
  \<^item> \<open>Daemon_Tables\<close>: the four tables kept between cycles, interpretations of the slot map contract.
  \<^item> \<open>Daemon_Environ\<close>, \<open>Daemon_Manifest\<close>: the checks of LD_PRELOAD, of the Vulkan layer variables and of implicit
    layers. \<open>Render_Hooks\<close>: the ELF symbol search and the comparison of a present call with its file.
  \<^item> \<open>Daemon_Baseline\<close>: hashing the memory of a process and the files that hold the digests.
  \<^item> \<open>Daemon_Device\<close>: each ioctl of the daemon as a call of the modelled \<open>ac_ioctl\<close>; the contract
    \<open>snapshot_session\<close> of a counted snapshot, with the mappings and the module list as interpretations.
  \<^item> \<open>Daemon_Crosscheck\<close>, \<open>Vm_Check\<close>: hidden modules, and the search for a hypervisor.
  \<^item> \<open>Daemon_Monitor\<close>: the periodic checks, the schedule and \<open>cmd_start\<close>. The run of the loop is a recursion over
    the list of its iterations; that every iteration returns is proved, provided no read of process
    memory is interrupted for ever. The record of the daemon has one field the code does not have,
    \<open>dm_ran\<close>, the history of the checks that ran, which nothing reads.
  \<^item> \<open>Daemon_Detections\<close>: what the checks detect: tampering and growth are reported exactly, and the state
    stays well formed through any run.
  \<^item> \<open>Daemon_Commands\<close>: every command and \<open>main\<close>. Each printf is a constructor of the datatype \<open>out\<close>. The endless
    loop of \<open>events --watch\<close> is a partial function, which returns only when an ioctl fails.

  This theory holds the properties that span the program: what the command \<open>protect\<close> achieves at the
  ptrace probe, and that a denied attempt arrives at the server as an alert.

  \<^bold>\<open>Not modelled.\<close>
  \<^item> src/server/ac_server.py, a separate service in Python; the request it receives is modelled.
  \<^item> The scripts, the packaging, the continuous integration and the test programs, which have no logic of
    the anticheat.
  \<^item> In the daemon: the text of \<open>usage\<close> and the wording of explanations (single constructors of \<open>out\<close>), the
    redirection of the standard streams and the signal set-up of \<open>cmd_start\<close> (a signal ends the list of
    iterations), \<open>sleep\<close>, the close of the device at the end of a command (for the module it is
    \<open>ac_release\<close> of \<open>Module_Ioctl\<close>), and \<open>proc_exe_path\<close>, whose result \<open>cmd_scan\<close> does not use.
  \<^item> In the module: the messages of \<open>pr_info\<close> and the registration tables of the kernel's macros. Locking
    appears as the atomicity of the steps, except in \<open>Lock_Races\<close>, where it is the subject.
  \<^item> The kernel and the C library themselves, other than the library functions of \<open>C_Library\<close>.
\<close>

subsection \<open>From the command line to the probe\<close>

lemma sint_of_nat_u64: "int n \<le> INT_MAX \<Longrightarrow> sint (of_nat n :: u64) = int n"
  by (simp add: signed_of_nat signed_take_bit_int_eq_self INT_MAX_def)

text \<open>C1. When \<open>anticheat protect --pid N\<close> ends with exit code 0, every ptrace request made in the state it
  leaves, other than PTRACE_TRACEME and with N in its target register, by whichever task and in the 64-bit or the
  compatibility calling convention, is neutralised by the probe as long as N names the same task: its request
  register is overwritten with -1 before the system call reads it.\<close>

theorem protect_then_attach_denied:
  assumes "main c se es [''protect'', ''--pid'', show_nat n] d = Some ((0, os), d')" "0 < n" "int n \<le> INT_MAX"
    "dev_ok (me_sys (c_env c)) d" "current \<noteq> 0"
    "ptrace_request is_compat args \<noteq> 0" "ptrace_target is_compat args = of_nat n"
  shows "fst (ac_ptrace_pre (k_env (sys_call (me_sys (c_env c)) (dv_calls d))) current is_compat now alloc_ok args (dv_mod d'))
    = neutralised is_compat args"
proof -
  have "to_int32 (of_nat n) = int n" using assms(3) by (intro to_int32_of_nat) (simp add: INT_MAX_def)
  moreover have "0 < sint (of_nat n :: u64)" using assms(2) sint_of_nat_u64 [OF assms(3)] by simp
  ultimately have "attach_denied (k_env (sys_call (me_sys (c_env c)) (dv_calls d))) is_compat args (m_reg (dv_mod d'))"
    using protect_command_protects [OF assms(1,3,4)] assms(6) unfolding attach_denied_def assms(7) by (auto simp: Let_def)
  moreover have "\<not> traceme_denied current is_compat args (m_reg (dv_mod d'))"
    using assms(6) by (simp add: traceme_denied_def)
  ultimately show ?thesis by (simp add: ac_ptrace_pre_eq [OF assms(5)])
qed

definition demo_start :: start_env where
  "demo_start = \<lparr>se_euid = 0, se_open = None, se_fork = None, se_pid = 30, se_sys = demo_sys demo_call, se_verbose = False,
     se_strerror = (\<lambda>_. []), se_cpuid = (\<lambda>_. (0, 0, 0)), se_fopen = (\<lambda>_. None)\<rparr>"

abbreviation attach_7 :: pt_regs where
  "attach_7 \<equiv> \<lparr>r_di = 16, r_si = 7, r_bx = 0, r_cx = 0\<rparr>"

lemma demo_protect: "\<exists>os d'. main demo_cli demo_start [] [''protect'', ''--pid'', show_nat 7] demo_dev = Some ((0, os), d')"
proof -
  have s: "me_sys (c_env demo_cli) = demo_sys demo_call" "c_open demo_cli = None"
    by (simp_all add: demo_cli_def tampered_menv_def demo_menv_def)
  have k: "k_capable demo_call" "k_env demo_call = flat_env" by (simp_all add: demo_call_def)
  have "registry_free (hold 7 registry_init) = 64"
    using registry_init_free by (simp add: registry_free_def hold_def get_task_struct_def del: registry_init_free)
  moreover have "add_target flat_env 7 (-1) = 7" by (simp add: add_target_def resolve_pid_def flat_env_def)
  ultimately have "fst (fst (ac_add_prot_pid flat_env 7 (-1) False registry_init)) = RetOK"
    using add_prot_task_cases [OF registry_inv_hold [OF registry_init_ok, of 7], of 7 flat_env False]
    by (auto simp: ac_add_prot_pid_eq Let_def case_prod_beta split: if_splits)
  then have "\<exists>r d'. dev_ioctl (demo_sys demo_call) ADD_PROC (proc_arg 7 (-1) 0) demo_dev = ((RetOK, r), d')"
    by (simp add: dev_ioctl_capable k ioctl_add_proc_def proc_arg_def no_arg_def demo_dev_def case_prod_beta Let_def
        module_init_def [THEN arg_cong, of m_reg])
  then show ?thesis
    using parse_protect_pid [of 7]
    by (auto simp: main_protect cmd_protect_def with_device_def ioctl_ok_def s INT_MAX_def simp del: parse_protect.simps)
qed

theorem protect_then_attach_denied_witness:
  "\<exists>os d'. main demo_cli demo_start [] [''protect'', ''--pid'', show_nat 7] demo_dev = Some ((0, os), d') \<and>
     fst (ac_ptrace_pre flat_env 9 False 0 True attach_7 (dv_mod d')) = attach_7\<lparr>r_di := - 1\<rparr>"
proof -
  obtain os d' where r: "main demo_cli demo_start [] [''protect'', ''--pid'', show_nat 7] demo_dev = Some ((0, os), d')"
    using demo_protect by blast
  have s: "me_sys (c_env demo_cli) = demo_sys demo_call" by (simp add: demo_cli_def tampered_menv_def demo_menv_def)
  have "k_env demo_call = flat_env" by (simp add: demo_call_def)
  with protect_then_attach_denied [OF r, of 9 False attach_7 0 True] demo_dev_ok [of demo_call] r show ?thesis
    by (auto simp: s INT_MAX_def neutralised_def)
qed

subsection \<open>From the probe to the report\<close>

text \<open>The event of a denied request.\<close>

definition denied_event :: "kenv \<Rightarrow> nat \<Rightarrow> bool \<Rightarrow> u64 \<Rightarrow> pt_regs \<Rightarrow> ac_event" where
  "denied_event env current is_compat now args =
     (let req = ptrace_request is_compat args;
          victim = (if req = 0 then current else resolve_pid env (to_int32 (ptrace_target is_compat args)));
          pid = (if req = 0 then task_pid env current else to_int32 (ptrace_target is_compat args))
      in make_event now AC_EV_PTRACE pid (Some (strscpy AC_MAX_COMM (task_comm env victim)))
           (ptrace_message req (task_pid env current) (task_comm env current)))"

lemma denial_pending:
  assumes "module_inv m" "current \<noteq> 0" "ac_ring_count (m_ring m) < 64"
    "attach_denied env is_compat args (m_reg m) \<or> traceme_denied current is_compat args (m_reg m)"
  shows "ring_pending (m_ring (snd (ac_ptrace_pre env current is_compat now alloc_ok args m)))
    = ring_pending (m_ring m) @ [denied_event env current is_compat now args]"
proof -
  have "m_ring (snd (ac_ptrace_pre env current is_compat now alloc_ok args m))
      = m_ring (denial_event env current is_compat now args m)"
    using assms(4) by (auto simp: ac_ptrace_pre_eq [OF assms(2)] ac_schedule_kill_def Let_def get_task_pid_def)
  then show ?thesis
    using ring_push_pending [OF module_invD(1) [OF assms(1)]] assms(3)
    by (simp add: denial_event_def denied_event_def Let_def ac_emit_def AC_RING_SIZE_def)
qed

text \<open>C2. A denied attempt to trace a protected process reaches the operator: if fewer than 64 events were waiting,
  nothing else touches the module meanwhile, and the daemon is privileged and its event buffer can be allocated,
  the next iteration of the daemon's loop returns and sends an ALERT report with the text of the event that
  the probe has queued.\<close>

theorem denied_attach_reported:
  assumes "module_inv m" "current \<noteq> 0" "ac_ring_count (m_ring m) < 64"
    "attach_denied env is_compat args (m_reg m) \<or> traceme_denied current is_compat args (m_reg m)"
    and "dv_mod (dm_dev d) = snd (ac_ptrace_pre env current is_compat now alloc_ok args m)" "file_ok (dv_file (dm_dev d))"
    and "\<forall>n m. sys_between (me_sys e) n m = m" "privileged (me_sys e)" "menv_ok e"
    "k_alloc_events (sys_call (me_sys e) (dv_calls (dm_dev d)))"
  shows "\<exists>l d'. monitor_cycle e d = Some (l, d') \<and>
    (''ALERT'', snprintf 512 (event_text (denied_event env current is_compat now args))) \<in> set (reports_of l)"
proof -
  let ?ev = "denied_event env current is_compat now args"
  obtain l d' where r: "monitor_cycle e d = Some (l, d')" using monitor_cycle_returns [OF assms(9), of d] by auto
  have "module_inv (dv_mod (dm_dev d))"
    unfolding assms(5) using assms(1,2) by (rule ac_ptrace_pre_inv)
  then have ok: "dev_ok (me_sys e) (dm_dev d)" using assms(6,7) by (simp add: dev_ok_def)
  have "ring_pending (m_ring (now_mod (me_sys e) (dm_dev d))) = ring_pending (m_ring m) @ [?ev]"
    using denial_pending [OF assms(1-4)] by (simp add: now_mod_def assms(5,7))
  moreover have "length (ring_pending (m_ring m)) < 64" using assms(3) by simp
  ultimately have "?ev \<in> set (take 64 (ring_pending (m_ring (now_mod (me_sys e) (dm_dev d)))))" by simp
  from cycle_reports_events [OF r assms(8) ok assms(10) this]
  have "(''ALERT'', snprintf 512 (event_text ?ev)) \<in> set (reports_of l)"
    by (simp add: reports_of_event denied_event_def make_event_def Let_def)
  with r show ?thesis by blast
qed

theorem denied_attach_reported_witness:
  "\<exists>l d'. monitor_cycle (demo_menv 100 demo_call)
       (daemon_init (prot_dev\<lparr>dv_mod := snd (ac_ptrace_pre flat_env 9 False 0 True attach_7 prot_module)\<rparr>)) = Some (l, d') \<and>
     reports_of l \<noteq> []"
proof -
  let ?e = "demo_menv 100 demo_call"
  let ?d = "daemon_init (prot_dev\<lparr>dv_mod := snd (ac_ptrace_pre flat_env 9 False 0 True attach_7 prot_module)\<rparr>)"
  have "to_int32 7 = 7" using to_int32_of_nat [of 7] by simp
  then have att: "attach_denied flat_env False attach_7 (m_reg prot_module)"
    using registry_init_add(3) [of 7 flat_env False]
    by (auto simp: attach_denied_def resolve_pid_def flat_env_def Let_def prot_module_def)
  have "ac_ring_count (m_ring prot_module) < 64" by (simp add: prot_module_def ring_init_def)
  from denied_attach_reported [OF prot_module_inv _ this disjI1 [OF att], of 9 ?d 0 True ?e]
  show ?thesis
    by (auto simp: daemon_init_def prot_dev_def file_ok_def demo_menv_def menv_ok_def demo_call_def)
qed

end
